(* ===== verification/Bch_Prelude.thy ===== *)
theory Bch_Prelude
  imports Main "HOL-Library.Word"
begin

text \<open>
  Shared vocabulary of the development: the fixed-width integers of the C code, the
  bit-scan helpers of \<^verbatim>\<open>include/linux/bitops.h\<close> and \<^verbatim>\<open>include/linux/math.h\<close>, the
  three-way comparison \<^verbatim>\<open>cmp_int\<close> of \<^verbatim>\<open>libbcachefs/util.h\<close>, the errors the modelled
  code returns, and the generic facts on words and lists that the component theories use.

  The named collections are: \<^verbatim>\<open>word_nat\<close>, facts that move a word expression to \<open>nat\<close>;
  \<^verbatim>\<open>cmp_simps\<close>, facts that resolve three-way comparisons.
\<close>

unbundle bit_operations_syntax

named_theorems word_nat
named_theorems cmp_simps

type_synonym u8 = "8 word"
type_synonym u16 = "16 word"
type_synonym u32 = "32 word"
type_synonym u64 = "64 word"

section \<open>Error codes\<close>

text \<open>
  The error codes of \<^verbatim>\<open>libbcachefs/errcode.h\<close> (and the plain errno values) that the
  modelled functions return. A C function that returns \<open>-BCH_ERR_x\<close> is modelled by a
  function into \<open>bch_err + 'a\<close> whose \<open>Inl\<close> is the error.
\<close>

datatype bch_err =
    EINVAL
  | ENOMEM
  | BCH_ERR_varint_decode_error
  | BCH_ERR_invalid
  | BCH_ERR_ENOMEM_journal_key_insert
  | BCH_ERR_ENOMEM_journal_keys_sort
  | BCH_ERR_ENOMEM_buckets_waiting_for_journal_set
  | BCH_ERR_ENOMEM_buckets_waiting_for_journal_init
  | BCH_ERR_ENOMEM_blacklist_table_init
  | BCH_ERR_ENOSPC_sb_journal_seq_blacklist
  | BCH_ERR_invalid_sb_journal_seq_blacklist
  | BCH_ERR_ENOSPC_disk_label_add
  | BCH_ERR_invalid_sb_disk_groups

section \<open>Bit scans\<close>

text \<open>
  \<^verbatim>\<open>fls\<close>: one more than the index of the highest set bit, 0 for 0. \<^verbatim>\<open>__fls\<close> is one less
  and is only called on nonzero words; \<^verbatim>\<open>__ffs\<close> is the index of the lowest set bit of a
  nonzero word, and \<open>ffz(x)\<close> is \<open>__ffs(~x)\<close>.
\<close>

fun fls_nat :: "nat \<Rightarrow> nat" where
  "fls_nat n = (if n = 0 then 0 else Suc (fls_nat (n div 2)))"

fun ffs_nat :: "nat \<Rightarrow> nat" where
  "ffs_nat n = (if n = 0 \<or> odd n then 0 else Suc (ffs_nat (n div 2)))"

declare fls_nat.simps [simp del]
declare ffs_nat.simps [simp del]

definition fls64 :: "u64 \<Rightarrow> nat" where
  "fls64 x = fls_nat (unat x)"

definition fls_word :: "'a::len word \<Rightarrow> nat" where
  "fls_word w = fls_nat (unat w) - 1"

definition ffs_word :: "'a::len word \<Rightarrow> nat" where
  "ffs_word w = ffs_nat (unat w)"

definition ffz_word :: "'a::len word \<Rightarrow> nat" where
  "ffz_word w = ffs_word (NOT w)"

definition DIV_ROUND_UP :: "nat \<Rightarrow> nat \<Rightarrow> nat" where
  "DIV_ROUND_UP n d = (n + d - 1) div d"

lemma fls_nat_0 [simp]: "fls_nat 0 = 0"
  by (simp add: fls_nat.simps)

lemma fls_nat_pos: "0 < n \<Longrightarrow> fls_nat n = Suc (fls_nat (n div 2))"
  by (simp add: fls_nat.simps [of n])

lemma fls_nat_le_iff: "fls_nat n \<le> k \<longleftrightarrow> n < 2 ^ k"
proof (induction k arbitrary: n)
  case 0
  then show ?case by (cases "n = 0") (simp_all add: fls_nat_pos)
next
  case (Suc k)
  show ?case
  proof (cases "n = 0")
    case False
    then have "fls_nat n \<le> Suc k \<longleftrightarrow> fls_nat (n div 2) \<le> k"
      by (simp add: fls_nat_pos)
    also have "\<dots> \<longleftrightarrow> n div 2 < 2 ^ k" by (rule Suc.IH)
    also have "\<dots> \<longleftrightarrow> n < 2 ^ Suc k" by (simp add: div_less_iff_less_mult mult.commute)
    finally show ?thesis .
  qed simp
qed

lemma less_fls_nat_iff: "k < fls_nat n \<longleftrightarrow> 2 ^ k \<le> n"
  using fls_nat_le_iff [of n k] by linarith

lemma fls_nat_less: "n < 2 ^ fls_nat n"
  using fls_nat_le_iff [of n "fls_nat n"] by simp

lemma fls_nat_eqI: "2 ^ k \<le> n \<Longrightarrow> n < 2 ^ Suc k \<Longrightarrow> fls_nat n = Suc k"
  using fls_nat_le_iff [of n "Suc k"] less_fls_nat_iff [of k n] by simp

lemma fls_nat_eq_0_iff [simp]: "fls_nat n = 0 \<longleftrightarrow> n = 0"
  using fls_nat_le_iff [of n 0] by simp

lemma fls_nat_mono: "m \<le> n \<Longrightarrow> fls_nat m \<le> fls_nat n"
  using fls_nat_le_iff [of m "fls_nat n"] fls_nat_less [of n] by simp

lemma fls64_le_iff: "fls64 x \<le> k \<longleftrightarrow> unat x < 2 ^ k"
  by (simp add: fls64_def fls_nat_le_iff)

lemma fls64_le_64: "fls64 x \<le> 64"
  using unsigned_less [of x, where ?'a = nat] by (simp add: fls64_le_iff)


lemma ffs_nat_odd [simp]: "odd n \<Longrightarrow> ffs_nat n = 0"
  by (simp add: ffs_nat.simps)

lemma ffs_nat_double: "0 < n \<Longrightarrow> ffs_nat (2 * n) = Suc (ffs_nat n)"
  by (simp add: ffs_nat.simps [of "2 * n"])

lemma ffs_nat_pow2_mult: "odd r \<Longrightarrow> ffs_nat (2 ^ k * r) = k"
proof (induction k)
  case (Suc k)
  have "0 < 2 ^ k * r" using Suc.prems by (simp add: odd_pos)
  then have "ffs_nat (2 * (2 ^ k * r)) = Suc (ffs_nat (2 ^ k * r))" by (rule ffs_nat_double)
  with Suc show ?case by (simp add: mult.assoc)
qed simp

lemma ffs_nat_decomp: "0 < n \<Longrightarrow> \<exists>r. odd r \<and> n = 2 ^ ffs_nat n * r"
proof (induction n rule: ffs_nat.induct)
  case (1 n)
  show ?case
  proof (cases "odd n")
    case True
    then show ?thesis by simp
  next
    case False
    with 1 obtain r where r: "odd r" "n div 2 = 2 ^ ffs_nat (n div 2) * r" by fastforce
    from False "1.prems" have f: "ffs_nat n = Suc (ffs_nat (n div 2))"
      by (simp add: ffs_nat.simps [of n])
    from False have n2: "n = 2 * (n div 2)" by simp
    have "n = 2 * (2 ^ ffs_nat (n div 2) * r)" using n2 r(2) by simp
    then have "n = 2 ^ ffs_nat n * r" by (simp only: f power_Suc mult.assoc)
    with r(1) show ?thesis by blast
  qed
qed

lemma pow2_ffs_nat_le: "0 < n \<Longrightarrow> 2 ^ ffs_nat n \<le> n"
  using ffs_nat_decomp [of n] by (metis dvd_def dvd_imp_le)

lemma unat_less [simp]: "unat (w :: 'a::len word) < 2 ^ LENGTH('a)"
  by (rule unsigned_less)

lemma unat_NOT [word_nat]: "unat (NOT (w :: 'a::len word)) = 2 ^ LENGTH('a) - 1 - unat w"
proof -
  have "NOT w = - 1 - w" by (simp add: not_eq_complement)
  then have "unat (NOT w) = unat (- 1 - w)" by simp
  also have "\<dots> = unat (- 1 :: 'a word) - unat w"
    by (rule unat_sub) (simp add: word_order.extremum)
  finally show ?thesis by (simp add: unsigned_minus_1_eq_mask mask_eq_exp_minus_1)
qed

lemma ffz_word_eqI:
  fixes w :: "'a::len word"
  assumes k: "k < LENGTH('a)" and m: "unat w mod 2 ^ Suc k = 2 ^ k - 1"
  shows "ffz_word w = k"
proof -
  define q where "q = unat w div 2 ^ Suc k"
  have w: "unat w = 2 ^ Suc k * q + (2 ^ k - 1)"
    using m mult_div_mod_eq [of "2 ^ Suc k" "unat w"] by (simp add: q_def)
  obtain d where d: "LENGTH('a) = Suc (k + d)" using k by (metis less_iff_Suc_add)
  have p: "(2::nat) ^ LENGTH('a) = 2 ^ Suc k * 2 ^ d" by (simp add: d power_add)
  have lt: "2 ^ Suc k * q + (2 ^ k - 1) < 2 ^ Suc k * 2 ^ d"
    using unat_less [of w] by (simp add: w p del: power_Suc)
  then have "2 ^ Suc k * q < 2 ^ Suc k * 2 ^ d" by linarith
  then have q: "q < 2 ^ d" by simp
  have "unat (NOT w) = 2 ^ Suc k * 2 ^ d - 1 - (2 ^ Suc k * q + (2 ^ k - 1))"
    by (simp add: unat_NOT w p del: power_Suc)
  also have "\<dots> = 2 ^ Suc k * 2 ^ d - 2 ^ Suc k * q - 2 ^ k" by simp
  also have "\<dots> = 2 ^ Suc k * (2 ^ d - q) - 2 ^ k" by (simp add: diff_mult_distrib2)
  also have "\<dots> = 2 ^ k * (2 * (2 ^ d - q) - 1)"
    by (simp add: diff_mult_distrib2 mult.assoc mult.left_commute)
  finally have "unat (NOT w) = 2 ^ k * (2 * (2 ^ d - q) - 1)" .
  moreover have "odd (2 * (2 ^ d - q) - 1)" using q by simp
  ultimately show ?thesis
    by (simp add: ffz_word_def ffs_word_def ffs_nat_pow2_mult)
qed

lemma ffz_word_less:
  assumes "unat (w :: 'a::len word) + 1 < 2 ^ LENGTH('a)"
  shows "2 ^ ffz_word w \<le> unat (NOT w)"
  using assms by (simp add: ffz_word_def ffs_word_def unat_NOT pow2_ffs_nat_le)

lemma DIV_ROUND_UP_bounds:
  assumes "0 < d"
  shows "n \<le> d * DIV_ROUND_UP n d" "d * DIV_ROUND_UP n d < n + d"
proof -
  have "d * ((n + d - 1) div d) + (n + d - 1) mod d = n + d - 1" by (rule mult_div_mod_eq)
  moreover have "(n + d - 1) mod d < d" using assms by simp
  ultimately show "n \<le> d * DIV_ROUND_UP n d" "d * DIV_ROUND_UP n d < n + d"
    using assms unfolding DIV_ROUND_UP_def by linarith+
qed

lemma DIV_ROUND_UP_unique:
  assumes "n \<le> d * q" "d * q < n + d"
  shows "DIV_ROUND_UP n d = q"
proof -
  have "(n + d - 1) div d = q" using assms by (intro div_nat_eqI) (simp_all add: algebra_simps)
  then show ?thesis by (simp add: DIV_ROUND_UP_def)
qed

text \<open>The low mask written as \<open>~(~0 << n)\<close>, and shifts read as arithmetic.\<close>

lemma not_push_bit_not_0 [simp]: "NOT (push_bit n (NOT 0 :: 'a::len word)) = mask n"
  by (simp add: mask_eq_exp_minus_1 push_bit_eq_mult not_eq_complement)

lemma unat_drop_bit [word_nat]: "unat (drop_bit n w) = unat w div 2 ^ n"
  using drop_bit_eq_div [of n "unat w"] by (simp add: unat_drop_bit_eq)

lemma unat_and_mask [word_nat]: "unat (w AND mask n) = unat w mod 2 ^ n"
  using take_bit_eq_mod [of n "unat w"]
  by (simp add: take_bit_eq_mask [symmetric] unsigned_take_bit_eq)

lemma unat_mask: "n \<le> LENGTH('a) \<Longrightarrow> unat (mask n :: 'a::len word) = 2 ^ n - 1"
  using uint_mask_eq [of n, where ?'a = 'a]
  by (simp add: unat_eq_nat_uint min_def mask_eq_exp_minus_1 nat_diff_distrib nat_power_eq
      del: mask_Suc_exp)

lemma unat_push_bit_less:
  "unat w * 2 ^ n < 2 ^ LENGTH('a) \<Longrightarrow> unat (push_bit n (w :: 'a::len word)) = unat w * 2 ^ n"
  using push_bit_eq_mult [of n "unat w"]
  by (simp add: unsigned_push_bit_eq take_bit_nat_eq_self)

lemma unat_ucast_mod [word_nat]: "unat (ucast w :: 'b::len word) = unat w mod 2 ^ LENGTH('b)"
  by (simp only: unsigned_ucast_eq take_bit_eq_mod)

text \<open>Or-ing values whose set bits are disjoint is addition.\<close>

lemma and_low_high:
  fixes a b :: "'a::len word"
  assumes a: "unat a mod 2 ^ n = 0" and b: "unat b < 2 ^ n"
  shows "a AND b = 0"
proof -
  have "b = b AND mask n"
  proof (rule word_unat_eq_iff [THEN iffD2])
    show "unat b = unat (b AND mask n)" using b by (simp add: unat_and_mask)
  qed
  then have "a AND b = (a AND mask n) AND b" by (metis and.assoc and.commute)
  also have "a AND mask n = 0"
    using a by (simp add: word_unat_eq_iff unat_and_mask)
  finally show ?thesis by simp
qed

lemma or_low_high:
  fixes a b :: "'a::len word"
  assumes a: "unat a mod 2 ^ n = 0" and b: "unat b < 2 ^ n"
  shows "a OR b = a + b" and "unat (a OR b) = unat a + unat b"
proof -
  have z: "a AND b = 0" using a b by (rule and_low_high)
  then show 1: "a OR b = a + b" by (simp add: disjunctive_add_eq_or)
  have "unat a + unat b < 2 ^ LENGTH('a)"
  proof (cases "n \<le> LENGTH('a)")
    case True
    then obtain d where d: "LENGTH('a) = n + d" using le_iff_add by blast
    obtain q where q: "unat a = 2 ^ n * q" using a by auto
    have "2 ^ n * q < 2 ^ n * 2 ^ d" using unat_less [of a] by (simp only: q [symmetric] d power_add)
    then have "Suc q \<le> 2 ^ d" by simp
    then have "2 ^ n * Suc q \<le> 2 ^ n * 2 ^ d" by (rule mult_le_mono2)
    with b show ?thesis by (simp add: q d power_add)
  next
    case False
    then have "(2::nat) ^ LENGTH('a) \<le> 2 ^ n" by simp
    with unat_less [of a] have "unat a < 2 ^ n" by linarith
    with a have "unat a = 0" by simp
    then show ?thesis by simp
  qed
  then show "unat (a OR b) = unat a + unat b" by (simp add: 1 unat_word_ariths)
qed

lemma word_xor_eq_0_iff: "a XOR b = 0 \<longleftrightarrow> a = (b :: 'a::len word)"
  by (metis xor.assoc xor.right_neutral xor_self_eq)

lemma word_plus_1_eq_0: "(w :: 'a::len word) + 1 = 0 \<longleftrightarrow> w = - 1"
  by (simp add: eq_neg_iff_add_eq_0)

lemma unat_plus_1_eq: "(w :: 'a::len word) + 1 \<noteq> 0 \<Longrightarrow> unat (w + 1) = unat w + 1"
  by (metis Suc_eq_plus1 add.commute unatSuc)

lemma unat_minus_1_nat: "unat (- 1 :: 'a::len word) = 2 ^ LENGTH('a) - 1"
  by (simp add: unsigned_minus_1_eq_mask mask_eq_exp_minus_1)

section \<open>Three-way comparison\<close>

definition cmp_int :: "'a::linorder \<Rightarrow> 'a \<Rightarrow> int" where
  "cmp_int l r = (if l > r then 1 else 0) - (if l < r then 1 else 0)"

text \<open>The GNU conditional \<open>a ?: b\<close> on integers.\<close>

definition elvis :: "int \<Rightarrow> int \<Rightarrow> int" where
  "elvis a b = (if a \<noteq> 0 then a else b)"

lemma cmp_int_simps [cmp_simps]:
  "cmp_int l r < 0 \<longleftrightarrow> l < r"
  "cmp_int l r > 0 \<longleftrightarrow> l > r"
  "cmp_int l r \<le> 0 \<longleftrightarrow> l \<le> r"
  "cmp_int l r \<ge> 0 \<longleftrightarrow> l \<ge> r"
  "cmp_int l r = 0 \<longleftrightarrow> l = r"
  by (auto simp: cmp_int_def)

lemma elvis_simps [cmp_simps]:
  "elvis a b < 0 \<longleftrightarrow> a < 0 \<or> a = 0 \<and> b < 0"
  "elvis a b > 0 \<longleftrightarrow> a > 0 \<or> a = 0 \<and> b > 0"
  "elvis a b = 0 \<longleftrightarrow> a = 0 \<and> b = 0"
  by (auto simp: elvis_def)

section \<open>Loops that look for an index\<close>

lemma find_upt_Some: "find P [0..<n] = Some i \<longleftrightarrow> i < n \<and> P i \<and> (\<forall>j<i. \<not> P j)"
  by (auto simp: find_Some_iff)

lemma find_upt_None: "find P [0..<n] = None \<longleftrightarrow> (\<forall>i<n. \<not> P i)"
  by (auto simp: find_None_iff)

section \<open>Comparison callbacks\<close>

text \<open>
  The contract of the \<^verbatim>\<open>cmp\<close> callbacks that sorts, heaps and searches take: the sign of the
  result is that of a total preorder.
\<close>

locale compare_fun =
  fixes cmp :: "'a \<Rightarrow> 'a \<Rightarrow> int"
  assumes cmp_swap: "cmp a b \<le> 0 \<longleftrightarrow> 0 \<le> cmp b a"
    and cmp_trans: "cmp a b \<le> 0 \<Longrightarrow> cmp b c \<le> 0 \<Longrightarrow> cmp a c \<le> 0"
begin

lemma cmp_refl [simp]: "cmp a a = 0"
  using cmp_swap [of a a] by linarith

lemma cmp_le_total: "cmp a b \<le> 0 \<or> cmp b a \<le> 0"
  using cmp_swap [of a b] by linarith

lemma cmp_less_swap: "cmp a b < 0 \<longleftrightarrow> 0 < cmp b a"
  using cmp_swap [of b a] by linarith

lemma cmp_not_le: "\<not> cmp a b \<le> 0 \<Longrightarrow> cmp b a \<le> 0"
  using cmp_le_total by blast

end

interpretation int_cmp: compare_fun "cmp_int :: 'a::linorder \<Rightarrow> 'a \<Rightarrow> int"
  by unfold_locales (auto simp: cmp_int_def of_bool_def split: if_splits)

lemma unat_ucast_small: "unat (x :: 'b::len word) < 2 ^ LENGTH('a) \<Longrightarrow> unat (ucast x :: 'a::len word) = unat x"
  by (simp only: unsigned_ucast_eq take_bit_nat_eq_self)

lemma unat_ucast_up: "LENGTH('b) \<le> LENGTH('a) \<Longrightarrow> unat (ucast (x :: 'b::len word) :: 'a::len word) = unat x"
proof -
  assume "LENGTH('b) \<le> LENGTH('a)"
  then have "(2::nat) ^ LENGTH('b) \<le> 2 ^ LENGTH('a)" by simp
  moreover have "unat x < 2 ^ LENGTH('b)" by (rule unsigned_less)
  ultimately show ?thesis by (intro unat_ucast_small) linarith
qed

end
