(* ===== verification/Bpos.thy ===== *)
theory Bpos
  imports Bch_Prelude
begin

text \<open>
  Btree positions (\<^verbatim>\<open>struct bpos\<close>, \<^verbatim>\<open>struct bversion\<close> of \<^verbatim>\<open>bcachefs_format.h\<close>) and their
  orders and steps (\<^verbatim>\<open>libbcachefs/bkey.h\<close>). A position is the triple of inode, offset and
  snapshot; the C comment says that btree code treats it as a single large integer, and
  \<open>bpos_num\<close> is that integer: the comparisons are its order and the successor and
  predecessor are its increment and decrement. \<^verbatim>\<open>BUG()\<close> is modelled by \<open>None\<close>.
\<close>

datatype bpos = SPOS (bp_inode: u64) (bp_offset: u64) (bp_snapshot: u32)

record bversion =
  bv_hi :: u32
  bv_lo :: u64

abbreviation (input) KEY_INODE_MAX :: u64 where "KEY_INODE_MAX \<equiv> - 1"
abbreviation (input) KEY_OFFSET_MAX :: u64 where "KEY_OFFSET_MAX \<equiv> - 1"
abbreviation (input) KEY_SNAPSHOT_MAX :: u32 where "KEY_SNAPSHOT_MAX \<equiv> - 1"

definition POS_MIN :: bpos where "POS_MIN = SPOS 0 0 0"
definition POS_MAX :: bpos where "POS_MAX = SPOS KEY_INODE_MAX KEY_OFFSET_MAX 0"
definition SPOS_MAX :: bpos where "SPOS_MAX = SPOS KEY_INODE_MAX KEY_OFFSET_MAX KEY_SNAPSHOT_MAX"

section \<open>Comparisons\<close>

definition bpos_eq :: "bpos \<Rightarrow> bpos \<Rightarrow> bool" where
  "bpos_eq l r \<longleftrightarrow>
     ((bp_inode l XOR bp_inode r) OR (bp_offset l XOR bp_offset r) OR
      ucast (bp_snapshot l XOR bp_snapshot r)) = 0"

definition bpos_lt :: "bpos \<Rightarrow> bpos \<Rightarrow> bool" where
  "bpos_lt l r =
     (if bp_inode l \<noteq> bp_inode r then bp_inode l < bp_inode r
      else if bp_offset l \<noteq> bp_offset r then bp_offset l < bp_offset r
      else if bp_snapshot l \<noteq> bp_snapshot r then bp_snapshot l < bp_snapshot r else False)"

definition bpos_le :: "bpos \<Rightarrow> bpos \<Rightarrow> bool" where
  "bpos_le l r =
     (if bp_inode l \<noteq> bp_inode r then bp_inode l < bp_inode r
      else if bp_offset l \<noteq> bp_offset r then bp_offset l < bp_offset r
      else if bp_snapshot l \<noteq> bp_snapshot r then bp_snapshot l < bp_snapshot r else True)"

definition bpos_gt :: "bpos \<Rightarrow> bpos \<Rightarrow> bool" where
  "bpos_gt l r = bpos_lt r l"

definition bpos_ge :: "bpos \<Rightarrow> bpos \<Rightarrow> bool" where
  "bpos_ge l r = bpos_le r l"

definition bpos_cmp :: "bpos \<Rightarrow> bpos \<Rightarrow> int" where
  "bpos_cmp l r =
     elvis (cmp_int (bp_inode l) (bp_inode r))
       (elvis (cmp_int (bp_offset l) (bp_offset r))
         (cmp_int (bp_snapshot l) (bp_snapshot r)))"

definition bpos_min :: "bpos \<Rightarrow> bpos \<Rightarrow> bpos" where
  "bpos_min l r = (if bpos_lt l r then l else r)"

definition bpos_max :: "bpos \<Rightarrow> bpos \<Rightarrow> bpos" where
  "bpos_max l r = (if bpos_gt l r then l else r)"

text \<open>The \<^verbatim>\<open>bkey_\<close> comparisons ignore the snapshot.\<close>

definition bkey_eq :: "bpos \<Rightarrow> bpos \<Rightarrow> bool" where
  "bkey_eq l r \<longleftrightarrow> ((bp_inode l XOR bp_inode r) OR (bp_offset l XOR bp_offset r)) = 0"

definition bkey_lt :: "bpos \<Rightarrow> bpos \<Rightarrow> bool" where
  "bkey_lt l r =
     (if bp_inode l \<noteq> bp_inode r then bp_inode l < bp_inode r else bp_offset l < bp_offset r)"

definition bkey_le :: "bpos \<Rightarrow> bpos \<Rightarrow> bool" where
  "bkey_le l r =
     (if bp_inode l \<noteq> bp_inode r then bp_inode l < bp_inode r else bp_offset l \<le> bp_offset r)"

definition bkey_gt :: "bpos \<Rightarrow> bpos \<Rightarrow> bool" where
  "bkey_gt l r = bkey_lt r l"

definition bkey_ge :: "bpos \<Rightarrow> bpos \<Rightarrow> bool" where
  "bkey_ge l r = bkey_le r l"

definition bkey_cmp :: "bpos \<Rightarrow> bpos \<Rightarrow> int" where
  "bkey_cmp l r =
     elvis (cmp_int (bp_inode l) (bp_inode r)) (cmp_int (bp_offset l) (bp_offset r))"

definition bkey_min :: "bpos \<Rightarrow> bpos \<Rightarrow> bpos" where
  "bkey_min l r = (if bkey_lt l r then l else r)"

definition bkey_max :: "bpos \<Rightarrow> bpos \<Rightarrow> bpos" where
  "bkey_max l r = (if bkey_gt l r then l else r)"

definition bversion_cmp :: "bversion \<Rightarrow> bversion \<Rightarrow> int" where
  "bversion_cmp l r = elvis (cmp_int (bv_hi l) (bv_hi r)) (cmp_int (bv_lo l) (bv_lo r))"

definition ZERO_VERSION :: bversion where
  "ZERO_VERSION = \<lparr>bv_hi = 0, bv_lo = 0\<rparr>"

definition bversion_zero :: "bversion \<Rightarrow> bool" where
  "bversion_zero v \<longleftrightarrow> bversion_cmp v ZERO_VERSION = 0"

section \<open>Steps\<close>

definition bpos_successor :: "bpos \<Rightarrow> bpos option" where
  "bpos_successor p =
     (let s = bp_snapshot p + 1 in
      if s \<noteq> 0 then Some (SPOS (bp_inode p) (bp_offset p) s) else
      let off = bp_offset p + 1 in
      if off \<noteq> 0 then Some (SPOS (bp_inode p) off s) else
      let i = bp_inode p + 1 in
      if i \<noteq> 0 then Some (SPOS i off s) else None)"

definition bpos_predecessor :: "bpos \<Rightarrow> bpos option" where
  "bpos_predecessor p =
     (let s = bp_snapshot p - 1 in
      if bp_snapshot p \<noteq> 0 then Some (SPOS (bp_inode p) (bp_offset p) s) else
      let off = bp_offset p - 1 in
      if bp_offset p \<noteq> 0 then Some (SPOS (bp_inode p) off s) else
      let i = bp_inode p - 1 in
      if bp_inode p \<noteq> 0 then Some (SPOS i off s) else None)"

definition bpos_nosnap_successor :: "bpos \<Rightarrow> bpos option" where
  "bpos_nosnap_successor p =
     (let off = bp_offset p + 1 in
      if off \<noteq> 0 then Some (SPOS (bp_inode p) off 0) else
      let i = bp_inode p + 1 in
      if i \<noteq> 0 then Some (SPOS i off 0) else None)"

definition bpos_nosnap_predecessor :: "bpos \<Rightarrow> bpos option" where
  "bpos_nosnap_predecessor p =
     (let off = bp_offset p - 1 in
      if bp_offset p \<noteq> 0 then Some (SPOS (bp_inode p) off 0) else
      let i = bp_inode p - 1 in
      if bp_inode p \<noteq> 0 then Some (SPOS i off 0) else None)"

section \<open>A position as one large integer\<close>

definition bpos_num :: "bpos \<Rightarrow> nat" where
  "bpos_num p = (unat (bp_inode p) * 2 ^ 64 + unat (bp_offset p)) * 2 ^ 32 + unat (bp_snapshot p)"

text \<open>Two digits compare lexicographically.\<close>

lemma radix_less_iff:
  fixes a b c d m :: nat
  assumes "b < m" "d < m"
  shows "a * m + b < c * m + d \<longleftrightarrow> a < c \<or> a = c \<and> b < d"
proof -
  have *: "a * m + b < c * m + d" if "a < c" "b < m" for a b c d :: nat
  proof -
    have "Suc a * m \<le> c * m" using that by (intro mult_le_mono1) simp
    then show ?thesis using that by simp
  qed
  show ?thesis
    using * [of a c b d] * [of c a d b] assms by (cases a c rule: linorder_cases) auto
qed

lemma radix_eq_iff:
  fixes a b c d m :: nat
  assumes "b < m" "d < m"
  shows "a * m + b = c * m + d \<longleftrightarrow> a = c \<and> b = d"
  using radix_less_iff [OF assms, of a c] radix_less_iff [OF assms(2,1), of c a] by auto

lemma bpos_num_less_iff:
  "bpos_num l < bpos_num r \<longleftrightarrow>
     bp_inode l < bp_inode r \<or> bp_inode l = bp_inode r \<and>
     (bp_offset l < bp_offset r \<or> bp_offset l = bp_offset r \<and> bp_snapshot l < bp_snapshot r)"
proof -
  have s: "unat s < 2 ^ 32" for s :: u32 using unat_less [of s] by simp
  have u: "unat s < 2 ^ 64" for s :: u64 using unat_less [of s] by simp
  show ?thesis
    unfolding bpos_num_def
    by (simp only: radix_less_iff [OF s s] radix_less_iff [OF u u] radix_eq_iff [OF u u]
        word_less_nat_alt [symmetric] word_unat_eq_iff [symmetric]) blast
qed

lemma bpos_num_inj: "bpos_num l = bpos_num r \<longleftrightarrow> l = r"
proof -
  have s: "unat s < 2 ^ 32" for s :: u32 using unat_less [of s] by simp
  have u: "unat s < 2 ^ 64" for s :: u64 using unat_less [of s] by simp
  show ?thesis
    unfolding bpos_num_def
    by (cases l; cases r; simp only: radix_eq_iff [OF s s] radix_eq_iff [OF u u]
        word_unat_eq_iff [symmetric] bpos.sel bpos.inject conj_assoc)
qed

lemma bpos_lt_num: "bpos_lt l r \<longleftrightarrow> bpos_num l < bpos_num r"
  by (auto simp: bpos_lt_def bpos_num_less_iff)

lemma bpos_le_num: "bpos_le l r \<longleftrightarrow> bpos_num l \<le> bpos_num r"
  unfolding linorder_not_less [symmetric, of "bpos_num l"]
  by (auto simp: bpos_le_def bpos_num_less_iff)

instantiation bpos :: linorder
begin

definition less_eq_bpos :: "bpos \<Rightarrow> bpos \<Rightarrow> bool" where
  "less_eq_bpos l r = bpos_le l r"

definition less_bpos :: "bpos \<Rightarrow> bpos \<Rightarrow> bool" where
  "less_bpos l r = bpos_lt l r"

instance
  by standard (auto simp: less_eq_bpos_def less_bpos_def bpos_lt_num bpos_le_num bpos_num_inj
      [symmetric])

end

lemma bpos_less_num: "l < r \<longleftrightarrow> bpos_num l < bpos_num r"
  by (simp add: less_bpos_def bpos_lt_num)

lemma bpos_less_eq_num: "l \<le> r \<longleftrightarrow> bpos_num l \<le> bpos_num r"
  by (simp add: less_eq_bpos_def bpos_le_num)

lemma bpos_eq_iff: "bpos_eq l r \<longleftrightarrow> l = r"
proof -
  have "(ucast (a :: u32) :: u64) = 0 \<longleftrightarrow> a = 0" for a
    by (simp add: word_unat_eq_iff [of "ucast a :: u64"] unsigned_ucast_eq take_bit_eq_mod
        unat_eq_zero) (use unat_less [of a] in \<open>auto simp: unat_eq_zero\<close>)
  then show ?thesis
    by (cases l; cases r) (simp add: bpos_eq_def or_eq_0_iff conj_assoc word_xor_eq_0_iff)
qed

lemma bpos_cmp_num: "bpos_cmp l r = cmp_int (bpos_num l) (bpos_num r)"
  using bpos_num_less_iff [of l r] bpos_num_less_iff [of r l]
  by (auto simp: bpos_cmp_def elvis_def cmp_int_def)

lemma bpos_cmp_simps [cmp_simps]:
  "bpos_cmp l r < 0 \<longleftrightarrow> l < r"
  "bpos_cmp l r > 0 \<longleftrightarrow> l > r"
  "bpos_cmp l r = 0 \<longleftrightarrow> l = r"
  by (simp_all add: bpos_cmp_num cmp_simps bpos_less_num bpos_num_inj)

lemma bkey_cmp_simps [cmp_simps]:
  "bkey_cmp l r < 0 \<longleftrightarrow> bkey_lt l r"
  "bkey_cmp l r > 0 \<longleftrightarrow> bkey_gt l r"
  "bkey_cmp l r = 0 \<longleftrightarrow> bkey_eq l r"
  by (auto simp: bkey_cmp_def bkey_lt_def bkey_gt_def bkey_eq_def or_eq_0_iff word_xor_eq_0_iff
      cmp_simps)

section \<open>Successor and predecessor\<close>

lemma bpos_successor_num:
  "bpos_successor p = Some q \<Longrightarrow> bpos_num q = bpos_num p + 1"
  by (auto simp: bpos_successor_def Let_def bpos_num_def unat_plus_1_eq word_plus_1_eq_0
      unat_minus_1_nat split: if_splits)

lemma bpos_successor_None: "bpos_successor p = None \<longleftrightarrow> p = SPOS_MAX"
  by (cases p) (auto simp: bpos_successor_def Let_def SPOS_MAX_def word_plus_1_eq_0)

lemma bpos_predecessor_successor:
  "bpos_predecessor q = Some p \<longleftrightarrow> bpos_successor p = Some q"
  by (cases p; cases q)
    (auto simp: bpos_successor_def bpos_predecessor_def Let_def word_plus_1_eq_0 eq_diff_eq
      split: if_splits)

lemma bpos_num_le_SPOS_MAX: "p \<le> SPOS_MAX"
  by (simp add: less_eq_bpos_def bpos_le_def SPOS_MAX_def word_order.not_eq_extremum)

text \<open>The \<^verbatim>\<open>nosnap\<close> steps move by one in the order that ignores snapshots.\<close>

lemma bpos_nosnap_successor_least:
  assumes "bpos_nosnap_successor p = Some q"
  shows "bkey_lt p q" "bkey_lt p r \<Longrightarrow> q \<le> r"
proof -
  have step: "w < v \<Longrightarrow> w + 1 \<le> v" for w v :: u64 by (rule inc_le)
  show "bkey_lt p q"
    using assms
    by (auto simp: bpos_nosnap_successor_def Let_def bkey_lt_def word_less_nat_alt unat_plus_1_eq
        word_plus_1_eq_0 split: if_splits)
  show "q \<le> r" if lt: "bkey_lt p r"
  proof (cases "bp_offset p = - 1")
    case True
    then have "bp_inode p < bp_inode r" using lt
      by (simp add: bkey_lt_def word_order.extremum_strict split: if_splits)
    with step have "bp_inode p + 1 \<le> bp_inode r" by blast
    with True assms show ?thesis
      by (auto simp: bpos_nosnap_successor_def Let_def less_eq_bpos_def bpos_le_def word_gt_0
          word_plus_1_eq_0 split: if_splits)
  next
    case False
    then have q: "q = SPOS (bp_inode p) (bp_offset p + 1) 0"
      using assms by (simp add: bpos_nosnap_successor_def Let_def word_plus_1_eq_0)
    show ?thesis
      using lt step [of "bp_offset p" "bp_offset r"]
      by (auto simp: q bkey_lt_def less_eq_bpos_def bpos_le_def word_gt_0 split: if_splits)
  qed
qed

section \<open>Properties\<close>

text \<open>
  C20: every comparison of positions is the order of the single large integer the position
  stands for: \<^verbatim>\<open>bpos_lt\<close>, \<^verbatim>\<open>bpos_le\<close>, the xor-based \<^verbatim>\<open>bpos_eq\<close>, the three-way \<^verbatim>\<open>bpos_cmp\<close>
  and the minimum and maximum.
\<close>

theorem bpos_order_is_integer_order:
  "(bpos_lt l r \<longleftrightarrow> bpos_num l < bpos_num r) \<and>
   (bpos_le l r \<longleftrightarrow> bpos_num l \<le> bpos_num r) \<and>
   (bpos_eq l r \<longleftrightarrow> bpos_num l = bpos_num r) \<and>
   bpos_cmp l r = cmp_int (bpos_num l) (bpos_num r) \<and>
   bpos_num (bpos_min l r) = min (bpos_num l) (bpos_num r) \<and>
   bpos_num (bpos_max l r) = max (bpos_num l) (bpos_num r)"
  by (auto simp: bpos_lt_num bpos_le_num bpos_eq_iff bpos_num_inj bpos_cmp_num bpos_min_def
      bpos_max_def bpos_gt_def)


end
