(* ===== verification/Bkey_Pack.thy ===== *)
theory Bkey_Pack
  imports Bpos "HOL-Library.Monad_Syntax"
begin

text \<open>
  Packed btree keys (\<^verbatim>\<open>libbcachefs/bkey.c\<close>, \<^verbatim>\<open>bkey.h\<close>, little-endian build). A packed key is
  the array of 64 bit words the C code sees through \<^verbatim>\<open>_data\<close>: the three byte header is the
  low 24 bits of word 0, the key words come first and the value words after them. A format
  gives each of the six fields a width and an offset; the fields are laid out from the top
  bit of the highest key word downwards.

  Loads and stores outside the array, and a word pointer that moves below it, give \<open>None\<close>,
  so that a result \<open>Some\<close> also says that every access was inside the key.
\<close>

section \<open>Formats and keys\<close>

record bkey_format =
  key_u64s :: nat
  nr_fields :: nat
  bits_per_field :: "nat list"
  field_offset :: "u64 list"

record bkey =
  k_u64s :: u8
  k_format :: "7 word"
  k_needs_whiteout :: bool
  k_type :: u8
  k_pad :: u8
  k_bversion :: bversion
  k_size :: u32
  k_p :: bpos

abbreviation (input) BKEY_FIELD_INODE :: nat where "BKEY_FIELD_INODE \<equiv> 0"
abbreviation (input) BKEY_FIELD_OFFSET :: nat where "BKEY_FIELD_OFFSET \<equiv> 1"
abbreviation (input) BKEY_FIELD_SNAPSHOT :: nat where "BKEY_FIELD_SNAPSHOT \<equiv> 2"
abbreviation (input) BKEY_FIELD_SIZE :: nat where "BKEY_FIELD_SIZE \<equiv> 3"
abbreviation (input) BKEY_NR_FIELDS :: nat where "BKEY_NR_FIELDS \<equiv> 6"
abbreviation (input) BKEY_U64s :: nat where "BKEY_U64s \<equiv> 5"
abbreviation (input) KEY_PACKED_BITS_START :: nat where "KEY_PACKED_BITS_START \<equiv> 24"
abbreviation (input) KEY_FORMAT_LOCAL_BTREE :: "7 word" where "KEY_FORMAT_LOCAL_BTREE \<equiv> 0"
abbreviation (input) KEY_FORMAT_CURRENT :: "7 word" where "KEY_FORMAT_CURRENT \<equiv> 1"
abbreviation (input) KEY_TYPE_deleted :: u8 where "KEY_TYPE_deleted \<equiv> 0"

definition bch2_bkey_format_current :: bkey_format where
  "bch2_bkey_format_current =
     \<lparr>key_u64s = BKEY_U64s, nr_fields = BKEY_NR_FIELDS,
      bits_per_field = [64, 64, 32, 32, 32, 64], field_offset = [0, 0, 0, 0, 0, 0]\<rparr>"

text \<open>The fields in the order of the \<^verbatim>\<open>bkey_fields()\<close> list.\<close>

definition bkey_fields :: "bkey \<Rightarrow> u64 list" where
  "bkey_fields k =
     [bp_inode (k_p k), bp_offset (k_p k), ucast (bp_snapshot (k_p k)), ucast (k_size k),
      ucast (bv_hi (k_bversion k)), bv_lo (k_bversion k)]"

definition bkey_format_key_bits :: "bkey_format \<Rightarrow> nat" where
  "bkey_format_key_bits f =
     bits_per_field f ! BKEY_FIELD_INODE + bits_per_field f ! BKEY_FIELD_OFFSET +
     bits_per_field f ! BKEY_FIELD_SNAPSHOT"

section \<open>The packed header\<close>

definition set_bits_at :: "nat \<Rightarrow> nat \<Rightarrow> u64 \<Rightarrow> u64 \<Rightarrow> u64" where
  "set_bits_at off n v w = (w AND NOT (push_bit off (mask n))) OR push_bit off (v AND mask n)"

definition bp_u64s :: "u64 list \<Rightarrow> u8" where
  "bp_u64s k = ucast (k ! 0)"

definition bp_format :: "u64 list \<Rightarrow> 7 word" where
  "bp_format k = ucast (drop_bit 8 (k ! 0))"

definition bp_needs_whiteout :: "u64 list \<Rightarrow> bool" where
  "bp_needs_whiteout k = bit (k ! 0) 15"

definition bp_type :: "u64 list \<Rightarrow> u8" where
  "bp_type k = ucast (drop_bit 16 (k ! 0))"

definition set_bp_u64s :: "u8 \<Rightarrow> u64 list \<Rightarrow> u64 list" where
  "set_bp_u64s v k = k[0 := set_bits_at 0 8 (ucast v) (k ! 0)]"

definition set_bp_format :: "7 word \<Rightarrow> u64 list \<Rightarrow> u64 list" where
  "set_bp_format v k = k[0 := set_bits_at 8 7 (ucast v) (k ! 0)]"

definition set_bp_needs_whiteout :: "bool \<Rightarrow> u64 list \<Rightarrow> u64 list" where
  "set_bp_needs_whiteout v k = k[0 := set_bits_at 15 1 (of_bool v) (k ! 0)]"

definition set_bp_type :: "u8 \<Rightarrow> u64 list \<Rightarrow> u64 list" where
  "set_bp_type v k = k[0 := set_bits_at 16 8 (ucast v) (k ! 0)]"

definition bkey_packed :: "u64 list \<Rightarrow> bool" where
  "bkey_packed k \<longleftrightarrow> bp_format k \<noteq> KEY_FORMAT_CURRENT"

definition bkeyp_key_u64s :: "bkey_format \<Rightarrow> u64 list \<Rightarrow> nat" where
  "bkeyp_key_u64s f k = (if bkey_packed k then key_u64s f else BKEY_U64s)"

text \<open>The value size, an \<^verbatim>\<open>unsigned\<close> subtraction.\<close>

definition bkeyp_val_u64s :: "bkey_format \<Rightarrow> u64 list \<Rightarrow> u32" where
  "bkeyp_val_u64s f k = ucast (bp_u64s k) - of_nat (bkeyp_key_u64s f k)"

text \<open>The check on a key read from disk: the value must fit an unpacked key.\<close>

definition bkeyp_u64s_valid :: "bkey_format \<Rightarrow> u64 list \<Rightarrow> bool" where
  "bkeyp_u64s_valid f k \<longleftrightarrow> (ucast (bp_u64s k) - of_nat (bkeyp_key_u64s f k) :: u32) \<le> 255 - 5"

definition set_bkeyp_val_u64s :: "bkey_format \<Rightarrow> nat \<Rightarrow> u64 list \<Rightarrow> u64 list" where
  "set_bkeyp_val_u64s f val_u64s k = set_bp_u64s (of_nat (bkeyp_key_u64s f k + val_u64s)) k"

definition bkeyp_val :: "bkey_format \<Rightarrow> u64 list \<Rightarrow> u64 list" where
  "bkeyp_val f k = drop (bkeyp_key_u64s f k) k"

text \<open>The memory image of an unpacked key, which is read as words through a cast.\<close>

definition bkey_words :: "bkey \<Rightarrow> u64 list" where
  "bkey_words k =
     [ucast (k_u64s k) OR push_bit 8 (ucast (k_format k)) OR
        push_bit 15 (of_bool (k_needs_whiteout k)) OR push_bit 16 (ucast (k_type k)) OR
        push_bit 24 (ucast (k_pad k)) OR push_bit 32 (bv_lo (k_bversion k)),
      drop_bit 32 (bv_lo (k_bversion k)) OR push_bit 32 (ucast (bv_hi (k_bversion k))),
      ucast (k_size k) OR push_bit 32 (ucast (bp_snapshot (k_p k))),
      bp_offset (k_p k), bp_inode (k_p k)]"

section \<open>Word access\<close>

definition high_word :: "bkey_format \<Rightarrow> nat option" where
  "high_word f = (if key_u64s f = 0 then None else Some (key_u64s f - 1))"

definition next_word :: "nat \<Rightarrow> nat option" where
  "next_word p = (if p = 0 then None else Some (p - 1))"

definition load_word :: "u64 list \<Rightarrow> nat \<Rightarrow> u64 option" where
  "load_word k p = (if p < length k then Some (k ! p) else None)"

definition store_word :: "u64 list \<Rightarrow> nat \<Rightarrow> u64 \<Rightarrow> u64 list option" where
  "store_word k p w = (if p < length k then Some (k[p := w]) else None)"

section \<open>Unpacking\<close>

record unpack_state =
  us_bits :: nat
  us_w :: u64
  us_p :: nat

definition unpack_state_init :: "bkey_format \<Rightarrow> u64 list \<Rightarrow> unpack_state option" where
  "unpack_state_init f k = do {
     p \<leftarrow> high_word f;
     w \<leftarrow> load_word k p;
     Some \<lparr>us_bits = 64, us_w = w, us_p = p\<rparr> }"

definition get_inc_field :: "bkey_format \<Rightarrow> u64 list \<Rightarrow> unpack_state \<Rightarrow> nat
    \<Rightarrow> (u64 \<times> unpack_state) option" where
  "get_inc_field f k st field = do {
     let bits = bits_per_field f ! field;
     let offset = field_offset f ! field;
     (v, bits, st) \<leftarrow>
       (if bits \<ge> us_bits st then do {
          p \<leftarrow> next_word (us_p st);
          w \<leftarrow> load_word k p;
          Some (drop_bit (64 - bits) (us_w st), bits - us_bits st,
            \<lparr>us_bits = 64, us_w = w, us_p = p\<rparr>) }
        else Some (0, bits, st));
     let v = v OR drop_bit (63 - bits) (drop_bit 1 (us_w st));
     Some (v + offset,
       st\<lparr>us_w := push_bit bits (us_w st), us_bits := us_bits st - bits\<rparr>) }"

fun get_inc_fields :: "bkey_format \<Rightarrow> u64 list \<Rightarrow> unpack_state \<Rightarrow> nat list
    \<Rightarrow> u64 list option" where
  "get_inc_fields f k st [] = Some []"
| "get_inc_fields f k st (i # is) = do {
     (v, st) \<leftarrow> get_inc_field f k st i;
     vs \<leftarrow> get_inc_fields f k st is;
     Some (v # vs) }"

definition bch2_bkey_unpack_key :: "bkey_format \<Rightarrow> u64 list \<Rightarrow> bkey option" where
  "bch2_bkey_unpack_key f k = do {
     st \<leftarrow> unpack_state_init f k;
     vs \<leftarrow> get_inc_fields f k st [0..<BKEY_NR_FIELDS];
     Some \<lparr>k_u64s = 5 + bp_u64s k - of_nat (key_u64s f), k_format = KEY_FORMAT_CURRENT,
           k_needs_whiteout = bp_needs_whiteout k, k_type = bp_type k, k_pad = 0,
           k_bversion = \<lparr>bv_hi = ucast (vs ! 4), bv_lo = vs ! 5\<rparr>,
           k_size = ucast (vs ! 3),
           k_p = SPOS (vs ! 0) (vs ! 1) (ucast (vs ! 2))\<rparr> }"

definition bkey_unpack_pos_local :: "bkey_format \<Rightarrow> u64 list \<Rightarrow> bpos option" where
  "bkey_unpack_pos_local f k = do {
     st \<leftarrow> unpack_state_init f k;
     (i, st) \<leftarrow> get_inc_field f k st BKEY_FIELD_INODE;
     (off, st) \<leftarrow> get_inc_field f k st BKEY_FIELD_OFFSET;
     (s, st) \<leftarrow> get_inc_field f k st BKEY_FIELD_SNAPSHOT;
     Some (SPOS i off (ucast s)) }"

section \<open>Packing\<close>

record pack_state =
  ps_bits :: nat
  ps_w :: u64
  ps_p :: nat

definition pack_state_init :: "bkey_format \<Rightarrow> pack_state option" where
  "pack_state_init f = do {
     p \<leftarrow> high_word f;
     Some \<lparr>ps_bits = 64, ps_w = 0, ps_p = p\<rparr> }"

definition pack_state_finish :: "pack_state \<Rightarrow> u64 list \<Rightarrow> u64 list option" where
  "pack_state_finish st k = store_word k (ps_p st) (ps_w st)"

definition set_inc_field_raw :: "bkey_format \<Rightarrow> nat \<Rightarrow> u64 \<Rightarrow> pack_state \<times> u64 list
    \<Rightarrow> (pack_state \<times> u64 list) option" where
  "set_inc_field_raw f field v = (\<lambda>(st, k).
     let bits = bits_per_field f ! field in
     if bits \<noteq> 0 then do {
       (bits, st, k) \<leftarrow>
         (if bits > ps_bits st then do {
            let bits = bits - ps_bits st;
            let w = ps_w st OR drop_bit (bits - 1) (drop_bit 1 v);
            k \<leftarrow> store_word k (ps_p st) w;
            p \<leftarrow> next_word (ps_p st);
            Some (bits, \<lparr>ps_bits = 64, ps_w = 0, ps_p = p\<rparr>, k) }
          else Some (bits, st, k));
       let n = ps_bits st - bits;
       Some (st\<lparr>ps_bits := n, ps_w := ps_w st OR push_bit n v\<rparr>, k) }
     else Some (st, k))"

text \<open>The result is the returned boolean with the state and the words after the call.\<close>

definition set_inc_field :: "bkey_format \<Rightarrow> nat \<Rightarrow> u64 \<Rightarrow> pack_state \<times> u64 list
    \<Rightarrow> (bool \<times> pack_state \<times> u64 list) option" where
  "set_inc_field f field v s =
     (let bits = bits_per_field f ! field; offset = field_offset f ! field in
      if v < offset then Some (False, s) else
      let v = v - offset in
      if fls64 v > bits then Some (False, s) else
      map_option (Pair True) (set_inc_field_raw f field v s))"

fun set_inc_fields :: "bkey_format \<Rightarrow> (nat \<times> u64) list \<Rightarrow> pack_state \<times> u64 list
    \<Rightarrow> (bool \<times> pack_state \<times> u64 list) option" where
  "set_inc_fields f [] s = Some (True, s)"
| "set_inc_fields f ((i, v) # ivs) s = do {
     (ok, s) \<leftarrow> set_inc_field f i v s;
     if ok then set_inc_fields f ivs s else Some (False, s) }"

definition bch2_bkey_pack_key :: "u64 list \<Rightarrow> bkey \<Rightarrow> bkey_format \<Rightarrow> (bool \<times> u64 list) option" where
  "bch2_bkey_pack_key out k f = do {
     st \<leftarrow> pack_state_init f;
     out \<leftarrow> store_word out 0 0;
     (ok, st, out) \<leftarrow> set_inc_fields f (zip [0..<BKEY_NR_FIELDS] (bkey_fields k)) (st, out);
     if \<not> ok then Some (False, out) else do {
       out \<leftarrow> pack_state_finish st out;
       Some (True, set_bp_type (k_type k) (set_bp_needs_whiteout (k_needs_whiteout k)
         (set_bp_format KEY_FORMAT_LOCAL_BTREE
           (set_bp_u64s (of_nat (key_u64s f) + k_u64s k - 5) out)))) } }"

section \<open>Keys with values, and transforming between formats\<close>

record bkey_i =
  i_k :: bkey
  i_v :: "u64 list"

definition memcpy_u64s :: "u64 list \<Rightarrow> nat \<Rightarrow> u64 list \<Rightarrow> nat \<Rightarrow> int \<Rightarrow> u64 list option" where
  "memcpy_u64s dst d src s n =
     (if 0 \<le> n \<and> d + nat n \<le> length dst \<and> s + nat n \<le> length src
      then Some (take d dst @ take (nat n) (drop s src) @ drop (d + nat n) dst) else None)"

definition bkey_val_u64s :: "bkey \<Rightarrow> int" where
  "bkey_val_u64s k = int (unat (k_u64s k)) - int BKEY_U64s"

fun transform_fields :: "bkey_format \<Rightarrow> bkey_format \<Rightarrow> u64 list \<Rightarrow> unpack_state \<Rightarrow> nat list
    \<Rightarrow> pack_state \<times> u64 list \<Rightarrow> (bool \<times> pack_state \<times> u64 list) option" where
  "transform_fields out_f in_f inp in_s [] s = Some (True, s)"
| "transform_fields out_f in_f inp in_s (i # is) s = do {
     (v, in_s) \<leftarrow> get_inc_field in_f inp in_s i;
     (ok, s) \<leftarrow> set_inc_field out_f i v s;
     if ok then transform_fields out_f in_f inp in_s is s else Some (False, s) }"

definition bch2_bkey_transform_key :: "bkey_format \<Rightarrow> u64 list \<Rightarrow> bkey_format \<Rightarrow> u64 list
    \<Rightarrow> (bool \<times> u64 list) option" where
  "bch2_bkey_transform_key out_f out in_f inp = do {
     out_s \<leftarrow> pack_state_init out_f;
     in_s \<leftarrow> unpack_state_init in_f inp;
     out \<leftarrow> store_word out 0 0;
     (ok, out_s, out) \<leftarrow> transform_fields out_f in_f inp in_s [0..<BKEY_NR_FIELDS] (out_s, out);
     if \<not> ok then Some (False, out) else do {
       out \<leftarrow> pack_state_finish out_s out;
       Some (True, set_bp_type (bp_type inp) (set_bp_needs_whiteout (bp_needs_whiteout inp)
         (set_bp_u64s (of_nat (key_u64s out_f) + bp_u64s inp - of_nat (key_u64s in_f)) out))) } }"

definition bch2_bkey_transform :: "bkey_format \<Rightarrow> u64 list \<Rightarrow> bkey_format \<Rightarrow> u64 list
    \<Rightarrow> (bool \<times> u64 list) option" where
  "bch2_bkey_transform out_f out in_f inp = do {
     (ok, out) \<leftarrow> bch2_bkey_transform_key out_f out in_f inp;
     if \<not> ok then Some (False, out) else do {
       out \<leftarrow> memcpy_u64s out (key_u64s out_f) inp (key_u64s in_f)
         (int (unat (bp_u64s inp)) - int (key_u64s in_f));
       Some (True, out) } }"

text \<open>
  \<open>bch2_bkey_pack\<close> packs into a local \<^verbatim>\<open>struct bkey_packed\<close>, whose five words start out
  undefined and are an argument here, and then fills in the destination.
\<close>

definition bch2_bkey_pack :: "u64 list \<Rightarrow> u64 list \<Rightarrow> bkey_i \<Rightarrow> bkey_format
    \<Rightarrow> (bool \<times> u64 list) option" where
  "bch2_bkey_pack tmp dst src f = do {
     (ok, tmp) \<leftarrow> bch2_bkey_pack_key tmp (i_k src) f;
     if \<not> ok then Some (False, dst) else do {
       dst \<leftarrow> memcpy_u64s dst (key_u64s f) (i_v src) 0 (bkey_val_u64s (i_k src));
       dst \<leftarrow> memcpy_u64s dst 0 tmp 0 (int (key_u64s f));
       Some (True, dst) } }"

text \<open>A packed key whose format is \<^verbatim>\<open>KEY_FORMAT_CURRENT\<close> is read back from its words.\<close>

definition bkey_of_words :: "u64 list \<Rightarrow> bkey" where
  "bkey_of_words k =
     \<lparr>k_u64s = bp_u64s k, k_format = bp_format k, k_needs_whiteout = bp_needs_whiteout k,
      k_type = bp_type k, k_pad = ucast (drop_bit 24 (k ! 0)),
      k_bversion = \<lparr>bv_hi = ucast (drop_bit 32 (k ! 1)),
                    bv_lo = drop_bit 32 (k ! 0) OR push_bit 32 (k ! 1)\<rparr>,
      k_size = ucast (k ! 2),
      k_p = SPOS (k ! 4) (k ! 3) (ucast (drop_bit 32 (k ! 2)))\<rparr>"

definition packed_to_bkey_c :: "u64 list \<Rightarrow> bkey option" where
  "packed_to_bkey_c k = (if bkey_packed k then None else Some (bkey_of_words k))"

definition bkey_unpack_key :: "bkey_format \<Rightarrow> u64 list \<Rightarrow> bkey option" where
  "bkey_unpack_key f k =
     (if bkey_packed k then bch2_bkey_unpack_key f k else packed_to_bkey_c k)"

definition bkey_unpack_pos :: "bkey_format \<Rightarrow> u64 list \<Rightarrow> bpos option" where
  "bkey_unpack_pos f k =
     (if bkey_packed k then bkey_unpack_pos_local f k else map_option k_p (packed_to_bkey_c k))"

definition bch2_bkey_unpack :: "bkey_format \<Rightarrow> u64 list \<Rightarrow> u64 list \<Rightarrow> bkey_i option" where
  "bch2_bkey_unpack f dst_v src = do {
     k \<leftarrow> bkey_unpack_key f src;
     v \<leftarrow> memcpy_u64s dst_v 0 src (bkeyp_key_u64s f src)
       (int (unat (bp_u64s src)) - int (bkeyp_key_u64s f src));
     Some \<lparr>i_k = k, i_v = v\<rparr> }"

section \<open>Lossy packing of a position\<close>

datatype bkey_pack_pos_ret = BKEY_PACK_POS_EXACT | BKEY_PACK_POS_SMALLER | BKEY_PACK_POS_FAIL

definition set_inc_field_lossy :: "bkey_format \<Rightarrow> nat \<Rightarrow> u64 \<Rightarrow> pack_state \<times> u64 list
    \<Rightarrow> (bool \<times> pack_state \<times> u64 list) option" where
  "set_inc_field_lossy f field v s =
     (let bits = bits_per_field f ! field;
          v = v - field_offset f ! field;
          ret = \<not> fls64 v > bits;
          v = (if fls64 v > bits then NOT (push_bit bits (NOT 0)) else v)
      in map_option (Pair ret) (set_inc_field_raw f field v s))"

text \<open>
  The first part of \<^verbatim>\<open>bch2_bkey_pack_pos_lossy\<close>: borrow from the next field when a field is
  below its offset. \<open>None\<close> is the return of \<^verbatim>\<open>BKEY_PACK_POS_FAIL\<close>; the boolean is \<open>exact\<close>.
\<close>

definition borrow_snapshot :: "bkey_format \<Rightarrow> bpos \<Rightarrow> (bool \<times> bpos) option" where
  "borrow_snapshot f p =
     (if ucast (bp_snapshot p) < field_offset f ! BKEY_FIELD_SNAPSHOT
      then if bp_offset p = 0
        then if bp_inode p = 0 then None
          else Some (False, SPOS (bp_inode p - 1) (bp_offset p - 1) KEY_SNAPSHOT_MAX)
        else Some (False, SPOS (bp_inode p) (bp_offset p - 1) KEY_SNAPSHOT_MAX)
      else Some (True, p))"

definition borrow_offset :: "bkey_format \<Rightarrow> bpos \<Rightarrow> (bool \<times> bpos) option" where
  "borrow_offset f p =
     (if bp_offset p < field_offset f ! BKEY_FIELD_OFFSET
      then if bp_inode p = 0 then None
        else Some (False, SPOS (bp_inode p - 1) KEY_OFFSET_MAX KEY_SNAPSHOT_MAX)
      else Some (True, p))"

definition pack_pos_borrow :: "bkey_format \<Rightarrow> bpos \<Rightarrow> (bool \<times> bpos) option" where
  "pack_pos_borrow f p = do {
     (e1, p) \<leftarrow> borrow_snapshot f p;
     (e2, p) \<leftarrow> borrow_offset f p;
     if bp_inode p < field_offset f ! BKEY_FIELD_INODE then None else Some (e1 \<and> e2, p) }"

definition bch2_bkey_pack_pos_lossy :: "u64 list \<Rightarrow> bpos \<Rightarrow> bkey_format
    \<Rightarrow> (bkey_pack_pos_ret \<times> u64 list) option" where
  "bch2_bkey_pack_pos_lossy out p f = do {
     st \<leftarrow> pack_state_init f;
     out \<leftarrow> (if key_u64s f \<le> length out
       then Some (replicate (key_u64s f) 0 @ drop (key_u64s f) out) else None);
     case pack_pos_borrow f p of
       None \<Rightarrow> Some (BKEY_PACK_POS_FAIL, out)
     | Some (exact, p) \<Rightarrow> do {
         (ok, s) \<leftarrow> set_inc_field_lossy f BKEY_FIELD_INODE (bp_inode p) (st, out);
         let (exact, p) = (if ok then (exact, p)
           else (False, SPOS (bp_inode p) KEY_OFFSET_MAX KEY_SNAPSHOT_MAX));
         (ok, s) \<leftarrow> set_inc_field_lossy f BKEY_FIELD_OFFSET (bp_offset p) s;
         let (exact, p) = (if ok then (exact, p)
           else (False, SPOS (bp_inode p) (bp_offset p) KEY_SNAPSHOT_MAX));
         (ok, st, out) \<leftarrow> set_inc_field_lossy f BKEY_FIELD_SNAPSHOT (ucast (bp_snapshot p)) s;
         let exact = (if ok then exact else False);
         out \<leftarrow> pack_state_finish st out;
         Some (if exact then BKEY_PACK_POS_EXACT else BKEY_PACK_POS_SMALLER,
           set_bp_type KEY_TYPE_deleted (set_bp_format KEY_FORMAT_LOCAL_BTREE
             (set_bp_u64s (of_nat (key_u64s f)) out))) } }"

definition bkey_pack_pos :: "u64 list \<Rightarrow> bpos \<Rightarrow> bkey_format \<Rightarrow> (bool \<times> u64 list) option" where
  "bkey_pack_pos out p f =
     map_option (\<lambda>(ret, out). (ret = BKEY_PACK_POS_EXACT, out)) (bch2_bkey_pack_pos_lossy out p f)"

section \<open>A word array as one number\<close>

primrec wnum :: "u64 list \<Rightarrow> nat" where
  "wnum [] = 0"
| "wnum (w # ws) = unat w + 2 ^ 64 * wnum ws"

lemma unat64 [simp]: "unat (w :: u64) < 2 ^ 64" "unat w < 18446744073709551616"
  using unat_less [of w] by simp_all

lemma wnum_append: "wnum (xs @ ys) = wnum xs + 2 ^ (64 * length xs) * wnum ys"
  by (induction xs) (simp_all add: algebra_simps power_add)

lemma wnum_less: "wnum ws < 2 ^ (64 * length ws)"
proof (induction ws)
  case (Cons w ws)
  then have "2 ^ 64 * Suc (wnum ws) \<le> 2 ^ 64 * 2 ^ (64 * length ws)" by (intro mult_le_mono2) simp
  moreover have "unat w < 2 ^ 64" by simp
  ultimately have "unat w + 2 ^ 64 * wnum ws < 2 ^ 64 * 2 ^ (64 * length ws)"
    unfolding mult_Suc_right by linarith
  then show ?case by (simp add: power_add)
qed simp

lemma wnum_drop: "p \<le> length ws \<Longrightarrow> wnum (drop p ws) = wnum ws div 2 ^ (64 * p)"
  using wnum_append [of "take p ws" "drop p ws"] wnum_less [of "take p ws"]
  by simp

lemma bit_wnum: "bit (wnum ws) j \<longleftrightarrow> j div 64 < length ws \<and> bit (ws ! (j div 64)) (j mod 64)"
proof (induction ws arbitrary: j)
  case (Cons w ws)
  show ?case
  proof (cases "j < 64")
    case True
    have "bit (unat w + 2 ^ 64 * wnum ws) j \<longleftrightarrow> bit (take_bit 64 (unat w + 2 ^ 64 * wnum ws)) j"
      using True by (simp add: bit_take_bit_iff)
    also have "take_bit 64 (unat w + 2 ^ 64 * wnum ws) = unat w"
      by (simp only: take_bit_eq_mod mod_mult_self2) (simp add: mod_less)
    finally show ?thesis using True by (simp add: bit_unsigned_iff)
  next
    case False
    then obtain i where j: "j = 64 + i" using le_Suc_ex linorder_not_less by blast
    have "bit (unat w + 2 ^ 64 * wnum ws) j \<longleftrightarrow> bit ((unat w + 2 ^ 64 * wnum ws) div 2 ^ 64) i"
      unfolding j by (simp only: bit_iff_odd power_add div_mult2_eq)
    also have "(unat w + 2 ^ 64 * wnum ws) div 2 ^ 64 = wnum ws"
      by (simp add: div_mult_self2)
    moreover have "(64 + i) div 64 = Suc (i div 64)" by simp
    ultimately show ?thesis using Cons.IH [of i] by (simp add: j)
  qed
qed simp

section \<open>Reading one field\<close>

text \<open>
  The reader after \<open>c\<close> bits. A field of \<open>b\<close> bits is the next \<open>b\<close> bits, from the top, of the
  key taken as one number.
\<close>

definition us_at :: "u64 list \<Rightarrow> nat \<Rightarrow> nat \<Rightarrow> unpack_state" where
  "us_at k u c = \<lparr>us_bits = 64 - c mod 64, us_w = push_bit (c mod 64) (k ! (u - 1 - c div 64)),
     us_p = u - 1 - c div 64\<rparr>"

definition key_bits_at :: "u64 list \<Rightarrow> nat \<Rightarrow> nat \<Rightarrow> nat \<Rightarrow> nat" where
  "key_bits_at k u c b = wnum (take u k) div 2 ^ (64 * u - c - b) mod 2 ^ b"

lemma bit_key_bits_at:
  "bit (key_bits_at k u c b) i \<longleftrightarrow>
     i < b \<and> (64 * u - c - b + i) div 64 < length (take u k) \<and>
     bit (k ! ((64 * u - c - b + i) div 64)) ((64 * u - c - b + i) mod 64)"
  unfolding key_bits_at_def
  by (auto simp: take_bit_eq_mod [symmetric] drop_bit_eq_div [symmetric] bit_take_bit_iff
      bit_drop_bit_eq bit_wnum)

lemma unpack_state_init_at:
  assumes "0 < key_u64s f" "key_u64s f \<le> length k"
  shows "unpack_state_init f k = Some (us_at k (key_u64s f) 0)"
  using assms by (simp add: unpack_state_init_def high_word_def load_word_def us_at_def)

lemma bit_of_nat_word_iff: "bit (word_of_nat n :: 'a::len word) i \<longleftrightarrow> i < LENGTH('a) \<and> bit n i"
  using bit_word_of_int_iff [where ?'a = 'a, of "int n" i]
  by (simp add: bit_of_nat_iff_bit)

lemma divmod64:
  "x < 64 \<Longrightarrow> (64 * p + x) div 64 = p" "x < 64 \<Longrightarrow> (64 * p + x) mod 64 = x" for x p :: nat
  by simp_all

text \<open>A field split over two words: \<open>x\<close> bits from the upper word, \<open>b'\<close> from the lower one.\<close>

lemma get_inc_field_refill:
  assumes x: "b' + d + x = 64" "0 < x" and u: "u \<le> length k" "u = Suc (Suc (p + q))"
  shows "drop_bit d (push_bit (b' + d) (k ! Suc p)) OR drop_bit (d + x) (k ! p)
    = word_of_nat (key_bits_at k u (64 * q + (b' + d)) (b' + x))"
proof (rule bit_word_eqI)
  fix i assume i: "i < LENGTH(64)"
  have s: "64 * u - (64 * q + (b' + d)) - (b' + x) = 64 * p + (d + x)" using x u by simp
  show "bit (drop_bit d (push_bit (b' + d) (k ! Suc p)) OR drop_bit (d + x) (k ! p)) i
    = bit (word_of_nat (key_bits_at k u (64 * q + (b' + d)) (b' + x)) :: u64) i"
  proof (cases "i < b'")
    case True
    then have lt: "d + x + i < 64" using x by simp
    have "(64 * p + (d + x) + i) div 64 = p" "(64 * p + (d + x) + i) mod 64 = d + x + i"
      using divmod64 [OF lt, of p] by (simp_all only: add.assoc)
    then show ?thesis
      using True i x u unfolding bit_of_nat_word_iff bit_key_bits_at s
      by (simp add: bit_or_iff bit_drop_bit_eq bit_push_bit_iff)
  next
    case F: False
    then have hi: "\<not> bit (k ! p) (d + x + i)" using x bit_imp_le_length by fastforce
    show ?thesis
    proof (cases "i < b' + x")
      case True
      obtain j where j: "i = b' + j" using F le_Suc_ex linorder_not_less by blast
      have lt: "j < 64" using i j by simp
      have e: "64 * p + (d + x) + i = 64 * Suc p + j" using x j by simp
      have m: "(64 * p + (d + x) + i) div 64 = Suc p" "(64 * p + (d + x) + i) mod 64 = j"
        unfolding e using divmod64 [OF lt, of "Suc p"] by blast+
      show ?thesis
        using True i x u hi unfolding bit_of_nat_word_iff bit_key_bits_at s m
        by (simp add: bit_or_iff bit_drop_bit_eq bit_push_bit_iff j add.commute)
    next
      case False
      then show ?thesis
        using x i hi unfolding bit_of_nat_word_iff bit_key_bits_at
        by (simp add: bit_or_iff bit_drop_bit_eq bit_push_bit_iff)
    qed
  qed
qed

lemma get_inc_field_inside:
  assumes x: "r + b + x = 64" "0 < x" and u: "u \<le> length k" "u = Suc (p + q)"
  shows "drop_bit (r + x) (push_bit r (k ! p)) = word_of_nat (key_bits_at k u (64 * q + r) b)"
proof (rule bit_word_eqI)
  fix i assume i: "i < LENGTH(64)"
  have s: "64 * u - (64 * q + r) - b = 64 * p + x" using x u by simp
  show "bit (drop_bit (r + x) (push_bit r (k ! p))) i
    = bit (word_of_nat (key_bits_at k u (64 * q + r) b) :: u64) i"
  proof (cases "i < b")
    case True
    then have lt: "x + i < 64" using x by simp
    have m: "(64 * p + x + i) div 64 = p" "(64 * p + x + i) mod 64 = x + i"
      using divmod64 [OF lt, of p] by (simp_all only: add.assoc)
    show ?thesis
      using True i x u unfolding bit_of_nat_word_iff bit_key_bits_at s m
      by (simp add: bit_drop_bit_eq bit_push_bit_iff)
  next
    case False
    then show ?thesis
      using x i unfolding bit_of_nat_word_iff bit_key_bits_at
      by (simp add: bit_drop_bit_eq bit_push_bit_iff)
  qed
qed

lemma drop_bit_1_drop: "x < 64 \<Longrightarrow> drop_bit (63 - x) (drop_bit 1 w) = drop_bit (64 - x) w"
proof -
  assume "x < 64"
  then have "63 - x + 1 = 64 - x" by simp
  then show ?thesis by (simp only: drop_bit_drop_bit)
qed

lemma get_inc_field_at:
  assumes b: "b = bits_per_field f ! i" "b \<le> 64" and c: "c + b < 64 * u" and u: "u \<le> length k"
  shows "get_inc_field f k (us_at k u c) i =
    Some (word_of_nat (key_bits_at k u c b) + field_offset f ! i, us_at k u (c + b))"
proof -
  define r q where "r = c mod 64" and "q = c div 64"
  have c_eq: "c = 64 * q + r" and r: "r < 64" by (simp_all add: r_def q_def)
  have q: "q < u" using c c_eq by simp
  define p where "p = u - 1 - q"
  have up: "u = Suc (p + q)" using q by (simp add: p_def)
  have st: "us_at k u c = \<lparr>us_bits = 64 - r, us_w = push_bit r (k ! p), us_p = p\<rparr>"
    by (simp add: us_at_def r_def p_def q_def)
  show ?thesis
  proof (cases "64 - r \<le> b")
    case True
    define b' where "b' = b - (64 - r)"
    have b': "b = b' + (64 - r)" "b' < 64" using True b(2) r by (auto simp: b'_def)
    have cb: "c + b = 64 * Suc q + b'" using b' r by (simp add: c_eq)
    then have "64 * Suc q < 64 * u" using c by linarith
    then obtain p' where p': "p = Suc p'" using up by (cases p) auto
    have at: "us_at k u (c + b) = \<lparr>us_bits = 64 - b', us_w = push_bit b' (k ! p'), us_p = p'\<rparr>"
    proof -
      have "(c + b) div 64 = Suc q" "(c + b) mod 64 = b'" unfolding cb
        using divmod64 [OF b'(2)] by blast+
      then show ?thesis using up p' by (simp add: us_at_def)
    qed
    define d x where "d = r - b'" and "x = 64 - r"
    have rx: "r = b' + d" "b' + d + x = 64" "0 < x" "b = b' + x"
      using r b' b(2) by (simp_all add: d_def x_def)
    have "drop_bit d (push_bit (b' + d) (k ! Suc p')) OR drop_bit (d + x) (k ! p')
        = word_of_nat (key_bits_at k u c b)"
      unfolding c_eq rx(1,4) using up p' by (intro get_inc_field_refill rx u) simp_all
    moreover have "64 - b = d" "64 - b' = d + x" using rx by simp_all
    ultimately have v: "drop_bit (64 - b) (push_bit r (k ! Suc p')) OR
        drop_bit (63 - b') (drop_bit 1 (k ! p')) = word_of_nat (key_bits_at k u c b)"
      by (simp only: rx(1) drop_bit_1_drop [OF b'(2)])
    show ?thesis
      using True u up v unfolding st at p'
      by (simp add: get_inc_field_def b(1) [symmetric] next_word_def load_word_def Let_def
          b'_def [symmetric] del: drop_bit_drop_bit)
  next
    case False
    have at: "us_at k u (c + b) =
        \<lparr>us_bits = 64 - (r + b), us_w = push_bit (r + b) (k ! p), us_p = p\<rparr>"
    proof -
      have cb: "c + b = 64 * q + (r + b)" and rb: "r + b < 64" using False by (simp_all add: c_eq)
      have "(c + b) div 64 = q" "(c + b) mod 64 = r + b" unfolding cb
        using divmod64 [OF rb] by blast+
      then show ?thesis using up by (simp add: us_at_def)
    qed
    define x where "x = 64 - (r + b)"
    have x: "r + b + x = 64" "0 < x" using False by (simp_all add: x_def)
    then have "64 - b = r + x" "b < 64" by simp_all
    then have v: "drop_bit (63 - b) (drop_bit 1 (push_bit r (k ! p))) = word_of_nat (key_bits_at k u c b)"
      unfolding c_eq using get_inc_field_inside [OF x u up] by (simp only: drop_bit_1_drop)
    show ?thesis
      using False u up v unfolding st at
      by (simp add: get_inc_field_def b(1) [symmetric] Let_def del: drop_bit_drop_bit
          add: push_bit_push_bit add.commute)
  qed
qed

section \<open>Writing one field\<close>

text \<open>
  The writer after \<open>c\<close> bits that make up the number \<open>V\<close>: the words already stored above the
  current one and the current word hold \<open>V\<close>, shifted by the bits left in the current word.
\<close>

definition pack_inv :: "nat \<Rightarrow> nat \<Rightarrow> nat \<Rightarrow> pack_state \<times> u64 list \<Rightarrow> bool" where
  "pack_inv u V c = (\<lambda>(st, k).
     ps_bits st \<le> 64 \<and> ps_p st < u \<and> u \<le> length k \<and> c + ps_bits st = 64 * (u - ps_p st) \<and>
     wnum (drop (Suc (ps_p st)) (take u k)) * 2 ^ 64 + unat (ps_w st) = V * 2 ^ ps_bits st)"

lemma pack_state_init_inv:
  assumes "0 < key_u64s f" "key_u64s f \<le> length k"
  shows "\<exists>st. pack_state_init f = Some st \<and> pack_inv (key_u64s f) 0 0 (st, k)"
  using assms by (simp add: pack_state_init_def high_word_def pack_inv_def)

lemma pack_inv_low_zero:
  assumes "pack_inv u V c (st, k)"
  shows "unat (ps_w st) mod 2 ^ ps_bits st = 0"
proof -
  let ?b = "ps_bits st" and ?H = "wnum (drop (Suc (ps_p st)) (take u k))"
  have b: "?b \<le> 64" and e: "?H * 2 ^ 64 + unat (ps_w st) = V * 2 ^ ?b"
    using assms by (simp_all add: pack_inv_def)
  have "(2::nat) ^ ?b dvd 2 ^ 64" using b by (rule le_imp_power_dvd)
  then have "2 ^ ?b dvd ?H * 2 ^ 64" by (rule dvd_mult)
  moreover have "2 ^ ?b dvd ?H * 2 ^ 64 + unat (ps_w st)" by (simp only: e dvd_triv_right)
  ultimately have "2 ^ ?b dvd unat (ps_w st)" by (meson dvd_add_right_iff)
  then show ?thesis by simp
qed

text \<open>The field fits into the bits left.\<close>

lemma set_inc_field_raw_inside:
  assumes inv: "pack_inv u V c (st, k)" and b: "b = bits_per_field f ! i" "0 < b" "b \<le> ps_bits st"
    and v: "unat v < 2 ^ b"
  shows "\<exists>st'. set_inc_field_raw f i v (st, k) = Some (st', k) \<and>
    pack_inv u (V * 2 ^ b + unat v) (c + b) (st', k)"
proof -
  define n where "n = ps_bits st - b"
  have n: "ps_bits st = n + b" "n + b \<le> 64" using b inv by (simp_all add: n_def pack_inv_def)
  have "unat v * 2 ^ n < 2 ^ b * 2 ^ n" using v by simp
  also have "\<dots> \<le> 2 ^ 64" using n(2) power_increasing [of "n + b" 64 "2::nat"] by (simp add: power_add mult.commute)
  finally have "unat v * 2 ^ n < 2 ^ LENGTH(64)" by simp
  then have pv: "unat (push_bit n v) = unat v * 2 ^ n" by (rule unat_push_bit_less)
  have "unat (push_bit n v) < 2 ^ (n + b)" using v by (simp add: pv power_add)
  then have w: "unat (ps_w st OR push_bit n v) = unat (ps_w st) + unat v * 2 ^ n"
    using or_low_high(2) [of "ps_w st" "n + b" "push_bit n v"] pack_inv_low_zero [OF inv]
    by (simp add: n(1) pv)
  have e: "wnum (drop (Suc (ps_p st)) (take u k)) * 2 ^ 64 + unat (ps_w st) = V * (2 ^ n * 2 ^ b)"
    using inv by (simp add: pack_inv_def n(1) power_add)
  have "pack_inv u (V * 2 ^ b + unat v) (c + b)
      (st\<lparr>ps_bits := n, ps_w := ps_w st OR push_bit n v\<rparr>, k)"
    using inv n e by (simp add: pack_inv_def w algebra_simps)
  then show ?thesis
    using b by (simp add: set_inc_field_raw_def Let_def n_def)
qed

text \<open>The field is split: the current word is stored and the rest starts the next word.\<close>

lemma set_inc_field_raw_split:
  assumes inv: "pack_inv u V c (st, k)" and b: "b = bits_per_field f ! i" "ps_bits st < b" "b \<le> 64"
    and c: "c + b \<le> 64 * u" and v: "unat v < 2 ^ b"
  shows "\<exists>st' w. set_inc_field_raw f i v (st, k) = Some (st', k[ps_p st := w]) \<and>
    pack_inv u (V * 2 ^ b + unat v) (c + b) (st', k[ps_p st := w])"
proof -
  define n r where "n = ps_bits st" and "r = b - n"
  have r: "b = n + r" "0 < r" "r \<le> 64" using b by (simp_all add: n_def r_def)
  have p: "ps_p st < u" "u \<le> length k" "c + n = 64 * (u - ps_p st)"
    using inv by (simp_all add: pack_inv_def n_def)
  have "64 * (u - ps_p st) < 64 * u" using p(3) c r by linarith
  then obtain p' where p': "ps_p st = Suc p'" by (cases "ps_p st") simp_all
  define w where "w = ps_w st OR drop_bit r v"
  have dv: "drop_bit (r - 1) (drop_bit 1 v) = drop_bit r v" using r(2) by simp
  have "unat (drop_bit r v) < 2 ^ n"
    using v by (simp add: unat_drop_bit r(1) power_add div_less_iff_less_mult)
  then have uw: "unat w = unat (ps_w st) + unat v div 2 ^ r"
    using or_low_high(2) [of "ps_w st" n "drop_bit r v"] pack_inv_low_zero [OF inv]
    by (simp add: w_def n_def unat_drop_bit)
  define H where "H = wnum (drop (Suc (ps_p st)) (take u k))"
  have e: "H * 2 ^ 64 + unat (ps_w st) = V * 2 ^ n" using inv by (simp add: pack_inv_def H_def n_def)
  have "drop (Suc p') (take u (k[Suc p' := w])) = w # drop (Suc (Suc p')) (take u k)"
    using p p' by (simp add: take_update_swap Cons_nth_drop_Suc [symmetric])
  then have H': "wnum (drop (Suc p') (take u (k[Suc p' := w]))) = V * 2 ^ n + unat v div 2 ^ r"
    using e p' by (simp add: H_def uw mult.commute)
  have "unat (push_bit (64 - r) v) = unat v * 2 ^ (64 - r) mod 2 ^ 64"
    unfolding unsigned_push_bit_eq by (simp add: take_bit_eq_mod push_bit_eq_mult)
  also have p64: "(2::nat) ^ 64 = 2 ^ r * 2 ^ (64 - r)" using r(3) power_add [of "2::nat" r "64 - r"] by simp
  finally have lo: "unat (push_bit (64 - r) v) = unat v mod 2 ^ r * 2 ^ (64 - r)"
    by (simp only: mod_mult_mult2)
  have "(V * 2 ^ n + unat v div 2 ^ r) * 2 ^ 64 + unat v mod 2 ^ r * 2 ^ (64 - r) =
      (V * 2 ^ b + unat v) * 2 ^ (64 - r)"
  proof -
    have "(V * 2 ^ n + unat v div 2 ^ r) * (2 ^ r * 2 ^ (64 - r)) + unat v mod 2 ^ r * 2 ^ (64 - r) =
        (V * (2 ^ n * 2 ^ r) + (unat v div 2 ^ r * 2 ^ r + unat v mod 2 ^ r)) * 2 ^ (64 - r)"
      by (simp only: algebra_simps)
    then show ?thesis unfolding p64 [symmetric] by (simp only: div_mult_mod_eq r(1) power_add)
  qed
  then have "pack_inv u (V * 2 ^ b + unat v) (c + b)
      (\<lparr>ps_bits = 64 - r, ps_w = push_bit (64 - r) v, ps_p = p'\<rparr>, k[Suc p' := w])"
    using p p' r H' lo by (simp add: pack_inv_def)
  moreover have "set_inc_field_raw f i v (st, k) =
      Some (\<lparr>ps_bits = 64 - r, ps_w = push_bit (64 - r) v, ps_p = p'\<rparr>, k[Suc p' := w])"
  proof -
    have br: "b - ps_bits st = r" by (simp only: r_def n_def)
    have "b \<noteq> 0" using r(1,2) by simp
    with br show ?thesis
      using b(2) r(2) p(1,2) p' unfolding set_inc_field_raw_def b(1) [symmetric]
      by (simp add: Let_def store_word_def next_word_def w_def)
  qed
  ultimately show ?thesis unfolding p' by blast
qed

lemma set_inc_field_raw_inv:
  assumes inv: "pack_inv u V c (st, k)" and b: "b = bits_per_field f ! i" "b \<le> 64"
    and c: "c + b \<le> 64 * u" and v: "unat v < 2 ^ b"
  shows "\<exists>st' k'. set_inc_field_raw f i v (st, k) = Some (st', k') \<and>
    pack_inv u (V * 2 ^ b + unat v) (c + b) (st', k') \<and> length k' = length k \<and> drop u k' = drop u k"
proof -
  consider "b = 0" | "0 < b" "b \<le> ps_bits st" | "ps_bits st < b" by linarith
  then show ?thesis
  proof cases
    case 1
    then show ?thesis using inv v b(1) by (simp add: set_inc_field_raw_def)
  next
    case 2
    then show ?thesis using set_inc_field_raw_inside [OF inv b(1) 2 v] by blast
  next
    case 3
    have "ps_p st < u" using inv by (simp add: pack_inv_def)
    then show ?thesis using set_inc_field_raw_split [OF inv b(1) 3 b(2) c v] by fastforce
  qed
qed

text \<open>Storing the last word leaves \<open>V\<close> in the top \<open>c\<close> bits of the key.\<close>

lemma pack_state_finish_top:
  assumes inv: "pack_inv u V c (st, k)"
  shows "\<exists>k'. pack_state_finish st k = Some k' \<and> length k' = length k \<and> drop u k' = drop u k \<and>
    wnum (take u k') div 2 ^ (64 * u - c) = V"
proof -
  let ?p = "ps_p st"
  have p: "?p < u" "u \<le> length k" "c + ps_bits st = 64 * (u - ?p)"
    and e: "wnum (drop (Suc ?p) (take u k)) * 2 ^ 64 + unat (ps_w st) = V * 2 ^ ps_bits st"
    using inv by (simp_all add: pack_inv_def)
  define k' where "k' = k[?p := ps_w st]"
  have "drop ?p (take u k') = ps_w st # drop (Suc ?p) (take u k)"
    using p by (simp add: k'_def take_update_swap Cons_nth_drop_Suc [symmetric])
  then have "wnum (take u k') div 2 ^ (64 * ?p) = V * 2 ^ ps_bits st"
    using p e wnum_drop [of ?p "take u k'"] by (simp add: k'_def mult.commute)
  moreover have "64 * u - c = 64 * ?p + ps_bits st" using p by simp
  ultimately have "wnum (take u k') div 2 ^ (64 * u - c) = V"
    by (simp add: power_add div_mult2_eq)
  then show ?thesis using p by (intro exI [of _ k']) (simp add: k'_def pack_state_finish_def store_word_def)
qed

lemma set_inc_field_inv:
  assumes inv: "pack_inv u V c (st, k)" and b: "b = bits_per_field f ! i" "b \<le> 64"
    and c: "c + b \<le> 64 * u" and off: "off = field_offset f ! i"
  shows "if off \<le> v \<and> unat (v - off) < 2 ^ b
    then \<exists>st' k'. set_inc_field f i v (st, k) = Some (True, st', k') \<and>
      pack_inv u (V * 2 ^ b + unat (v - off)) (c + b) (st', k') \<and> length k' = length k \<and>
      drop u k' = drop u k
    else set_inc_field f i v (st, k) = Some (False, st, k)"
proof (cases "off \<le> v \<and> unat (v - off) < 2 ^ b")
  case True
  then have "\<not> v < off" "\<not> b < fls64 (v - off)" by (auto simp: fls64_le_iff linorder_not_less)
  then have "set_inc_field f i v (st, k) = map_option (Pair True) (set_inc_field_raw f i (v - off) (st, k))"
    by (simp add: set_inc_field_def Let_def off [symmetric] b(1) [symmetric])
  then show ?thesis
    using set_inc_field_raw_inv [OF inv b c, of "v - off"] True by fastforce
next
  case False
  then have "v < off \<or> \<not> fls64 (v - off) \<le> b" by (auto simp: fls64_le_iff)
  with False show ?thesis
    by (auto simp: set_inc_field_def Let_def off [symmetric] b(1) [symmetric])
qed

end
