(* ===== verification/Bkey_Codec.thy ===== *)
theory Bkey_Codec
  imports Bkey_Pack
begin

text \<open>
  Packing and unpacking whole keys: what \<^verbatim>\<open>bch2_bkey_pack_key\<close>, \<^verbatim>\<open>bch2_bkey_transform\<close> and
  \<^verbatim>\<open>bch2_bkey_pack_pos_lossy\<close> of \<^verbatim>\<open>libbcachefs/bkey.c\<close> leave in the words of a packed key, and
  what \<^verbatim>\<open>__bch2_bkey_unpack_key\<close> and \<^verbatim>\<open>__bkey_unpack_pos\<close> read back. The lemmas work on the
  number formed by the key words; its leading bits are the fields in the mixed radix the
  format gives.
\<close>

section \<open>The header\<close>

lemma bit_set_bits_at:
  "bit (set_bits_at off n v w) i \<longleftrightarrow>
     i < 64 \<and> (if off \<le> i \<and> i < off + n then bit v (i - off) else bit w i)"
  by (auto simp: set_bits_at_def bit_or_iff bit_and_iff bit_not_iff bit_push_bit_iff bit_mask_iff
      dest: bit_imp_le_length)

lemmas bp_header_defs = bp_u64s_def bp_format_def bp_needs_whiteout_def bp_type_def
  set_bp_u64s_def set_bp_format_def set_bp_needs_whiteout_def set_bp_type_def

lemma bp_set_get:
  assumes "k \<noteq> []"
  shows "bp_u64s (set_bp_type t (set_bp_needs_whiteout n (set_bp_format m (set_bp_u64s u k)))) = u"
    and "bp_format (set_bp_type t (set_bp_needs_whiteout n (set_bp_format m (set_bp_u64s u k)))) = m"
    and "bp_needs_whiteout (set_bp_type t (set_bp_needs_whiteout n (set_bp_format m (set_bp_u64s u k)))) = n"
    and "bp_type (set_bp_type t (set_bp_needs_whiteout n (set_bp_format m (set_bp_u64s u k)))) = t"
  using assms
  by (auto simp: bp_header_defs bit_set_bits_at bit_simps intro!: bit_word_eqI)

text \<open>Two word arrays that differ at most in the 24 header bits.\<close>

definition same_key :: "u64 list \<Rightarrow> u64 list \<Rightarrow> bool" where
  "same_key k k' \<longleftrightarrow> length k = length k' \<and> drop 1 k = drop 1 k' \<and>
     drop_bit 24 (k ! 0) = drop_bit 24 (k' ! 0)"

lemma same_key_refl [simp]: "same_key k k"
  by (simp add: same_key_def)

lemma same_key_trans: "same_key a b \<Longrightarrow> same_key b c \<Longrightarrow> same_key a c"
  by (simp add: same_key_def)

lemma same_key_set:
  assumes "off + n \<le> 24"
  shows "same_key (k[0 := set_bits_at off n v (k ! 0)]) k"
proof (cases k)
  case (Cons w ws)
  have "drop_bit 24 (set_bits_at off n v w) = drop_bit 24 w"
    using assms by (intro bit_word_eqI) (auto simp: bit_drop_bit_eq bit_set_bits_at dest: bit_imp_le_length)
  then show ?thesis by (simp add: same_key_def Cons)
qed simp

lemma same_key_setters:
  "same_key (set_bp_u64s u k) k" "same_key (set_bp_format m k) k"
  "same_key (set_bp_needs_whiteout n k) k" "same_key (set_bp_type t k) k"
  by (simp_all only: bp_header_defs) (rule same_key_set, simp)+

lemma same_key_header:
  "same_key (set_bp_type t (set_bp_needs_whiteout n (set_bp_format m (set_bp_u64s u k)))) k"
  "same_key (set_bp_type t (set_bp_needs_whiteout n (set_bp_u64s u k))) k"
  "same_key (set_bp_type t (set_bp_format m (set_bp_u64s u k))) k"
  using same_key_trans [OF same_key_setters(4) same_key_trans [OF same_key_setters(3)]]
    same_key_trans [OF same_key_setters(2) same_key_setters(1)] same_key_setters(1)
    same_key_trans [OF same_key_setters(4) same_key_trans [OF same_key_setters(2) same_key_setters(1)]]
  by simp_all

lemma same_key_wnum:
  assumes "same_key k k'" "24 \<le> n"
  shows "wnum (take u k) div 2 ^ n = wnum (take u k') div 2 ^ n"
proof -
  have "wnum (take u k) div 2 ^ 24 = wnum (take u k') div 2 ^ 24"
  proof (cases "u = 0 \<or> k = []")
    case False
    then obtain w ws w' ws' v where k: "k = w # ws" "k' = w' # ws'" "u = Suc v"
      using assms(1) by (cases k; cases k'; cases u) (auto simp: same_key_def)
    have "unat w div 2 ^ 24 = unat w' div 2 ^ 24"
      using assms(1) unat_drop_bit [of 24 w] unat_drop_bit [of 24 w'] by (simp add: same_key_def k)
    moreover have "(a + 2 ^ 64 * b) div 2 ^ 24 = a div 2 ^ 24 + 2 ^ 40 * b" for a b :: nat
    proof -
      have "a + 2 ^ 64 * b = a + 2 ^ 24 * (2 ^ 40 * b)" by simp
      then show ?thesis by (simp only: div_mult_self2) simp
    qed
    ultimately show ?thesis using assms(1) by (simp add: k same_key_def)
  qed (use assms in \<open>auto simp: same_key_def\<close>)
  moreover have "x div 2 ^ n = x div 2 ^ 24 div 2 ^ (n - 24)" for x :: nat
    using assms(2) power_add [of "2::nat" 24 "n - 24"] by (simp only: div_mult2_eq [symmetric]) simp
  ultimately show ?thesis by simp
qed

section \<open>Sequences of fields\<close>

fun radix :: "nat \<Rightarrow> nat list \<Rightarrow> nat list \<Rightarrow> nat" where
  "radix V (b # bs) (d # ds) = radix (V * 2 ^ b + d) bs ds"
| "radix V _ _ = V"

abbreviation fbits :: "bkey_format \<Rightarrow> nat list \<Rightarrow> nat list" where
  "fbits f js \<equiv> map (\<lambda>i. bits_per_field f ! i) js"

definition fits :: "bkey_format \<Rightarrow> nat \<Rightarrow> u64 \<Rightarrow> bool" where
  "fits f i v \<longleftrightarrow> field_offset f ! i \<le> v \<and>
     unat (v - field_offset f ! i) < 2 ^ (bits_per_field f ! i)"

definition raw_field :: "bkey_format \<Rightarrow> nat \<Rightarrow> u64 \<Rightarrow> nat" where
  "raw_field f i v = unat (v - field_offset f ! i)"

lemma radix_div:
  "list_all2 (\<lambda>b d. d < 2 ^ b) bs ds \<Longrightarrow> radix V bs ds div 2 ^ sum_list bs = V"
proof (induction bs ds arbitrary: V rule: list_all2_induct)
  case (Cons b bs d ds)
  have "radix (V * 2 ^ b + d) bs ds div 2 ^ (sum_list bs + b) =
      radix (V * 2 ^ b + d) bs ds div 2 ^ sum_list bs div 2 ^ b"
    by (simp only: power_add div_mult2_eq)
  with Cons show ?case by (simp add: add.commute)
qed simp

lemma set_inc_fields_inv:
  assumes "pack_inv u V c s" "\<forall>i \<in> set js. bits_per_field f ! i \<le> 64" "length vs = length js"
    and "c + sum_list (fbits f js) \<le> 64 * u"
  shows "if list_all2 (fits f) js vs
    then \<exists>st' k'. set_inc_fields f (zip js vs) s = Some (True, st', k') \<and>
      pack_inv u (radix V (fbits f js) (map2 (raw_field f) js vs)) (c + sum_list (fbits f js)) (st', k') \<and>
      length k' = length (snd s) \<and> drop u k' = drop u (snd s)
    else \<exists>s'. set_inc_fields f (zip js vs) s = Some (False, s')"
  using assms
proof (induction js arbitrary: vs V c s)
  case Nil
  then show ?case by (cases s) simp
next
  case (Cons i js)
  obtain v vs' where vs: "vs = v # vs'" using Cons.prems(3) by (cases vs) simp_all
  obtain st k where s: "s = (st, k)" by (cases s)
  have one: "if fits f i v
    then \<exists>st' k'. set_inc_field f i v (st, k) = Some (True, st', k') \<and>
      pack_inv u (V * 2 ^ (bits_per_field f ! i) + raw_field f i v) (c + bits_per_field f ! i) (st', k') \<and>
      length k' = length k \<and> drop u k' = drop u k
    else set_inc_field f i v (st, k) = Some (False, st, k)"
    unfolding fits_def raw_field_def
    by (rule set_inc_field_inv) (use Cons.prems in \<open>simp_all add: s\<close>)
  show ?case
  proof (cases "fits f i v")
    case True
    with one obtain st' k' where 1: "set_inc_field f i v (st, k) = Some (True, st', k')"
      "pack_inv u (V * 2 ^ (bits_per_field f ! i) + raw_field f i v) (c + bits_per_field f ! i) (st', k')"
      "length k' = length k" "drop u k' = drop u k" by auto
    from Cons.IH [OF 1(2), of vs'] Cons.prems 1 True show ?thesis
      by (simp add: vs s add.assoc split: if_splits)
  qed (use one in \<open>simp add: vs s\<close>)
qed

text \<open>The number made of the top \<open>c\<close> bits of the key words.\<close>

definition top_num :: "u64 list \<Rightarrow> nat \<Rightarrow> nat \<Rightarrow> nat" where
  "top_num k u c = wnum (take u k) div 2 ^ (64 * u - c)"

lemma top_num_div:
  assumes "c + b \<le> 64 * u"
  shows "top_num k u (c + b) div 2 ^ b = top_num k u c"
proof -
  have "64 * u - c = 64 * u - (c + b) + b" using assms by simp
  then show ?thesis by (simp add: top_num_def div_mult2_eq power_add)
qed

lemma key_bits_at_top: "key_bits_at k u c b = top_num k u (c + b) mod 2 ^ b"
  by (simp add: key_bits_at_def top_num_def)

lemma top_num_step:
  assumes "c + b \<le> 64 * u"
  shows "top_num k u (c + b) = top_num k u c * 2 ^ b + key_bits_at k u c b"
  using div_mult_mod_eq [of "top_num k u (c + b)" "2 ^ b"]
  by (simp add: top_num_div [OF assms] key_bits_at_top)

lemma top_num_0: "top_num k u 0 = 0"
proof -
  have "wnum (take u k) < 2 ^ (64 * length (take u k))" by (rule wnum_less)
  also have "\<dots> \<le> 2 ^ (64 * u)" by (rule power_increasing) simp_all
  finally show ?thesis by (simp add: top_num_def)
qed

fun raw_fields :: "bkey_format \<Rightarrow> u64 list \<Rightarrow> nat \<Rightarrow> nat list \<Rightarrow> nat list" where
  "raw_fields f k c [] = []"
| "raw_fields f k c (i # js) =
     key_bits_at k (key_u64s f) c (bits_per_field f ! i) #
     raw_fields f k (c + bits_per_field f ! i) js"

lemma length_raw_fields [simp]: "length (raw_fields f k c js) = length js"
  by (induction js arbitrary: c) simp_all

lemma key_bits_at_less: "key_bits_at k u c b < 2 ^ b"
  by (simp add: key_bits_at_def)

lemma raw_fields_less: "list_all2 (\<lambda>b d. d < 2 ^ b) (fbits f js) (raw_fields f k c js)"
  by (induction js arbitrary: c) (simp_all add: key_bits_at_less)

definition add_offsets :: "bkey_format \<Rightarrow> nat list \<Rightarrow> nat list \<Rightarrow> u64 list" where
  "add_offsets f js ds = map2 (\<lambda>i d. word_of_nat d + field_offset f ! i) js ds"

lemma get_inc_fields_at:
  assumes "\<forall>i \<in> set js. bits_per_field f ! i \<le> 64"
    and "c + sum_list (fbits f js) < 64 * key_u64s f" and "key_u64s f \<le> length k"
  shows "get_inc_fields f k (us_at k (key_u64s f) c) js = Some (add_offsets f js (raw_fields f k c js))"
  using assms
  by (induction js arbitrary: c) (simp_all add: get_inc_field_at add_offsets_def)

text \<open>The fields of a key are the digits of its top bits, and conversely.\<close>

lemma radix_raw_fields:
  assumes "c + sum_list (fbits f js) \<le> 64 * key_u64s f"
  shows "radix (top_num k (key_u64s f) c) (fbits f js) (raw_fields f k c js)
    = top_num k (key_u64s f) (c + sum_list (fbits f js))"
  using assms
  by (induction js arbitrary: c) (simp_all add: top_num_step [symmetric] add.assoc)

lemma radix_inj:
  assumes "list_all2 (\<lambda>b d. d < 2 ^ b) bs ds" "list_all2 (\<lambda>b d. d < 2 ^ b) bs es"
    and "radix V bs ds = radix V' bs es"
  shows "V = V' \<and> ds = es"
  using assms
proof (induction bs ds arbitrary: es V V' rule: list_all2_induct)
  case (Cons b bs d ds)
  then obtain e es' where es: "es = e # es'" "e < 2 ^ b" "list_all2 (\<lambda>b d. d < 2 ^ b) bs es'"
    by (auto simp: list_all2_Cons1)
  have "V * 2 ^ b + d = V' * 2 ^ b + e \<and> ds = es'"
    using Cons.prems(2) es by (intro Cons.IH) simp_all
  then show ?case using radix_eq_iff [of d "2 ^ b" e V V'] Cons.hyps(1) es(1,2) by simp
qed simp

lemma raw_fields_unique:
  assumes "list_all2 (\<lambda>b d. d < 2 ^ b) (fbits f js) ds"
    and "sum_list (fbits f js) \<le> 64 * key_u64s f"
    and "top_num k (key_u64s f) (sum_list (fbits f js)) = radix 0 (fbits f js) ds"
  shows "raw_fields f k 0 js = ds"
proof -
  have "radix 0 (fbits f js) ds = radix 0 (fbits f js) (raw_fields f k 0 js)"
    using radix_raw_fields [where c = 0 and f = f and js = js and k = k] assms(2,3)
    by (simp add: top_num_0)
  then show ?thesis using radix_inj [OF assms(1) raw_fields_less] by metis
qed

section \<open>Formats that fit\<close>

text \<open>
  What packing and unpacking need of a format; \<open>bch2_bkey_format_invalid\<close> establishes it
  (see the theory on formats).
\<close>

definition all_fields :: "nat list" where
  "all_fields = [0..<BKEY_NR_FIELDS]"

definition fmt_fits :: "bkey_format \<Rightarrow> bool" where
  "fmt_fits f \<longleftrightarrow> (\<forall>i \<in> set all_fields. bits_per_field f ! i \<le> 64) \<and>
     KEY_PACKED_BITS_START + sum_list (fbits f all_fields) \<le> 64 * key_u64s f"

definition bkey_fits :: "bkey_format \<Rightarrow> bkey \<Rightarrow> bool" where
  "bkey_fits f k \<longleftrightarrow> list_all2 (fits f) all_fields (bkey_fields k)"

lemma length_bkey_fields [simp]: "length (bkey_fields k) = length all_fields"
  by (simp add: bkey_fields_def all_fields_def)

lemma fits_raw: "list_all2 (fits f) js vs \<Longrightarrow>
    list_all2 (\<lambda>b d. d < 2 ^ b) (fbits f js) (map2 (raw_field f) js vs)"
  by (induction js vs rule: list_all2_induct) (simp_all add: fits_def raw_field_def)

lemma add_offsets_raw:
  "length js = length vs \<Longrightarrow> add_offsets f js (map2 (raw_field f) js vs) = vs"
  by (induction js vs rule: list_induct2) (simp_all add: add_offsets_def raw_field_def)

lemma ucast_32_64 [simp]: "ucast (ucast (w :: u32) :: u64) = w"
  by (rule bit_word_eqI) (simp add: bit_simps)

lemma unpack_key_fields:
  assumes "fmt_fits f" "key_u64s f \<le> length k"
    and "add_offsets f all_fields (raw_fields f k 0 all_fields) = bkey_fields x"
  shows "bch2_bkey_unpack_key f k = Some (x\<lparr>k_u64s := 5 + bp_u64s k - of_nat (key_u64s f),
    k_format := KEY_FORMAT_CURRENT, k_needs_whiteout := bp_needs_whiteout k,
    k_type := bp_type k, k_pad := 0\<rparr>)"
proof -
  have "0 < key_u64s f" using assms(1) by (cases "key_u64s f") (simp_all add: fmt_fits_def)
  then have "unpack_state_init f k = Some (us_at k (key_u64s f) 0)"
    using assms(2) by (rule unpack_state_init_at)
  moreover have "get_inc_fields f k (us_at k (key_u64s f) 0) all_fields = Some (bkey_fields x)"
    using assms by (subst get_inc_fields_at) (simp_all add: fmt_fits_def)
  ultimately show ?thesis
    by (simp add: bch2_bkey_unpack_key_def all_fields_def [symmetric])
      (cases x; cases "k_bversion x"; cases "k_p x"; simp add: bkey_fields_def)
qed

lemma fmt_fits_pos: "fmt_fits f \<Longrightarrow> 0 < key_u64s f"
  by (cases "key_u64s f") (simp_all add: fmt_fits_def)

text \<open>
  Writing six fields into a zeroed first word: either some value does not fit and the writer
  says so, or the finished words hold exactly the fields, whatever the header is set to.
\<close>

lemma pack_fields:
  assumes f: "fmt_fits f" and out: "key_u64s f \<le> length out" and vs: "length vs = length all_fields"
  obtains st o1 where "pack_state_init f = Some st" "store_word out 0 0 = Some o1"
    "\<not> list_all2 (fits f) all_fields vs \<Longrightarrow>
      \<exists>s'. set_inc_fields f (zip all_fields vs) (st, o1) = Some (False, s')"
    "list_all2 (fits f) all_fields vs \<Longrightarrow>
      \<exists>st' o2 o3. set_inc_fields f (zip all_fields vs) (st, o1) = Some (True, st', o2) \<and>
        pack_state_finish st' o2 = Some o3 \<and> length o3 = length out \<and>
        (\<forall>o4. same_key o4 o3 \<longrightarrow> drop (key_u64s f) o4 = drop (key_u64s f) out \<and>
           raw_fields f o4 0 all_fields = map2 (raw_field f) all_fields vs)"
proof -
  let ?u = "key_u64s f" and ?S = "sum_list (fbits f all_fields)"
  have u: "0 < ?u" using f by (rule fmt_fits_pos)
  have S: "?S + 24 \<le> 64 * ?u" "\<forall>i \<in> set all_fields. bits_per_field f ! i \<le> 64"
    using f by (simp_all add: fmt_fits_def)
  define o1 where "o1 = out[0 := 0]"
  have o1: "store_word out 0 0 = Some o1" "length o1 = length out" "drop ?u o1 = drop ?u out"
    using u out by (auto simp: o1_def store_word_def)
  then obtain st where st: "pack_state_init f = Some st" "pack_inv ?u 0 0 (st, o1)"
    using pack_state_init_inv [OF u, of o1] out by auto
  note flds = set_inc_fields_inv [OF st(2) S(2) vs]
  show ?thesis
  proof (rule that [OF st(1) o1(1)])
    show "\<exists>s'. set_inc_fields f (zip all_fields vs) (st, o1) = Some (False, s')"
      if "\<not> list_all2 (fits f) all_fields vs" using that flds S(1) by auto
    assume fits: "list_all2 (fits f) all_fields vs"
    define V where "V = radix 0 (fbits f all_fields) (map2 (raw_field f) all_fields vs)"
    from flds fits S(1) obtain st' o2 where o2:
      "set_inc_fields f (zip all_fields vs) (st, o1) = Some (True, st', o2)"
      "pack_inv ?u V ?S (st', o2)" "length o2 = length o1" "drop ?u o2 = drop ?u o1"
      by (auto simp: V_def)
    from pack_state_finish_top [OF o2(2)] obtain o3 where o3: "pack_state_finish st' o2 = Some o3"
      "length o3 = length o2" "drop ?u o3 = drop ?u o2" "top_num o3 ?u ?S = V"
      by (auto simp: top_num_def)
    have "drop ?u o4 = drop ?u out \<and> raw_fields f o4 0 all_fields = map2 (raw_field f) all_fields vs"
      if sk: "same_key o4 o3" for o4
    proof
      show "drop ?u o4 = drop ?u out"
        using sk u o3(3) o2(4) o1(3) by (cases ?u) (auto simp: same_key_def drop_Suc tl_drop [symmetric])
      have "top_num o4 ?u ?S = V"
        using same_key_wnum [OF sk, of "64 * ?u - ?S" ?u] S(1) o3(4) by (simp add: top_num_def)
      then show "raw_fields f o4 0 all_fields = map2 (raw_field f) all_fields vs"
        using fits S(1) by (intro raw_fields_unique) (simp_all add: fits_raw V_def)
    qed
    with o1(2) o2 o3 show "\<exists>st' o2 o3. set_inc_fields f (zip all_fields vs) (st, o1) = Some (True, st', o2) \<and>
        pack_state_finish st' o2 = Some o3 \<and> length o3 = length out \<and>
        (\<forall>o4. same_key o4 o3 \<longrightarrow> drop ?u o4 = drop ?u out \<and>
           raw_fields f o4 0 all_fields = map2 (raw_field f) all_fields vs)"
      by simp
  qed
qed

lemma pack_key_words:
  assumes f: "fmt_fits f" and out: "key_u64s f \<le> length out"
  shows "if bkey_fits f k
    then \<exists>out'. bch2_bkey_pack_key out k f = Some (True, out') \<and> length out' = length out \<and>
      drop (key_u64s f) out' = drop (key_u64s f) out \<and>
      raw_fields f out' 0 all_fields = map2 (raw_field f) all_fields (bkey_fields k) \<and>
      bp_u64s out' = of_nat (key_u64s f) + k_u64s k - 5 \<and> bp_format out' = KEY_FORMAT_LOCAL_BTREE \<and>
      bp_needs_whiteout out' = k_needs_whiteout k \<and> bp_type out' = k_type k
    else \<exists>out'. bch2_bkey_pack_key out k f = Some (False, out')"
proof (rule pack_fields [OF f out length_bkey_fields [of k]], goal_cases)
  case (1 st o1)
  show ?case
  proof (cases "bkey_fits f k")
    case True
    with 1(4) obtain st' o2 o3 where o3:
      "set_inc_fields f (zip all_fields (bkey_fields k)) (st, o1) = Some (True, st', o2)"
      "pack_state_finish st' o2 = Some o3" "length o3 = length out"
      "\<forall>o4. same_key o4 o3 \<longrightarrow> drop (key_u64s f) o4 = drop (key_u64s f) out \<and>
         raw_fields f o4 0 all_fields = map2 (raw_field f) all_fields (bkey_fields k)"
      by (auto simp: bkey_fits_def)
    define o4 where "o4 = set_bp_type (k_type k) (set_bp_needs_whiteout (k_needs_whiteout k)
      (set_bp_format KEY_FORMAT_LOCAL_BTREE (set_bp_u64s (of_nat (key_u64s f) + k_u64s k - 5) o3)))"
    have sk: "same_key o4 o3" unfolding o4_def by (rule same_key_header)
    have "o3 \<noteq> []" using o3(3) fmt_fits_pos [OF f] out by auto
    then have "bp_u64s o4 = of_nat (key_u64s f) + k_u64s k - 5" "bp_format o4 = KEY_FORMAT_LOCAL_BTREE"
      "bp_needs_whiteout o4 = k_needs_whiteout k" "bp_type o4 = k_type k"
      by (simp_all add: o4_def bp_set_get)
    moreover have "length o4 = length out" using sk o3(3) by (simp add: same_key_def)
    ultimately show ?thesis
      using True 1(1,2) o3(1,2) o3(4) [rule_format, OF sk]
      by (simp add: bch2_bkey_pack_key_def all_fields_def [symmetric] o4_def [symmetric])
  next
    case False
    with 1(1-3) show ?thesis
      by (auto simp: bch2_bkey_pack_key_def all_fields_def [symmetric] bkey_fits_def)
  qed
qed

lemma pack_unpack:
  assumes f: "fmt_fits f" and out: "key_u64s f \<le> length out" and k: "bkey_fits f k"
    and cur: "k_format k = KEY_FORMAT_CURRENT" "k_pad k = 0"
  shows "\<exists>out'. bch2_bkey_pack_key out k f = Some (True, out') \<and> length out' = length out \<and>
    drop (key_u64s f) out' = drop (key_u64s f) out \<and> bkey_packed out' \<and>
    bp_u64s out' = of_nat (key_u64s f) + k_u64s k - 5 \<and>
    bch2_bkey_unpack_key f out' = Some k"
proof -
  from pack_key_words [OF f out, of k] k obtain out' where o: "bch2_bkey_pack_key out k f = Some (True, out')"
    "length out' = length out" "drop (key_u64s f) out' = drop (key_u64s f) out"
    "raw_fields f out' 0 all_fields = map2 (raw_field f) all_fields (bkey_fields k)"
    "bp_u64s out' = of_nat (key_u64s f) + k_u64s k - 5" "bp_format out' = KEY_FORMAT_LOCAL_BTREE"
    "bp_needs_whiteout out' = k_needs_whiteout k" "bp_type out' = k_type k"
    by auto
  have "bch2_bkey_unpack_key f out' = Some k"
    using unpack_key_fields [OF f, of out' k] o(2,4-8) out cur by (simp add: add_offsets_raw)
  then show ?thesis using o by (simp add: bkey_packed_def)
qed

section \<open>Transforming between formats\<close>

lemma transform_fields_eq:
  "get_inc_fields in_f inp in_s js = Some vs \<Longrightarrow>
   transform_fields out_f in_f inp in_s js s = set_inc_fields out_f (zip js vs) s"
proof (induction js arbitrary: in_s vs s)
  case (Cons j js)
  then obtain v in_s' vs' where v: "get_inc_field in_f inp in_s j = Some (v, in_s')"
    "get_inc_fields in_f inp in_s' js = Some vs'" "vs = v # vs'"
    by (auto split: bind_splits)
  then show ?case
    using Cons.IH [OF v(2)] by (auto split: bind_splits)
qed simp

definition unpacked_fields :: "bkey_format \<Rightarrow> u64 list \<Rightarrow> u64 list" where
  "unpacked_fields f k = add_offsets f all_fields (raw_fields f k 0 all_fields)"

lemma length_unpacked_fields [simp]: "length (unpacked_fields f k) = length all_fields"
  by (simp add: unpacked_fields_def add_offsets_def)

lemma get_inc_fields_all:
  assumes "fmt_fits f" "key_u64s f \<le> length k"
  shows "unpack_state_init f k = Some (us_at k (key_u64s f) 0)"
    and "get_inc_fields f k (us_at k (key_u64s f) 0) all_fields = Some (unpacked_fields f k)"
  using assms fmt_fits_pos [OF assms(1)]
  by (simp_all add: unpack_state_init_at get_inc_fields_at fmt_fits_def unpacked_fields_def)

text \<open>Keys with the same fields and header unpack to the same key.\<close>

lemma unpack_key_cong:
  assumes "fmt_fits f" "key_u64s f \<le> length k" "fmt_fits g" "key_u64s g \<le> length l"
    and "unpacked_fields f k = unpacked_fields g l"
    and "bp_u64s k - of_nat (key_u64s f) = bp_u64s l - of_nat (key_u64s g)"
    and "bp_needs_whiteout k = bp_needs_whiteout l" "bp_type k = bp_type l"
  shows "bch2_bkey_unpack_key f k = bch2_bkey_unpack_key g l"
proof -
  have "5 + bp_u64s k - of_nat (key_u64s f) = 5 + bp_u64s l - of_nat (key_u64s g)"
    using assms(6) by (simp add: add_diff_eq [symmetric])
  then show ?thesis
    using get_inc_fields_all [OF assms(1,2)] get_inc_fields_all [OF assms(3,4)] assms(5,7,8)
    by (simp add: bch2_bkey_unpack_key_def all_fields_def [symmetric])
qed

lemma unpack_key_Some:
  assumes "fmt_fits f" "key_u64s f \<le> length k"
  shows "\<exists>x. bch2_bkey_unpack_key f k = Some x"
  using get_inc_fields_all [OF assms]
  by (simp add: bch2_bkey_unpack_key_def all_fields_def [symmetric])

lemma bp_set_get3:
  assumes "k \<noteq> []"
  shows "bp_u64s (set_bp_type t (set_bp_needs_whiteout n (set_bp_u64s u k))) = u"
    and "bp_needs_whiteout (set_bp_type t (set_bp_needs_whiteout n (set_bp_u64s u k))) = n"
    and "bp_type (set_bp_type t (set_bp_needs_whiteout n (set_bp_u64s u k))) = t"
  using assms
  by (auto simp: bp_header_defs bit_set_bits_at bit_simps intro!: bit_word_eqI)

lemma transform_key_words:
  assumes f: "fmt_fits out_f" "key_u64s out_f \<le> length out" and g: "fmt_fits in_f" "key_u64s in_f \<le> length inp"
  shows "if list_all2 (fits out_f) all_fields (unpacked_fields in_f inp)
    then \<exists>out'. bch2_bkey_transform_key out_f out in_f inp = Some (True, out') \<and>
      length out' = length out \<and> bch2_bkey_unpack_key out_f out' = bch2_bkey_unpack_key in_f inp \<and>
      bp_u64s out' = of_nat (key_u64s out_f) + bp_u64s inp - of_nat (key_u64s in_f)
    else \<exists>out'. bch2_bkey_transform_key out_f out in_f inp = Some (False, out')"
proof (rule pack_fields [OF f, of "unpacked_fields in_f inp"], simp, goal_cases)
  case (1 st o1)
  note tr = transform_fields_eq [OF get_inc_fields_all(2) [OF g], of out_f "(st, o1)"]
  note simps = bch2_bkey_transform_key_def all_fields_def [symmetric] get_inc_fields_all(1) [OF g] tr
  show ?case
  proof (cases "list_all2 (fits out_f) all_fields (unpacked_fields in_f inp)")
    case True
    with 1(4) obtain st' o2 o3 where o3:
      "set_inc_fields out_f (zip all_fields (unpacked_fields in_f inp)) (st, o1) = Some (True, st', o2)"
      "pack_state_finish st' o2 = Some o3" "length o3 = length out"
      "\<forall>o4. same_key o4 o3 \<longrightarrow> drop (key_u64s out_f) o4 = drop (key_u64s out_f) out \<and>
         raw_fields out_f o4 0 all_fields = map2 (raw_field out_f) all_fields (unpacked_fields in_f inp)"
      by auto
    define u where "u = of_nat (key_u64s out_f) + bp_u64s inp - of_nat (key_u64s in_f)"
    define o4 where "o4 = set_bp_type (bp_type inp) (set_bp_needs_whiteout (bp_needs_whiteout inp)
      (set_bp_u64s u o3))"
    have sk: "same_key o4 o3" unfolding o4_def by (rule same_key_header)
    have "o3 \<noteq> []" using o3(3) fmt_fits_pos [OF f(1)] f(2) by auto
    then have hdr: "bp_u64s o4 = u" "bp_needs_whiteout o4 = bp_needs_whiteout inp" "bp_type o4 = bp_type inp"
      by (simp_all add: o4_def bp_set_get3)
    have len: "length o4 = length out" using sk o3(3) by (simp add: same_key_def)
    have "unpacked_fields out_f o4 = unpacked_fields in_f inp"
      using o3(4) sk by (simp add: unpacked_fields_def [of out_f] add_offsets_raw)
    then have "bch2_bkey_unpack_key out_f o4 = bch2_bkey_unpack_key in_f inp"
      using f g len hdr by (intro unpack_key_cong) (simp_all add: u_def)
    with True 1(1,2) o3(1,2) len hdr(1) show ?thesis
      by (simp add: simps u_def [symmetric] o4_def [symmetric])
  next
    case False
    with 1(1-3) show ?thesis by (auto simp: simps)
  qed
qed

section \<open>Keys with values\<close>

lemma raw_fields_take:
  "take (key_u64s f) k = take (key_u64s f) l \<Longrightarrow> raw_fields f k c js = raw_fields f l c js"
  by (induction js arbitrary: c) (simp_all add: key_bits_at_def)

lemma header_take:
  assumes "0 < u" "take u k = take u l"
  shows "bp_u64s k = bp_u64s l" "bp_format k = bp_format l"
    "bp_needs_whiteout k = bp_needs_whiteout l" "bp_type k = bp_type l"
proof -
  have "k ! 0 = l ! 0" using assms by (metis nth_take)
  then show "bp_u64s k = bp_u64s l" "bp_format k = bp_format l"
    "bp_needs_whiteout k = bp_needs_whiteout l" "bp_type k = bp_type l"
    by (simp_all add: bp_header_defs)
qed

lemma unpack_key_take:
  assumes "fmt_fits f" "key_u64s f \<le> length k" "key_u64s f \<le> length l"
    and t: "take (key_u64s f) k = take (key_u64s f) l"
  shows "bch2_bkey_unpack_key f k = bch2_bkey_unpack_key f l"
  using assms header_take [OF fmt_fits_pos [OF assms(1)] t] raw_fields_take [OF t]
  by (intro unpack_key_cong) (simp_all add: unpacked_fields_def)

lemma memcpy_u64s_eq:
  assumes "d + n \<le> length dst" "s + n \<le> length src"
  shows "memcpy_u64s dst d src s (int n) = Some (take d dst @ take n (drop s src) @ drop (d + n) dst)"
  using assms by (simp add: memcpy_u64s_def)

lemma unat_u64s:
  fixes a :: u8
  assumes "m \<le> unat a" "u + (unat a - m) < 256"
  shows "unat (of_nat u + a - of_nat m) = u + (unat a - m)"
proof -
  have "of_nat u + a - of_nat m = (of_nat (u + (unat a - m)) :: u8)"
    using assms(1) by (simp add: of_nat_diff)
  also have "unat \<dots> = u + (unat a - m)"
    using assms(2) by (simp only: unat_of_nat take_bit_eq_mod) simp
  finally show ?thesis .
qed

lemma pack_unpack_value:
  assumes f: "fmt_fits f" "key_u64s f \<le> length tmp" and k: "bkey_fits f (i_k src)"
    "k_format (i_k src) = KEY_FORMAT_CURRENT" "k_pad (i_k src) = 0"
    and n: "unat (k_u64s (i_k src)) = 5 + n" "length (i_v src) = n" "key_u64s f + n < 256"
    and dst: "key_u64s f + n \<le> length dst" "length dst_v = n"
  shows "\<exists>dst'. bch2_bkey_pack tmp dst src f = Some (True, dst') \<and> bch2_bkey_unpack f dst_v dst' = Some src"
proof -
  let ?u = "key_u64s f"
  from pack_unpack [OF f k] obtain t where t: "bch2_bkey_pack_key tmp (i_k src) f = Some (True, t)"
    "length t = length tmp" "bkey_packed t" "bp_u64s t = of_nat ?u + k_u64s (i_k src) - 5"
    "bch2_bkey_unpack_key f t = Some (i_k src)" by auto
  define d where "d = take ?u t @ i_v src @ drop (?u + n) dst"
  have "int (unat (k_u64s (i_k src))) - 5 = int n" using n(1) by simp
  then have p: "bch2_bkey_pack tmp dst src f = Some (True, d)"
    using t(1,2) f(2) dst(1) n
      memcpy_u64s_eq [of ?u n dst 0 "i_v src"]
      memcpy_u64s_eq [of 0 ?u "take ?u dst @ take n (i_v src) @ drop (?u + n) dst" 0 t]
    by (simp add: bch2_bkey_pack_def bkey_val_u64s_def d_def)
  have td: "take ?u d = take ?u t" "?u \<le> length d" using t(2) f(2) by (simp_all add: d_def)
  note hdr = header_take [OF fmt_fits_pos [OF f(1)] td(1)]
  have "unat (bp_u64s d) = ?u + n"
    using unat_u64s [of 5 "k_u64s (i_k src)" ?u] n by (simp add: hdr t(4))
  moreover have "bkey_packed d" using t(3) by (simp add: bkey_packed_def hdr)
  moreover have "take n (drop ?u d) = i_v src" using t(2) f(2) n(2) by (simp add: d_def)
  moreover have "?u + n \<le> length d" using t(2) f(2) n(2) by (simp add: d_def)
  moreover have "bch2_bkey_unpack_key f d = Some (i_k src)"
    using unpack_key_take [OF f(1) td(2) _ td(1)] t(2,5) f(2) by simp
  ultimately have "bch2_bkey_unpack f dst_v d = Some src"
    using memcpy_u64s_eq [of 0 n dst_v ?u d] dst(2)
    by (simp add: bch2_bkey_unpack_def bkey_unpack_key_def bkeyp_key_u64s_def)
  with p show ?thesis by blast
qed

lemma transform_words:
  assumes f: "fmt_fits out_f" and g: "fmt_fits in_f"
    and n: "unat (bp_u64s inp) = key_u64s in_f + n" "key_u64s in_f + n \<le> length inp"
    and out: "key_u64s out_f + n \<le> length out"
  shows "if list_all2 (fits out_f) all_fields (unpacked_fields in_f inp)
    then \<exists>out'. bch2_bkey_transform out_f out in_f inp = Some (True, out') \<and>
      bch2_bkey_unpack_key out_f out' = bch2_bkey_unpack_key in_f inp \<and>
      take n (drop (key_u64s out_f) out') = take n (drop (key_u64s in_f) inp)
    else \<exists>out'. bch2_bkey_transform out_f out in_f inp = Some (False, out')"
proof -
  let ?u = "key_u64s out_f" and ?v = "key_u64s in_f"
  have le: "?u \<le> length out" "?v \<le> length inp" using n out by simp_all
  note key = transform_key_words [OF f le(1) g le(2)]
  show ?thesis
  proof (cases "list_all2 (fits out_f) all_fields (unpacked_fields in_f inp)")
    case True
    with key obtain o1 where o1: "bch2_bkey_transform_key out_f out in_f inp = Some (True, o1)"
      "length o1 = length out" "bch2_bkey_unpack_key out_f o1 = bch2_bkey_unpack_key in_f inp" by auto
    define o2 where "o2 = take ?u o1 @ take n (drop ?v inp) @ drop (?u + n) o1"
    have "bch2_bkey_transform out_f out in_f inp = Some (True, o2)"
      using memcpy_u64s_eq [of ?u n o1 ?v inp] out n o1(1,2)
      by (simp add: bch2_bkey_transform_def o2_def)
    moreover have "bch2_bkey_unpack_key out_f o2 = bch2_bkey_unpack_key in_f inp"
      using unpack_key_take [OF f, of o2 o1] o1(2,3) out by (simp add: o2_def)
    moreover have "take n (drop ?u o2) = take n (drop ?v inp)"
      using o1(2) out n(2) by (simp add: o2_def)
    ultimately show ?thesis using True by auto
  qed (use key in \<open>auto simp: bch2_bkey_transform_def\<close>)
qed

end
