(* ===== verification/Bkey_Format.thy ===== *)
theory Bkey_Format
  imports Bkey_Codec
begin

text \<open>
  Choosing and validating key formats (\<^verbatim>\<open>libbcachefs/bkey.c\<close>, \<^verbatim>\<open>bkey.h\<close>). A format state
  collects the minimum and maximum of every field over the keys of a node;
  \<^verbatim>\<open>bch2_bkey_format_done\<close> turns it into a format. The theory shows that the result is
  always valid, that every key added to the state packs with it, and that validity gives
  what packing, unpacking and comparison rely on.
\<close>

section \<open>Definitions\<close>

record bkey_format_state =
  field_min :: "u64 list"
  field_max :: "u64 list"

definition round_up :: "nat \<Rightarrow> nat \<Rightarrow> nat" where
  "round_up x y = nat (((int x - 1) OR (int y - 1)) + 1)"

definition bch2_bkey_format_init :: bkey_format_state where
  "bch2_bkey_format_init =
     \<lparr>field_min = (replicate BKEY_NR_FIELDS (- 1))[BKEY_FIELD_SIZE := 0],
      field_max = replicate BKEY_NR_FIELDS 0\<rparr>"

definition bkey_format_add :: "bkey_format_state \<Rightarrow> nat \<Rightarrow> u64 \<Rightarrow> bkey_format_state" where
  "bkey_format_add s field v =
     s\<lparr>field_min := (field_min s)[field := min (field_min s ! field) v],
       field_max := (field_max s)[field := max (field_max s ! field) v]\<rparr>"

definition bch2_bkey_format_add_key :: "bkey_format_state \<Rightarrow> bkey \<Rightarrow> bkey_format_state" where
  "bch2_bkey_format_add_key s k =
     fold (\<lambda>(i, v) s. bkey_format_add s i v) (zip [0..<BKEY_NR_FIELDS] (bkey_fields k)) s"

definition bch2_bkey_format_add_pos :: "bkey_format_state \<Rightarrow> bpos \<Rightarrow> bkey_format_state" where
  "bch2_bkey_format_add_pos s p =
     (let s = bkey_format_add s 0 (bp_inode p);
          s = bkey_format_add s 1 (bp_offset p);
          s = bkey_format_add s 2 (ucast (bp_snapshot p))
      in s)"

definition set_format_field :: "bkey_format \<Rightarrow> nat \<Rightarrow> nat \<Rightarrow> u64 \<Rightarrow> bkey_format" where
  "set_format_field f i bits offset =
     (let unpacked_bits = bits_per_field bch2_bkey_format_current ! i;
          unpacked_max = NOT (push_bit (unpacked_bits - 1) (push_bit 1 (NOT 0)));
          bits = min bits unpacked_bits;
          offset = (if bits = unpacked_bits then 0
                    else min offset (unpacked_max - (push_bit bits 1 - 1)))
      in f\<lparr>bits_per_field := (bits_per_field f)[i := bits],
           field_offset := (field_offset f)[i := offset]\<rparr>)"

definition format_done_field :: "nat \<Rightarrow> bkey_format_state \<times> bkey_format \<times> nat
    \<Rightarrow> bkey_format_state \<times> bkey_format \<times> nat" where
  "format_done_field i = (\<lambda>(s, ret, bits).
     let mn = min (field_min s ! i) (field_max s ! i);
         s = s\<lparr>field_min := (field_min s)[i := mn]\<rparr>;
         ret = set_format_field ret i (fls64 (field_max s ! i - mn)) mn
     in (s, ret, bits + bits_per_field ret ! i))"

definition format_done_round :: "nat \<Rightarrow> bkey_format \<times> nat \<Rightarrow> bkey_format \<times> nat" where
  "format_done_round i = (\<lambda>(ret, bits).
     let r = round_up (bits_per_field ret ! i) 8 - bits_per_field ret ! i in
     if r \<le> bits
     then (set_format_field ret i (bits_per_field ret ! i + r) (field_offset ret ! i), bits - r)
     else (ret, bits))"

text \<open>The result is the format with the state, whose minima the function also updates.\<close>

definition bch2_bkey_format_done :: "bkey_format_state \<Rightarrow> bkey_format \<times> bkey_format_state" where
  "bch2_bkey_format_done s =
     (let ret = \<lparr>key_u64s = 0, nr_fields = BKEY_NR_FIELDS,
                 bits_per_field = replicate BKEY_NR_FIELDS 0,
                 field_offset = replicate BKEY_NR_FIELDS 0\<rparr>;
          (s, ret, bits) = fold format_done_field [0..<BKEY_NR_FIELDS] (s, ret, KEY_PACKED_BITS_START);
          b = (if bits_per_field ret ! BKEY_FIELD_SIZE \<noteq> 0
               then min 4 (32 - bits_per_field ret ! BKEY_FIELD_SIZE) else 0);
          ret = ret\<lparr>bits_per_field := (bits_per_field ret)
                 [BKEY_FIELD_SIZE := bits_per_field ret ! BKEY_FIELD_SIZE + b]\<rparr>;
          bits = bits + b;
          ret = ret\<lparr>key_u64s := DIV_ROUND_UP bits 64\<rparr>;
          bits = key_u64s ret * 64 - bits;
          (ret, bits) = fold format_done_round [0..<BKEY_NR_FIELDS] (ret, bits)
      in (ret, s))"

definition bch2_bkey_format_field_overflows :: "bkey_format \<Rightarrow> nat \<Rightarrow> bool" where
  "bch2_bkey_format_field_overflows f i =
     (let f_bits = bits_per_field f ! i;
          unpacked_bits = bits_per_field bch2_bkey_format_current ! i;
          unpacked_mask = NOT (push_bit (unpacked_bits - 1) (push_bit 1 (NOT 0)));
          offset = field_offset f ! i
      in if f_bits > unpacked_bits then True
         else if f_bits = unpacked_bits \<and> offset \<noteq> 0 then True
         else let f_mask = (if f_bits \<noteq> 0 then NOT (push_bit 1 (push_bit (f_bits - 1) (NOT 0))) else 0)
              in (offset + f_mask) AND unpacked_mask < offset)"

fun format_invalid_fields :: "bkey_format \<Rightarrow> nat list \<Rightarrow> nat \<Rightarrow> bch_err + nat" where
  "format_invalid_fields f [] bits = Inr bits"
| "format_invalid_fields f (i # js) bits =
     (if bch2_bkey_format_field_overflows f i then Inl BCH_ERR_invalid
      else format_invalid_fields f js (bits + bits_per_field f ! i))"

definition bch2_bkey_format_invalid :: "bkey_format \<Rightarrow> bch_err + unit" where
  "bch2_bkey_format_invalid f =
     (if nr_fields f \<noteq> BKEY_NR_FIELDS then Inl BCH_ERR_invalid
      else case format_invalid_fields f [0..<nr_fields f] KEY_PACKED_BITS_START of
             Inl e \<Rightarrow> Inl e
           | Inr bits \<Rightarrow>
               if key_u64s f \<noteq> DIV_ROUND_UP bits 64 then Inl BCH_ERR_invalid else Inr ())"

definition bkey_field_max :: "bkey_format \<Rightarrow> nat \<Rightarrow> u64" where
  "bkey_field_max f nr =
     (if bits_per_field f ! nr < 64
      then field_offset f ! nr + NOT (push_bit (bits_per_field f ! nr) (NOT 0)) else - 1)"

section \<open>Validity\<close>

abbreviation ubits :: "nat \<Rightarrow> nat" where
  "ubits i \<equiv> bits_per_field bch2_bkey_format_current ! i"

text \<open>A field whose largest packed value stays within the unpacked field.\<close>

definition field_ok :: "bkey_format \<Rightarrow> nat \<Rightarrow> bool" where
  "field_ok f i \<longleftrightarrow> bits_per_field f ! i \<le> ubits i \<and>
     unat (field_offset f ! i) + 2 ^ (bits_per_field f ! i) \<le> 2 ^ ubits i"

lemma less_6_cases: "i < 6 \<longleftrightarrow> i = 0 \<or> i = 1 \<or> i = 2 \<or> i = 3 \<or> i = 4 \<or> i = 5" for i :: nat
  by auto

lemma all_less_6: "(\<forall>i < 6. P i) \<longleftrightarrow> P 0 \<and> P 1 \<and> P 2 \<and> P 3 \<and> P 4 \<and> P (5::nat)"
  unfolding less_6_cases by blast

lemma ubits_cases: "i < 6 \<Longrightarrow> ubits i = 64 \<or> ubits i = 32"
  unfolding less_6_cases by (auto simp: bch2_bkey_format_current_def)

lemma not_double_shift: "0 < n \<Longrightarrow> NOT (push_bit (n - 1) (push_bit 1 (NOT 0 :: u64))) = mask n"
  "0 < n \<Longrightarrow> NOT (push_bit 1 (push_bit (n - 1) (NOT 0 :: u64))) = mask n"
  by (simp_all only: push_bit_push_bit not_push_bit_not_0 le_add_diff_inverse
      le_add_diff_inverse2 Suc_leI One_nat_def)

lemma mod_less_self_iff:
  fixes a m M :: nat
  assumes "m < M"
  shows "(a + m) mod M < a \<longleftrightarrow> M \<le> a + m"
proof (cases "a < M")
  case True
  then show ?thesis using assms by (cases "a + m < M") (auto simp: mod_if)
next
  case False
  have "(a + m) mod M < M" using assms by simp
  then show ?thesis using False by simp
qed

lemma overflows_iff:
  assumes i: "i < 6"
  shows "bch2_bkey_format_field_overflows f i \<longleftrightarrow> \<not> field_ok f i"
proof -
  define b u where "b = bits_per_field f ! i" and "u = ubits i"
  define off where "off = field_offset f ! i"
  have u: "u = 64 \<or> u = 32" unfolding u_def using i by (rule ubits_cases)
  have um: "NOT (push_bit (u - 1) (push_bit 1 (NOT 0 :: u64))) = mask u"
    using u by (intro not_double_shift) auto
  have fm: "(if b \<noteq> 0 then NOT (push_bit 1 (push_bit (b - 1) (NOT 0 :: u64))) else 0) = mask b"
  proof (cases "b = 0")
    case False
    then show ?thesis using not_double_shift(2) [of b] by (simp only: simp_thms if_True neq0_conv)
  qed simp
  have lhs: "bch2_bkey_format_field_overflows f i \<longleftrightarrow>
      u < b \<or> b = u \<and> off \<noteq> 0 \<or> (off + mask b) AND mask u < off"
    unfolding bch2_bkey_format_field_overflows_def Let_def b_def [symmetric] u_def [symmetric]
      off_def [symmetric] um fm by auto
  show ?thesis
  proof (cases "u < b \<or> b = u \<and> off \<noteq> 0")
    case True
    then show ?thesis by (auto simp: lhs field_ok_def b_def u_def off_def unat_gt_0 [symmetric])
  next
    case False
    then have bu: "b \<le> u" "b = u \<Longrightarrow> off = 0" by auto
    have pb: "(2::nat) ^ b \<le> 2 ^ u" "(0::nat) < 2 ^ b" using bu by simp_all
    have um: "unat (mask b :: u64) = 2 ^ b - 1" using bu(1) u by (intro unat_mask) auto
    have s: "unat ((off + mask b) AND mask u) = (unat off + (2 ^ b - 1)) mod 2 ^ 64 mod 2 ^ u"
      by (simp only: unat_and_mask unat_word_ariths um) simp
    have "(unat off + (2 ^ b - 1)) mod 2 ^ 64 mod 2 ^ u < unat off \<longleftrightarrow> \<not> unat off + 2 ^ b \<le> 2 ^ u"
    proof -
      have "(2::nat) ^ u dvd 2 ^ 64" using u by (auto intro: le_imp_power_dvd)
      then have e: "(unat off + (2 ^ b - 1)) mod 2 ^ 64 mod 2 ^ u = (unat off + (2 ^ b - 1)) mod 2 ^ u"
        by (rule mod_mod_cancel)
      have "(2::nat) ^ b - 1 < 2 ^ u" using pb by linarith
      from mod_less_self_iff [OF this, of "unat off"] show ?thesis unfolding e using pb by linarith
    qed
    then have "(off + mask b) AND mask u < off \<longleftrightarrow> \<not> unat off + 2 ^ b \<le> 2 ^ u"
      by (simp only: word_less_nat_alt s)
    moreover have "field_ok f i \<longleftrightarrow> b \<le> u \<and> unat off + 2 ^ b \<le> 2 ^ u"
      by (simp only: field_ok_def b_def u_def off_def)
    ultimately show ?thesis unfolding lhs using False bu(1) by blast
  qed
qed

definition fmt_valid :: "bkey_format \<Rightarrow> bool" where
  "fmt_valid f \<longleftrightarrow> nr_fields f = BKEY_NR_FIELDS \<and> (\<forall>i < 6. field_ok f i) \<and>
     key_u64s f = DIV_ROUND_UP (KEY_PACKED_BITS_START + sum_list (fbits f all_fields)) 64"

lemma format_invalid_fields_eq:
  "\<forall>i \<in> set js. i < 6 \<Longrightarrow> format_invalid_fields f js bits =
     (if \<forall>i \<in> set js. field_ok f i then Inr (bits + sum_list (fbits f js)) else Inl BCH_ERR_invalid)"
  by (induction js arbitrary: bits) (auto simp: overflows_iff)

lemma format_invalid_iff: "bch2_bkey_format_invalid f = Inr () \<longleftrightarrow> fmt_valid f"
  by (auto simp: bch2_bkey_format_invalid_def fmt_valid_def format_invalid_fields_eq all_fields_def)

lemma fmt_valid_fits: "fmt_valid f \<Longrightarrow> fmt_fits f"
proof -
  assume v: "fmt_valid f"
  have "bits_per_field f ! i \<le> 64" if "i < 6" for i
    using v that ubits_cases [of i] by (auto simp: fmt_valid_def field_ok_def)
  moreover have "x \<le> 64 * DIV_ROUND_UP x 64" for x by (rule DIV_ROUND_UP_bounds) simp
  ultimately show ?thesis using v by (auto simp: fmt_fits_def fmt_valid_def all_fields_def)
qed

section \<open>The format chosen for a set of keys\<close>

text \<open>A field that is valid and can hold every value from \<open>lo\<close> to \<open>hi\<close>.\<close>

definition covers :: "bkey_format \<Rightarrow> nat \<Rightarrow> u64 \<Rightarrow> u64 \<Rightarrow> bool" where
  "covers f i lo hi \<longleftrightarrow> field_ok f i \<and> unat (field_offset f ! i) \<le> unat lo \<and>
     unat hi < unat (field_offset f ! i) + 2 ^ (bits_per_field f ! i)"

lemma covers_fits:
  assumes "covers f i lo hi" "lo \<le> v" "v \<le> hi"
  shows "fits f i v"
  using assms by (simp add: covers_def fits_def word_le_nat_alt unat_sub less_diff_conv2)

lemma set_format_field_simps:
  "key_u64s (set_format_field f i b off) = key_u64s f"
  "nr_fields (set_format_field f i b off) = nr_fields f"
  "length (bits_per_field (set_format_field f i b off)) = length (bits_per_field f)"
  "length (field_offset (set_format_field f i b off)) = length (field_offset f)"
  "j \<noteq> i \<Longrightarrow> bits_per_field (set_format_field f i b off) ! j = bits_per_field f ! j"
  "j \<noteq> i \<Longrightarrow> field_offset (set_format_field f i b off) ! j = field_offset f ! j"
  "i < length (bits_per_field f) \<Longrightarrow>
     bits_per_field (set_format_field f i b off) ! i = min b (ubits i)"
  by (simp_all add: set_format_field_def Let_def)

lemma set_format_field_offset:
  assumes i: "i < 6" "i < length (field_offset f)"
  shows "unat (field_offset (set_format_field f i b off) ! i) =
    (if ubits i \<le> b then 0 else min (unat off) (2 ^ ubits i - 2 ^ b))"
proof -
  have u: "ubits i = 64 \<or> ubits i = 32" using i(1) by (rule ubits_cases)
  have um: "NOT (push_bit (ubits i - 1) (push_bit 1 (NOT 0 :: u64))) = mask (ubits i)"
    using u by (intro not_double_shift) auto
  have "unat (min off (mask (ubits i) - mask b)) = min (unat off) (2 ^ ubits i - 2 ^ b)"
    if b: "b < ubits i"
  proof -
    have mb: "unat (mask b :: u64) = 2 ^ b - 1" using b u by (intro unat_mask) auto
    have mu: "unat (mask (ubits i) :: u64) = 2 ^ ubits i - 1" using u by (intro unat_mask) auto
    have pw: "(2::nat) ^ b \<le> 2 ^ ubits i" "(0::nat) < 2 ^ b" using b by simp_all
    have le: "unat (mask b :: u64) \<le> unat (mask (ubits i) :: u64)"
      unfolding mb mu using pw by linarith
    then have "unat (mask (ubits i) - mask b :: u64) = unat (mask (ubits i) :: u64) - unat (mask b :: u64)"
      by (simp add: unat_sub word_le_nat_alt)
    also have "\<dots> = 2 ^ ubits i - 2 ^ b" unfolding mb mu using pw by linarith
    finally show ?thesis by (simp add: min_def word_le_nat_alt)
  qed
  moreover have mb: "push_bit b 1 - 1 = (mask b :: u64)"
    by (simp add: mask_eq_exp_minus_1 push_bit_eq_mult)
  moreover have "field_offset (set_format_field f i b off) ! i =
      (if ubits i \<le> b then 0 else min off (mask (ubits i) - mask b))"
  proof (cases "ubits i \<le> b")
    case False
    then have "min b (ubits i) = b" "b \<noteq> ubits i" by simp_all
    then show ?thesis
      using False i(2) unfolding set_format_field_def Let_def um by (simp add: mb del: push_bit_of_1)
  qed (use i(2) in \<open>simp add: set_format_field_def Let_def\<close>)
  ultimately show ?thesis by simp
qed

lemma set_format_field_covers:
  assumes i: "i < 6" "i < length (bits_per_field f)" "i < length (field_offset f)"
    and lo: "lo \<le> hi" and hi: "unat hi < 2 ^ ubits i" and b: "unat (hi - lo) < 2 ^ b"
  shows "covers (set_format_field f i b lo) i lo hi"
proof -
  define o' where "o' = unat (field_offset (set_format_field f i b lo) ! i)"
  have o': "o' = (if ubits i \<le> b then 0 else min (unat lo) (2 ^ ubits i - 2 ^ b))"
    unfolding o'_def using i(1,3) by (rule set_format_field_offset)
  have lh: "unat lo \<le> unat hi" "unat hi - unat lo < 2 ^ b"
    using lo b by (simp_all add: word_le_nat_alt unat_sub)
  show ?thesis
  proof (cases "ubits i \<le> b")
    case True
    then show ?thesis
      using hi i lh by (simp add: covers_def field_ok_def set_format_field_simps o'_def [symmetric] o' min_def)
  next
    case False
    then have pw: "(2::nat) ^ b < 2 ^ ubits i" by simp
    have o2: "o' = min (unat lo) (2 ^ ubits i - 2 ^ b)" using False o' by simp
    then have "o' + 2 ^ b \<le> 2 ^ ubits i" "o' \<le> unat lo" using pw by linarith+
    moreover have "unat hi < o' + 2 ^ b"
      using o2 hi lh pw by (cases "unat lo \<le> 2 ^ ubits i - 2 ^ b") linarith+
    ultimately show ?thesis
      using False i by (simp add: covers_def field_ok_def set_format_field_simps o'_def [symmetric] min_def)
  qed
qed

text \<open>Widening a covering field keeps it covering.\<close>

lemma set_format_field_widen:
  assumes i: "i < 6" "i < length (bits_per_field f)" "i < length (field_offset f)"
    and c: "covers f i lo hi" "lo \<le> hi" and b: "bits_per_field f ! i \<le> b"
  shows "covers (set_format_field f i b (field_offset f ! i)) i lo hi"
proof -
  let ?off = "field_offset f ! i" and ?n = "bits_per_field f ! i"
  have ok: "?n \<le> ubits i" "unat ?off + 2 ^ ?n \<le> 2 ^ ubits i" "unat ?off \<le> unat lo"
      "unat hi < unat ?off + 2 ^ ?n"
    using c by (simp_all add: covers_def field_ok_def)
  have "unat hi < 2 ^ ubits i" using ok by linarith
  moreover have "?off \<le> hi" using ok(3) c(2) by (simp add: word_le_nat_alt)
  moreover have "unat (hi - ?off) < 2 ^ b"
  proof -
    have "unat (hi - ?off) = unat hi - unat ?off" using \<open>?off \<le> hi\<close> by (simp add: unat_sub)
    moreover have "(2::nat) ^ ?n \<le> 2 ^ b" "(0::nat) < 2 ^ b" using b by simp_all
    ultimately show ?thesis using ok(4) by linarith
  qed
  ultimately have "covers (set_format_field f i b ?off) i ?off hi"
    using i by (intro set_format_field_covers)
  then show ?thesis using ok(3) by (auto simp: covers_def)
qed

text \<open>A state that only fields of keys and positions were added to.\<close>

definition state_ok :: "bkey_format_state \<Rightarrow> bool" where
  "state_ok s \<longleftrightarrow> length (field_min s) = 6 \<and> length (field_max s) = 6 \<and>
     field_min s ! BKEY_FIELD_SIZE = 0 \<and> (\<forall>i < 6. unat (field_max s ! i) < 2 ^ ubits i)"

abbreviation smin :: "bkey_format_state \<Rightarrow> nat \<Rightarrow> u64" where
  "smin s i \<equiv> min (field_min s ! i) (field_max s ! i)"

definition shape_ok :: "bkey_format \<Rightarrow> bool" where
  "shape_ok f \<longleftrightarrow> nr_fields f = 6 \<and> length (bits_per_field f) = 6 \<and> length (field_offset f) = 6"

lemma shape_ok_set [simp]: "shape_ok (set_format_field f i b off) \<longleftrightarrow> shape_ok f"
  by (simp add: shape_ok_def set_format_field_simps)

lemma covers_set_other:
  "j \<noteq> i \<Longrightarrow> covers (set_format_field f i b off) j lo hi \<longleftrightarrow> covers f j lo hi"
  by (simp add: covers_def field_ok_def set_format_field_simps)

lemma fbits_set_before:
  "n \<le> i \<Longrightarrow> fbits (set_format_field f i b off) [0..<n] = fbits f [0..<n]"
  by (rule map_cong) (auto simp: set_format_field_simps)

definition done_inv :: "bkey_format_state \<Rightarrow> nat \<Rightarrow> bkey_format_state \<times> bkey_format \<times> nat \<Rightarrow> bool" where
  "done_inv s n = (\<lambda>(s', ret, bits).
     length (field_min s') = 6 \<and> field_max s' = field_max s \<and>
     (\<forall>i. n \<le> i \<longrightarrow> field_min s' ! i = field_min s ! i) \<and> shape_ok ret \<and>
     (\<forall>i < n. covers ret i (smin s i) (field_max s ! i)) \<and>
     (BKEY_FIELD_SIZE < n \<longrightarrow> field_offset ret ! BKEY_FIELD_SIZE = 0) \<and>
     bits = KEY_PACKED_BITS_START + sum_list (fbits ret [0..<n]))"

lemma format_done_field_inv:
  assumes s: "state_ok s" and n: "n < 6" and inv: "done_inv s n (s', ret, bits)"
  shows "done_inv s (Suc n) (format_done_field n (s', ret, bits))"
proof -
  have inv': "length (field_min s') = 6" "field_max s' = field_max s"
      "field_min s' ! n = field_min s ! n" "shape_ok ret"
      "\<forall>i < n. covers ret i (smin s i) (field_max s ! i)"
      "BKEY_FIELD_SIZE < n \<longrightarrow> field_offset ret ! BKEY_FIELD_SIZE = 0"
      "bits = KEY_PACKED_BITS_START + sum_list (fbits ret [0..<n])"
    using inv by (simp_all add: done_inv_def)
  let ?mn = "smin s n" and ?mx = "field_max s ! n"
  define r where "r = set_format_field ret n (fls64 (?mx - ?mn)) ?mn"
  have len: "n < length (bits_per_field ret)" "n < length (field_offset ret)"
    using inv'(4) n by (simp_all add: shape_ok_def)
  have "unat (?mx - ?mn) < 2 ^ fls64 (?mx - ?mn)" using fls64_le_iff [of "?mx - ?mn"] by blast
  then have "covers r n ?mn ?mx"
    unfolding r_def using s n len by (intro set_format_field_covers) (simp_all add: state_ok_def)
  moreover have "covers r i (smin s i) (field_max s ! i)" if "i < n" for i
    using inv'(5) that by (simp add: r_def covers_set_other)
  ultimately have c: "\<forall>i < Suc n. covers r i (smin s i) (field_max s ! i)"
    by (simp add: less_Suc_eq)
  have o3: "field_offset r ! 3 = 0" if "3 < Suc n"
  proof (cases "n = 3")
    case True
    then have "?mn = 0" using s by (simp add: state_ok_def min_def)
    then have "unat (field_offset r ! n) = 0"
      unfolding r_def using set_format_field_offset [OF n len(2)] by (simp add: min_def)
    then show ?thesis using True by (simp add: unat_eq_zero)
  qed (use that inv'(6) in \<open>simp add: r_def set_format_field_simps\<close>)
  have "fbits r [0..<n] = fbits ret [0..<n]" unfolding r_def by (rule fbits_set_before) simp
  then have "sum_list (fbits r [0..<n]) = sum_list (fbits ret [0..<n])" by (simp only:)
  then have "bits + bits_per_field r ! n = 24 + sum_list (fbits r [0..<Suc n])"
    using inv'(7) by simp
  then show ?thesis
    using c o3 inv inv'(1-4) n
    by (simp add: format_done_field_def done_inv_def r_def [symmetric] Let_def)
      (simp add: r_def)
qed

lemma format_done_fields:
  assumes "state_ok s" "n \<le> 6"
  shows "done_inv s n (fold format_done_field [0..<n]
    (s, \<lparr>key_u64s = 0, nr_fields = BKEY_NR_FIELDS, bits_per_field = replicate BKEY_NR_FIELDS 0,
         field_offset = replicate BKEY_NR_FIELDS 0\<rparr>, KEY_PACKED_BITS_START))"
  using assms(2)
proof (induction n)
  case 0
  then show ?case using assms(1) by (simp add: done_inv_def state_ok_def shape_ok_def)
next
  case (Suc n)
  then show ?case
    using format_done_field_inv [OF assms(1), of n] by (simp add: prod.split_sel) (metis prod.collapse)
qed

lemma round_up_ge: "x \<le> round_up x 8"
proof -
  have "int x - 1 \<le> (int x - 1) OR 7" by (rule or_greater_eq) simp
  then show ?thesis by (simp add: round_up_def)
qed

lemma sum_list_update_one:
  assumes "i < n" "\<forall>j. j \<noteq> i \<longrightarrow> g j = f j"
  shows "sum_list (map g [0..<n]) + f i = sum_list (map f [0..<n]) + (g i :: nat)"
proof -
  have "sum h {0..<n} = h i + sum h ({0..<n} - {i})" for h :: "nat \<Rightarrow> nat"
    using assms(1) by (intro sum.remove) simp_all
  from this [of g] this [of f] assms(2) show ?thesis
    by (simp add: interv_sum_list_conv_sum_set_nat)
qed

definition round_inv :: "bkey_format_state \<Rightarrow> nat \<Rightarrow> nat \<Rightarrow> bkey_format \<times> nat \<Rightarrow> bool" where
  "round_inv s u t = (\<lambda>(ret, bits). shape_ok ret \<and> key_u64s ret = u \<and>
     (\<forall>i < 6. covers ret i (smin s i) (field_max s ! i)) \<and>
     t \<le> KEY_PACKED_BITS_START + sum_list (fbits ret [0..<6]) \<and>
     KEY_PACKED_BITS_START + sum_list (fbits ret [0..<6]) + bits \<le> 64 * u)"

lemma format_done_round_inv:
  assumes n: "n < 6" and inv: "round_inv s u t (ret, bits)"
  shows "round_inv s u t (format_done_round n (ret, bits))"
proof (cases "round_up (bits_per_field ret ! n) 8 - bits_per_field ret ! n \<le> bits")
  case True
  let ?b = "bits_per_field ret ! n"
  define d where "d = round_up ?b 8 - ?b"
  define r where "r = set_format_field ret n (?b + d) (field_offset ret ! n)"
  have inv': "shape_ok ret" "\<forall>i < 6. covers ret i (smin s i) (field_max s ! i)"
    using inv by (simp_all add: round_inv_def)
  have len: "n < length (bits_per_field ret)" "n < length (field_offset ret)"
    using inv'(1) n by (simp_all add: shape_ok_def)
  have "covers r n (smin s n) (field_max s ! n)"
    unfolding r_def using n len inv'(2) by (intro set_format_field_widen) simp_all
  then have c: "\<forall>i < 6. covers r i (smin s i) (field_max s ! i)"
    using inv'(2) covers_set_other unfolding r_def by metis
  have "?b \<le> ubits n" using inv'(2) n by (simp add: covers_def field_ok_def)
  moreover have "bits_per_field r ! n = min (?b + d) (ubits n)"
    unfolding r_def using len(1) by (simp add: set_format_field_simps)
  moreover have "sum_list (fbits r [0..<6]) + ?b = sum_list (fbits ret [0..<6]) + bits_per_field r ! n"
    using n by (intro sum_list_update_one) (simp_all add: r_def set_format_field_simps)
  ultimately have "sum_list (fbits ret [0..<6]) \<le> sum_list (fbits r [0..<6])"
      "sum_list (fbits r [0..<6]) \<le> sum_list (fbits ret [0..<6]) + d" by linarith+
  moreover have "t \<le> 24 + sum_list (fbits ret [0..<6])" "24 + sum_list (fbits ret [0..<6]) + bits \<le> 64 * u"
    using inv by (simp_all only: round_inv_def split_conv)
  moreover have "d \<le> bits" using True by (simp add: d_def)
  ultimately have "t \<le> 24 + sum_list (fbits r [0..<6])"
      "24 + sum_list (fbits r [0..<6]) + (bits - d) \<le> 64 * u" by linarith+
  moreover have "format_done_round n (ret, bits) = (r, bits - d)"
    using True by (simp add: format_done_round_def Let_def r_def d_def)
  moreover have "shape_ok r" "key_u64s r = u" using inv by (simp_all add: r_def round_inv_def set_format_field_simps)
  ultimately show ?thesis using c by (simp only: round_inv_def split_conv)
next
  case False
  then show ?thesis using inv by (simp add: format_done_round_def Let_def)
qed

lemma format_done_rounds:
  assumes "round_inv s u t x" "\<forall>i \<in> set js. i < 6"
  shows "round_inv s u t (fold format_done_round js x)"
  using assms
proof (induction js arbitrary: x)
  case (Cons j js)
  moreover obtain ret bits where "x = (ret, bits)" by (cases x)
  ultimately show ?case using format_done_round_inv [of j s u t ret bits] by simp
qed simp

lemma extend_size_covers:
  assumes "covers f 3 lo hi" "field_offset f ! 3 = 0" "length (bits_per_field f) = 6"
    and "bits_per_field f ! 3 + b \<le> 32"
  shows "covers (f\<lparr>bits_per_field := (bits_per_field f)[3 := bits_per_field f ! 3 + b]\<rparr>) 3 lo hi"
proof -
  have "(2::nat) ^ (bits_per_field f ! 3 + b) \<le> 2 ^ 32" using assms(4) by (rule power_increasing) simp
  moreover have "(2::nat) ^ (bits_per_field f ! 3) \<le> 2 ^ (bits_per_field f ! 3 + b)"
    by (rule power_increasing) simp_all
  then have "unat hi < 2 ^ (bits_per_field f ! 3 + b)"
    using assms(1,2) by (simp add: covers_def del: power_increasing_iff)
  ultimately show ?thesis
    using assms unfolding covers_def field_ok_def
    by (simp add: bch2_bkey_format_current_def)
qed

lemma format_done_covers:
  assumes s: "state_ok s" and f: "f = fst (bch2_bkey_format_done s)"
  shows "fmt_valid f" "i < 6 \<Longrightarrow> covers f i (smin s i) (field_max s ! i)"
proof -
  obtain s1 r1 bits1 where 1: "fold format_done_field [0..<6]
    (s, \<lparr>key_u64s = 0, nr_fields = 6, bits_per_field = replicate 6 0,
         field_offset = replicate 6 0\<rparr>, 24) = (s1, r1, bits1)" by (metis prod_cases3)
  have inv1: "shape_ok r1" "\<forall>i < 6. covers r1 i (smin s i) (field_max s ! i)"
      "field_offset r1 ! 3 = 0" "bits1 = 24 + sum_list (fbits r1 [0..<6])"
    using format_done_fields [OF s, of 6] unfolding 1 by (simp_all add: done_inv_def)
  define b where "b = (if bits_per_field r1 ! 3 \<noteq> 0 then min 4 (32 - bits_per_field r1 ! 3) else 0)"
  define u where "u = DIV_ROUND_UP (bits1 + b) 64"
  define r2 where "r2 = r1\<lparr>bits_per_field := (bits_per_field r1)[3 := bits_per_field r1 ! 3 + b]\<rparr>
    \<lparr>key_u64s := u\<rparr>"
  have len: "length (bits_per_field r1) = 6" using inv1(1) by (simp add: shape_ok_def)
  have "bits_per_field r1 ! 3 \<le> 32"
    using inv1(2) [rule_format, of 3]
    by (simp add: covers_def field_ok_def bch2_bkey_format_current_def)
  then have "bits_per_field r1 ! 3 + b \<le> 32" by (auto simp: b_def min_def)
  then have "covers (r1\<lparr>bits_per_field := (bits_per_field r1)[3 := bits_per_field r1 ! 3 + b]\<rparr>) 3
      (smin s 3) (field_max s ! 3)"
    using inv1 len by (intro extend_size_covers) simp_all
  then have c2: "\<forall>i < 6. covers r2 i (smin s i) (field_max s ! i)"
    using inv1(2) len by (auto simp: r2_def covers_def field_ok_def nth_list_update)
  have "sum_list (fbits r2 [0..<6]) + bits_per_field r1 ! 3 =
      sum_list (fbits r1 [0..<6]) + bits_per_field r2 ! 3"
    by (rule sum_list_update_one) (simp_all add: r2_def)
  then have sum2: "bits1 + b = 24 + sum_list (fbits r2 [0..<6])" using len inv1(4) by (simp add: r2_def)
  have ub: "bits1 + b \<le> 64 * u" "64 * u < bits1 + b + 64"
    unfolding u_def by (rule DIV_ROUND_UP_bounds, simp)+
  then have "24 + sum_list (fbits r2 [0..<6]) + (u * 64 - (bits1 + b)) \<le> 64 * u"
    using sum2 by linarith
  moreover have "shape_ok r2" and u2: "key_u64s r2 = u" using inv1(1) by (simp_all add: r2_def shape_ok_def)
  ultimately have "round_inv s u (bits1 + b) (r2, u * 64 - (bits1 + b))"
    using c2 sum2 by (simp only: round_inv_def split_conv) simp
  then have inv3: "round_inv s u (bits1 + b) (fold format_done_round [0..<6] (r2, u * 64 - (bits1 + b)))"
    by (rule format_done_rounds) simp
  have "f = fst (fold format_done_round [0..<6] (r2, u * 64 - (bits1 + b)))"
    unfolding f bch2_bkey_format_done_def Let_def 1 split_conv b_def [symmetric] u_def [symmetric]
    using u2 by (simp add: r2_def [symmetric] case_prod_unfold)
  then obtain bits where inv: "round_inv s u (bits1 + b) (f, bits)" using inv3 by (metis prod.collapse)
  then have fin: "shape_ok f" "key_u64s f = u" "\<forall>i < 6. covers f i (smin s i) (field_max s ! i)"
      "bits1 + b \<le> 24 + sum_list (fbits f [0..<6])" "24 + sum_list (fbits f [0..<6]) + bits \<le> 64 * u"
    unfolding round_inv_def split_conv by blast+
  have "DIV_ROUND_UP (24 + sum_list (fbits f [0..<6])) 64 = u"
    using fin(4,5) ub by (intro DIV_ROUND_UP_unique) linarith+
  then show "fmt_valid f" using fin(1-3) by (simp add: fmt_valid_def shape_ok_def covers_def all_fields_def)
  show "i < 6 \<Longrightarrow> covers f i (smin s i) (field_max s ! i)" using fin(3) by blast
qed

section \<open>Adding keys to a state\<close>

text \<open>The state covers the fields of a key when each lies between its minimum and maximum.\<close>

definition in_state :: "bkey_format_state \<Rightarrow> bkey \<Rightarrow> bool" where
  "in_state s k \<longleftrightarrow> (\<forall>i < 6. field_min s ! i \<le> bkey_fields k ! i \<and> bkey_fields k ! i \<le> field_max s ! i)"

lemma bkey_fields_less: "i < 6 \<Longrightarrow> unat (bkey_fields k ! i) < 2 ^ ubits i"
proof -
  have u: "unat (ucast (w :: u32) :: u64) < 2 ^ 32" for w
    using unat_less [of w] by (simp add: unsigned_ucast_eq take_bit_eq_mod)
  assume "i < 6"
  then have "i = 0 \<or> i = 1 \<or> i = 2 \<or> i = 3 \<or> i = 4 \<or> i = 5" by auto
  then show ?thesis using u by (auto simp: bkey_fields_def bch2_bkey_format_current_def)
qed

lemma length_bkey_format_add [simp]:
  "length (field_min (bkey_format_add s j v)) = length (field_min s)"
  "length (field_max (bkey_format_add s j v)) = length (field_max s)"
  by (simp_all add: bkey_format_add_def)

lemma bkey_format_add_nth:
  assumes "length (field_min s) = 6" "length (field_max s) = 6" "i < 6"
  shows "field_min (bkey_format_add s j v) ! i = (if i = j then min (field_min s ! i) v else field_min s ! i)"
    and "field_max (bkey_format_add s j v) ! i = (if i = j then max (field_max s ! i) v else field_max s ! i)"
  using assms by (auto simp: bkey_format_add_def nth_list_update)

lemma format_add_key_nth:
  assumes l: "length (field_min s) = 6" "length (field_max s) = 6"
  shows "i < 6 \<Longrightarrow> field_min (bch2_bkey_format_add_key s k) ! i = min (field_min s ! i) (bkey_fields k ! i)"
    and "i < 6 \<Longrightarrow> field_max (bch2_bkey_format_add_key s k) ! i = max (field_max s ! i) (bkey_fields k ! i)"
    and "length (field_min (bch2_bkey_format_add_key s k)) = 6"
    and "length (field_max (bch2_bkey_format_add_key s k)) = 6"
proof -
  define step where "step = (\<lambda>(i, v) s. bkey_format_add s i v)"
  have "length (field_min (fold step (map (\<lambda>j. (j, bkey_fields k ! j)) [0..<n]) s)) = 6 \<and>
      length (field_max (fold step (map (\<lambda>j. (j, bkey_fields k ! j)) [0..<n]) s)) = 6 \<and>
      (\<forall>i < 6. field_min (fold step (map (\<lambda>j. (j, bkey_fields k ! j)) [0..<n]) s) ! i =
          (if i < n then min (field_min s ! i) (bkey_fields k ! i) else field_min s ! i) \<and>
        field_max (fold step (map (\<lambda>j. (j, bkey_fields k ! j)) [0..<n]) s) ! i =
          (if i < n then max (field_max s ! i) (bkey_fields k ! i) else field_max s ! i))" for n
    by (induction n) (auto simp: l step_def bkey_format_add_nth less_Suc_eq)
  moreover have "zip [0..<6] (bkey_fields k) = map (\<lambda>j. (j, bkey_fields k ! j)) [0..<6]"
    by (rule nth_equalityI) (simp_all add: all_fields_def)
  ultimately show "i < 6 \<Longrightarrow> field_min (bch2_bkey_format_add_key s k) ! i = min (field_min s ! i) (bkey_fields k ! i)"
    "i < 6 \<Longrightarrow> field_max (bch2_bkey_format_add_key s k) ! i = max (field_max s ! i) (bkey_fields k ! i)"
    "length (field_min (bch2_bkey_format_add_key s k)) = 6"
    "length (field_max (bch2_bkey_format_add_key s k)) = 6"
    unfolding bch2_bkey_format_add_key_def step_def [symmetric] by simp_all
qed

lemma state_ok_init: "state_ok bch2_bkey_format_init"
  by (auto simp: state_ok_def bch2_bkey_format_init_def)

lemma format_add_key_ok:
  assumes "state_ok s"
  shows "state_ok (bch2_bkey_format_add_key s k)" "in_state (bch2_bkey_format_add_key s k) k"
    and "in_state s k' \<Longrightarrow> in_state (bch2_bkey_format_add_key s k) k'"
proof -
  have l: "length (field_min s) = 6" "length (field_max s) = 6" using assms by (simp_all add: state_ok_def)
  note nth = format_add_key_nth [OF l]
  show "state_ok (bch2_bkey_format_add_key s k)"
    using assms nth bkey_fields_less [of _ k] by (simp add: state_ok_def max_def)
  show "in_state (bch2_bkey_format_add_key s k) k"
    by (simp add: in_state_def nth)
  show "in_state s k' \<Longrightarrow> in_state (bch2_bkey_format_add_key s k) k'"
    by (auto simp: in_state_def nth min.coboundedI1 max.coboundedI1)
qed

lemma format_add_keys_ok:
  assumes "state_ok s"
  shows "state_ok (fold (\<lambda>k s. bch2_bkey_format_add_key s k) ks s) \<and>
    (\<forall>k. k \<in> set ks \<or> in_state s k \<longrightarrow> in_state (fold (\<lambda>k s. bch2_bkey_format_add_key s k) ks s) k)"
  using assms by (induction ks arbitrary: s) (auto simp: format_add_key_ok)

lemma format_done_fits:
  assumes "state_ok s" "in_state s k"
  shows "bkey_fits (fst (bch2_bkey_format_done s)) k"
  unfolding bkey_fits_def list_all2_conv_all_nth
proof (intro conjI allI impI)
  fix i assume "i < length all_fields"
  then have i: "i < 6" "all_fields ! i = i" by (simp_all add: all_fields_def)
  show "fits (fst (bch2_bkey_format_done s)) (all_fields ! i) (bkey_fields k ! i)"
    unfolding i(2)
  proof (rule covers_fits [OF format_done_covers(2) [OF assms(1) refl i(1)]])
    show "smin s i \<le> bkey_fields k ! i" "bkey_fields k ! i \<le> field_max s ! i"
      using assms(2) i(1) by (auto simp: in_state_def min.coboundedI1)
  qed
qed simp

section \<open>Positions of packed keys\<close>

abbreviation pos_fields :: "nat list" where
  "pos_fields \<equiv> [0, 1, 2]"

text \<open>The raw position fields and the position they stand for, without overflow.\<close>

lemma bkey_format_key_bits_eq: "bkey_format_key_bits f = sum_list (fbits f pos_fields)"
  by (simp add: bkey_format_key_bits_def)

lemma all_fields_eq: "all_fields = [0, 1, 2, 3, 4, 5]"
  by (simp add: all_fields_def upt_rec)

lemma key_bits_le: "fmt_fits f \<Longrightarrow> bkey_format_key_bits f + 24 \<le> 64 * key_u64s f"
  by (simp add: fmt_fits_def bkey_format_key_bits_def all_fields_eq)

lemma unpack_pos_eq:
  assumes f: "fmt_fits f" and k: "key_u64s f \<le> length k"
  shows "bkey_unpack_pos_local f k = Some (SPOS (unpacked_fields f k ! 0) (unpacked_fields f k ! 1)
    (ucast (unpacked_fields f k ! 2)))"
proof -
  have b: "bits_per_field f ! 0 \<le> 64" "bits_per_field f ! 1 \<le> 64" "bits_per_field f ! 2 \<le> 64"
    using f by (simp_all add: fmt_fits_def all_fields_eq)
  have s: "bits_per_field f ! 0 + bits_per_field f ! 1 + bits_per_field f ! 2 < 64 * key_u64s f"
    using key_bits_le [OF f] by (simp add: bkey_format_key_bits_def)
  show ?thesis
    unfolding bkey_unpack_pos_local_def get_inc_fields_all(1) [OF f k]
    using b s k
    by (simp add: get_inc_field_at unpacked_fields_def all_fields_eq add_offsets_def)
qed

lemma unpack_pos_of_key:
  assumes "fmt_fits f" "key_u64s f \<le> length k"
  shows "bkey_unpack_pos_local f k = map_option k_p (bch2_bkey_unpack_key f k)"
  using get_inc_fields_all [OF assms] unpack_pos_eq [OF assms]
  by (simp add: bch2_bkey_unpack_key_def all_fields_def [symmetric])

lemma field_value:
  assumes "field_ok f i" "i < 6" "d < 2 ^ (bits_per_field f ! i)"
  shows "unat (word_of_nat d + field_offset f ! i) = d + unat (field_offset f ! i)"
    and "d + unat (field_offset f ! i) < 2 ^ ubits i"
proof -
  show lt: "d + unat (field_offset f ! i) < 2 ^ ubits i"
    using assms by (simp add: field_ok_def)
  moreover have "(2::nat) ^ ubits i \<le> 2 ^ 64"
    using ubits_cases [OF assms(2)] by auto
  ultimately have "d + unat (field_offset f ! i) < 2 ^ LENGTH(64)" by simp
  moreover have "word_of_nat d + field_offset f ! i = word_of_nat (d + unat (field_offset f ! i))" by simp
  ultimately show "unat (word_of_nat d + field_offset f ! i) = d + unat (field_offset f ! i)"
    by (simp only: unat_of_nat take_bit_eq_mod mod_less)
qed

definition raw_pos :: "bkey_format \<Rightarrow> u64 list \<Rightarrow> nat \<times> nat \<times> nat" where
  "raw_pos f k = (let ds = raw_fields f k 0 pos_fields in (ds ! 0, ds ! 1, ds ! 2))"

lemma unpack_pos_raw:
  assumes v: "fmt_valid f" and k: "key_u64s f \<le> length k" and r: "raw_pos f k = (a, b, c)"
  obtains p where "bkey_unpack_pos_local f k = Some p"
    "unat (bp_inode p) = a + unat (field_offset f ! 0)"
    "unat (bp_offset p) = b + unat (field_offset f ! 1)"
    "unat (bp_snapshot p) = c + unat (field_offset f ! 2)"
    "a < 2 ^ (bits_per_field f ! 0)" "b < 2 ^ (bits_per_field f ! 1)" "c < 2 ^ (bits_per_field f ! 2)"
    "top_num k (key_u64s f) (bkey_format_key_bits f) =
      (a * 2 ^ (bits_per_field f ! 1) + b) * 2 ^ (bits_per_field f ! 2) + c"
proof -
  have fits: "fmt_fits f" using v by (rule fmt_valid_fits)
  have ok: "field_ok f 0" "field_ok f 1" "field_ok f 2" using v by (simp_all add: fmt_valid_def)
  have ds: "raw_fields f k 0 pos_fields = [a, b, c]"
    using r by (simp add: raw_pos_def Let_def)
  have lt: "a < 2 ^ (bits_per_field f ! 0)" "b < 2 ^ (bits_per_field f ! 1)" "c < 2 ^ (bits_per_field f ! 2)"
    using raw_fields_less [of f pos_fields k 0] unfolding ds by simp_all
  have uf: "unpacked_fields f k ! 0 = word_of_nat a + field_offset f ! 0"
      "unpacked_fields f k ! 1 = word_of_nat b + field_offset f ! 1"
      "unpacked_fields f k ! 2 = word_of_nat c + field_offset f ! 2"
    using ds by (simp_all add: unpacked_fields_def all_fields_eq add_offsets_def)
  have c32: "c + unat (field_offset f ! 2) < 2 ^ 32"
    using field_value(2) [OF ok(3) _ lt(3)] by (simp add: bch2_bkey_format_current_def)
  then have "unat (ucast (word_of_nat c + field_offset f ! 2) :: u32) = c + unat (field_offset f ! 2)"
    using field_value(1) [OF ok(3) _ lt(3)] by (simp add: unsigned_ucast_eq take_bit_eq_mod)
  moreover have "top_num k (key_u64s f) (bkey_format_key_bits f) =
      (a * 2 ^ (bits_per_field f ! 1) + b) * 2 ^ (bits_per_field f ! 2) + c"
    using radix_raw_fields [where c = 0 and f = f and js = pos_fields and k = k] key_bits_le [OF fits]
    unfolding ds bkey_format_key_bits_eq by (simp add: top_num_0)
  ultimately show ?thesis
    using that [OF unpack_pos_eq [OF fits k]] lt field_value(1) [OF ok(1) _ lt(1)]
      field_value(1) [OF ok(2) _ lt(2)] uf(2)
    by (simp add: uf)
qed

lemma ucast_64_32: "unat (v :: u64) < 2 ^ 32 \<Longrightarrow> ucast (ucast v :: u32) = v"
  by (rule word_unat_eq_iff [THEN iffD2]) (simp only: unat_ucast_mod, simp)

lemma unpacked_fields_less:
  assumes "fmt_valid f" "i < 6"
  shows "unat (unpacked_fields f k ! i) < 2 ^ ubits i"
proof -
  have "list_all2 (\<lambda>b d. d < 2 ^ b) (fbits f all_fields) (raw_fields f k 0 all_fields)"
    by (rule raw_fields_less)
  then have d: "raw_fields f k 0 all_fields ! i < 2 ^ (bits_per_field f ! i)"
    using assms(2) by (simp add: list_all2_conv_all_nth all_fields_def)
  have "unpacked_fields f k ! i = word_of_nat (raw_fields f k 0 all_fields ! i) + field_offset f ! i"
    using assms(2) by (simp add: unpacked_fields_def add_offsets_def all_fields_def)
  then show ?thesis
    using field_value [OF _ assms(2) d] assms by (simp add: fmt_valid_def)
qed

lemma unpack_key_bkey_fields:
  assumes v: "fmt_valid f" and k: "key_u64s f \<le> length k"
  obtains x where "bch2_bkey_unpack_key f k = Some x" "bkey_fields x = unpacked_fields f k"
proof -
  let ?vs = "unpacked_fields f k"
  have "unat (?vs ! 2) < 2 ^ 32" "unat (?vs ! 3) < 2 ^ 32" "unat (?vs ! 4) < 2 ^ 32"
    using unpacked_fields_less [OF v, of 2 k] unpacked_fields_less [OF v, of 3 k]
      unpacked_fields_less [OF v, of 4 k] by (simp_all add: bch2_bkey_format_current_def)
  moreover have "map (nth ?vs) all_fields = ?vs" using map_nth [of ?vs] by (simp add: all_fields_def)
  ultimately show ?thesis
    using that get_inc_fields_all [OF fmt_valid_fits [OF v] k]
    by (simp add: bch2_bkey_unpack_key_def all_fields_def [symmetric] bkey_fields_def ucast_64_32
        all_fields_eq [symmetric]) (simp add: all_fields_eq)
qed

section \<open>Properties\<close>

lemma pack_unpack_value_cases:
  assumes "fmt_fits f" "key_u64s f \<le> length tmp"
    "k_format (i_k src) = KEY_FORMAT_CURRENT" "k_pad (i_k src) = 0"
    "unat (k_u64s (i_k src)) = 5 + n" "length (i_v src) = n" "key_u64s f + n < 256"
    "key_u64s f + n \<le> length dst" "length dst_v = n"
  shows "\<exists>ok dst'. bch2_bkey_pack tmp dst src f = Some (ok, dst') \<and> (ok \<longleftrightarrow> bkey_fits f (i_k src)) \<and>
    (ok \<longrightarrow> bch2_bkey_unpack f dst_v dst' = Some src)"
proof (cases "bkey_fits f (i_k src)")
  case True
  then show ?thesis using pack_unpack_value [of f tmp src n dst dst_v] assms by auto
next
  case False
  then show ?thesis using pack_key_words [OF assms(1,2), of "i_k src"] by (auto simp: bch2_bkey_pack_def)
qed

text \<open>
  C2: with any format that \<^verbatim>\<open>bch2_bkey_format_invalid\<close> accepts, \<^verbatim>\<open>bch2_bkey_pack\<close> stays inside
  its buffers, returns true exactly when every field of the key is between the field's offset
  and offset plus width, and then \<^verbatim>\<open>bch2_bkey_unpack\<close> of the packed key gives back the key
  and its value.
\<close>

theorem bkey_pack_unpack_roundtrip:
  assumes "bch2_bkey_format_invalid f = Inr ()" "key_u64s f \<le> length tmp"
    and "k_format (i_k src) = KEY_FORMAT_CURRENT" "k_pad (i_k src) = 0"
    and "unat (k_u64s (i_k src)) = 5 + n" "length (i_v src) = n" "key_u64s f + n < 256"
    and "key_u64s f + n \<le> length dst" "length dst_v = n"
  shows "\<exists>ok dst'. bch2_bkey_pack tmp dst src f = Some (ok, dst') \<and>
    (ok \<longleftrightarrow> (\<forall>i < 6. field_offset f ! i \<le> bkey_fields (i_k src) ! i \<and>
      unat (bkey_fields (i_k src) ! i - field_offset f ! i) < 2 ^ (bits_per_field f ! i))) \<and>
    (ok \<longrightarrow> bch2_bkey_unpack f dst_v dst' = Some src)"
proof -
  have "fmt_fits f" using assms(1) by (simp add: format_invalid_iff fmt_valid_fits)
  moreover have "bkey_fits f k \<longleftrightarrow> (\<forall>i < 6. field_offset f ! i \<le> bkey_fields k ! i \<and>
      unat (bkey_fields k ! i - field_offset f ! i) < 2 ^ (bits_per_field f ! i))" for k
    by (auto simp: bkey_fits_def list_all2_conv_all_nth all_fields_def fits_def)
  ultimately show ?thesis
    using pack_unpack_value_cases [of f tmp src n dst dst_v] assms(2-) by simp
qed

definition witness_format :: bkey_format where
  "witness_format = \<lparr>key_u64s = 1, nr_fields = 6, bits_per_field = [8, 16, 0, 8, 0, 0],
     field_offset = [4096, 0, 4294967295, 0, 0, 0]\<rparr>"

definition witness_key :: bkey_i where
  "witness_key = \<lparr>i_k = \<lparr>k_u64s = 6, k_format = 1, k_needs_whiteout = False, k_type = 3, k_pad = 0,
     k_bversion = \<lparr>bv_hi = 0, bv_lo = 0\<rparr>, k_size = 8, k_p = SPOS 4100 512 4294967295\<rparr>, i_v = [77]\<rparr>"

lemma witness_format_valid: "bch2_bkey_format_invalid witness_format = Inr ()"
  unfolding format_invalid_iff fmt_valid_def all_less_6
  by (simp add: field_ok_def witness_format_def bch2_bkey_format_current_def all_fields_eq
      DIV_ROUND_UP_def)

theorem bkey_pack_unpack_roundtrip_witness:
  "\<exists>dst'. bch2_bkey_pack [1, 2, 3, 4, 5] [0, 0, 0] witness_key witness_format = Some (True, dst') \<and>
     bch2_bkey_unpack witness_format [0] dst' = Some witness_key"
proof -
  have "\<forall>i < 6. field_offset witness_format ! i \<le> bkey_fields (i_k witness_key) ! i \<and>
      unat (bkey_fields (i_k witness_key) ! i - field_offset witness_format ! i)
        < 2 ^ (bits_per_field witness_format ! i)"
    unfolding all_less_6 by (simp add: witness_format_def witness_key_def bkey_fields_def)
  moreover have "key_u64s witness_format \<le> length [1, 2, 3, 4, 5]" "key_u64s witness_format + 1 < 256"
      "k_format (i_k witness_key) = 1" "k_pad (i_k witness_key) = 0"
      "unat (k_u64s (i_k witness_key)) = 5 + 1" "length (i_v witness_key) = 1"
      "key_u64s witness_format + 1 \<le> length [0, 0, 0]"
    by (simp_all add: witness_format_def witness_key_def)
  ultimately show ?thesis
    using bkey_pack_unpack_roundtrip [OF witness_format_valid, of "[1, 2, 3, 4, 5]" witness_key 1
        "[0, 0, 0]" "[0]"] by auto
qed

text \<open>
  C22: the format that \<^verbatim>\<open>bch2_bkey_format_done\<close> computes from a freshly initialised state to
  which a list of keys was added passes \<^verbatim>\<open>bch2_bkey_format_invalid\<close>, and every one of these
  keys packs with it and unpacks to itself.
\<close>

theorem format_done_packs_all:
  assumes "f = fst (bch2_bkey_format_done
      (fold (\<lambda>k s. bch2_bkey_format_add_key s k) ks bch2_bkey_format_init))"
    and "k \<in> set ks" "k_format k = KEY_FORMAT_CURRENT" "k_pad k = 0" "key_u64s f \<le> length out"
  shows "bch2_bkey_format_invalid f = Inr () \<and>
    (\<exists>out'. bch2_bkey_pack_key out k f = Some (True, out') \<and> bch2_bkey_unpack_key f out' = Some k)"
proof -
  have st: "state_ok (fold (\<lambda>k s. bch2_bkey_format_add_key s k) ks bch2_bkey_format_init)"
      "in_state (fold (\<lambda>k s. bch2_bkey_format_add_key s k) ks bch2_bkey_format_init) k"
    using format_add_keys_ok [OF state_ok_init, of ks] assms(2) by simp_all
  have v: "fmt_valid f" using format_done_covers(1) [OF st(1)] assms(1) by simp
  moreover have "bkey_fits f k" using format_done_fits [OF st] assms(1) by simp
  ultimately show ?thesis
    using pack_unpack [OF fmt_valid_fits [OF v] assms(5) _ assms(3,4)] format_invalid_iff by blast
qed

theorem format_done_packs_all_witness:
  "let k = i_k witness_key;
       f = fst (bch2_bkey_format_done (bch2_bkey_format_add_key bch2_bkey_format_init k))
   in bch2_bkey_format_invalid f = Inr () \<and>
    (\<exists>out'. bch2_bkey_pack_key (replicate (key_u64s f) 0) k f = Some (True, out') \<and>
       bch2_bkey_unpack_key f out' = Some k)"
  using format_done_packs_all [of _ "[i_k witness_key]" "i_k witness_key",
      OF refl _ _ _ eq_imp_le [OF length_replicate [symmetric]], of 0]
  by (simp add: Let_def witness_key_def)



end
