(* ===== verification/Bkey_Cmp.thy ===== *)
theory Bkey_Cmp
  imports Bkey_Format
begin

text \<open>
  Comparing packed keys without unpacking them (\<^verbatim>\<open>libbcachefs/bkey_cmp.h\<close>, \<^verbatim>\<open>bkey.c\<close>): the
  portable word loop and the x86-64 assembly loop of \<^verbatim>\<open>__bkey_cmp_bits\<close>, the search helpers
  that look for a differing or a set bit, and the comparison functions on keys that may
  each be packed or not. They all work on the number formed by the key bits, whose order
  is the order of the unpacked positions.
\<close>

section \<open>Definitions\<close>

record btree =
  b_format :: bkey_format
  b_nr_key_bits :: nat

function cmp_bits_loop :: "u64 list \<Rightarrow> u64 list \<Rightarrow> nat \<Rightarrow> nat \<Rightarrow> u64 \<Rightarrow> u64 \<Rightarrow> int option" where
  "cmp_bits_loop l r p nr_key_bits l_v r_v =
     (if nr_key_bits < 64
      then Some (cmp_int (drop_bit (64 - nr_key_bits) l_v) (drop_bit (64 - nr_key_bits) r_v))
      else let nr_key_bits = nr_key_bits - 64 in
           if nr_key_bits = 0 \<or> l_v \<noteq> r_v then Some (cmp_int l_v r_v)
           else case next_word p of
                  None \<Rightarrow> None
                | Some p \<Rightarrow>
                    (case (load_word l p, load_word r p) of
                       (Some l_v, Some r_v) \<Rightarrow> cmp_bits_loop l r p nr_key_bits l_v r_v
                     | _ \<Rightarrow> None))"
  by pat_completeness auto
termination
  by (relation "measure (\<lambda>(l, r, p, n, l_v, r_v). n)") auto

declare cmp_bits_loop.simps [simp del]

definition bkey_cmp_bits :: "u64 list \<Rightarrow> u64 list \<Rightarrow> nat \<Rightarrow> nat \<Rightarrow> int option" where
  "bkey_cmp_bits l r p nr_key_bits =
     (if nr_key_bits = 0 then Some 0
      else do {
        l_v \<leftarrow> load_word l p;
        r_v \<leftarrow> load_word r p;
        cmp_bits_loop l r p nr_key_bits l_v r_v })"

text \<open>
  The assembly loop: \<open>ecx\<close> is the signed count of bits left; the words are loaded before the
  count is checked; the final shift is by one and then by \<open>~ecx\<close>, taken modulo 64 as the
  processor does.
\<close>

function cmp_bits_asm :: "u64 list \<Rightarrow> u64 list \<Rightarrow> nat \<Rightarrow> int \<Rightarrow> int option" where
  "cmp_bits_asm l r p ecx =
     (case (load_word l p, load_word r p) of
        (Some r8, Some r9) \<Rightarrow>
          (let ecx = ecx - 64 in
           if ecx < 0
           then let cl = nat (NOT ecx) mod 64 in
                Some (cmp_int (drop_bit cl (drop_bit 1 r8)) (drop_bit cl (drop_bit 1 r9)))
           else if r8 \<noteq> r9 then Some (cmp_int r8 r9)
           else case next_word p of None \<Rightarrow> None | Some p \<Rightarrow> cmp_bits_asm l r p ecx)
      | _ \<Rightarrow> None)"
  by pat_completeness auto
termination
  by (relation "measure (\<lambda>(l, r, p, ecx). nat ecx)") auto

declare cmp_bits_asm.simps [simp del]

definition bkey_cmp_packed_format_checked :: "u64 list \<Rightarrow> u64 list \<Rightarrow> btree \<Rightarrow> int option" where
  "bkey_cmp_packed_format_checked l r b = do {
     p \<leftarrow> high_word (b_format b);
     bkey_cmp_bits l r p (b_nr_key_bits b) }"

definition bch2_bkey_cmp_packed :: "btree \<Rightarrow> u64 list \<Rightarrow> u64 list \<Rightarrow> int option" where
  "bch2_bkey_cmp_packed b l r =
     (if bkey_packed l \<and> bkey_packed r then bkey_cmp_packed_format_checked l r b
      else do {
        (l, r) \<leftarrow>
          (if bkey_packed l then do {
             u \<leftarrow> bch2_bkey_unpack_key (b_format b) l; Some (u, bkey_of_words r) }
           else if bkey_packed r then do {
             u \<leftarrow> bch2_bkey_unpack_key (b_format b) r; Some (bkey_of_words l, u) }
           else Some (bkey_of_words l, bkey_of_words r));
        Some (bpos_cmp (k_p l) (k_p r)) })"

definition bch2_bkey_cmp_left_packed :: "btree \<Rightarrow> u64 list \<Rightarrow> bpos \<Rightarrow> int option" where
  "bch2_bkey_cmp_left_packed b l r =
     (case packed_to_bkey_c l of
        Some l_unpacked \<Rightarrow> Some (bpos_cmp (k_p l_unpacked) r)
      | None \<Rightarrow> map_option (\<lambda>p. bpos_cmp p r) (bkey_unpack_pos_local (b_format b) l))"

text \<open>The most significant differing bit of two packed keys.\<close>

function greatest_differing_loop :: "u64 list \<Rightarrow> u64 list \<Rightarrow> nat \<Rightarrow> nat \<Rightarrow> u64 \<Rightarrow> u64 \<Rightarrow> nat option" where
  "greatest_differing_loop l r p nr_key_bits l_v r_v =
     (if nr_key_bits = 0 then Some 0
      else let (l_v, r_v, nr) =
             (if nr_key_bits < 64
              then (drop_bit (64 - nr_key_bits) l_v, drop_bit (64 - nr_key_bits) r_v, 0)
              else (l_v, r_v, nr_key_bits - 64)) in
           if l_v \<noteq> r_v then Some (fls64 (l_v XOR r_v) - 1 + nr)
           else case next_word p of
                  None \<Rightarrow> None
                | Some p \<Rightarrow>
                    (case (load_word l p, load_word r p) of
                       (Some l_v, Some r_v) \<Rightarrow> greatest_differing_loop l r p nr l_v r_v
                     | _ \<Rightarrow> None))"
  by pat_completeness auto
termination
  by (relation "measure (\<lambda>(l, r, p, n, l_v, r_v). n)") (auto split: if_splits)

declare greatest_differing_loop.simps [simp del]

definition bch2_bkey_greatest_differing_bit :: "btree \<Rightarrow> u64 list \<Rightarrow> u64 list \<Rightarrow> nat option" where
  "bch2_bkey_greatest_differing_bit b l_k r_k = do {
     p \<leftarrow> high_word (b_format b);
     l_v \<leftarrow> load_word l_k p;
     r_v \<leftarrow> load_word r_k p;
     greatest_differing_loop l_k r_k p (b_nr_key_bits b) l_v r_v }"

section \<open>Words of a key as digits\<close>

lemma cmp_int_div:
  "(a :: nat) div m \<noteq> b div m \<Longrightarrow> cmp_int a b = cmp_int (a div m) (b div m)"
  using div_le_mono [of a b m] div_le_mono [of b a m] by (auto simp: cmp_int_def)

lemma cmp_int_unat: "cmp_int (unat a) (unat b) = cmp_int a b"
  by (simp add: cmp_int_def word_less_nat_alt)

lemma cmp_int_add: "cmp_int (c + a) (c + b :: nat) = cmp_int a b"
  by (simp add: cmp_int_def)

lemma cmp_int_self [simp]: "cmp_int a a = 0"
  by (simp add: cmp_int_def)

text \<open>The first \<open>n\<close> bits of word \<open>p\<close>, when the \<open>q\<close> words above it have been read.\<close>

lemma key_bits_at_word:
  assumes u: "u = Suc (p + q)" "u \<le> length k" and n: "n \<le> 64"
  shows "key_bits_at k u (64 * q) n = unat (k ! p) div 2 ^ (64 - n)"
proof -
  have s: "64 * u - 64 * q - n = 64 * p + (64 - n)" using u n by simp
  define H where "H = wnum (drop (Suc p) (take u k))"
  have "drop p (take u k) = k ! p # drop (Suc p) (take u k)"
    using u by (simp add: Cons_nth_drop_Suc [symmetric])
  then have "wnum (take u k) div 2 ^ (64 * p) = unat (k ! p) + 2 ^ 64 * H"
    using wnum_drop [of p "take u k"] u by (simp add: H_def)
  moreover have p64: "(2::nat) ^ 64 = 2 ^ (64 - n) * 2 ^ n" using n by (simp add: power_add [symmetric])
  ultimately have "wnum (take u k) div 2 ^ (64 * u - 64 * q - n) =
      (unat (k ! p) + 2 ^ (64 - n) * (2 ^ n * H)) div 2 ^ (64 - n)"
    unfolding s by (simp only: power_add div_mult2_eq mult.assoc)
  also have "\<dots> = unat (k ! p) div 2 ^ (64 - n) + 2 ^ n * H"
    by (subst div_mult_self2) simp_all
  finally have "key_bits_at k u (64 * q) n = (unat (k ! p) div 2 ^ (64 - n) + 2 ^ n * H) mod 2 ^ n"
    by (simp add: key_bits_at_def)
  also have "\<dots> = unat (k ! p) div 2 ^ (64 - n)"
  proof -
    have "unat (k ! p) < 2 ^ n * 2 ^ (64 - n)" using p64 unat64 [of "k ! p"] by (simp add: mult.commute)
    then have "unat (k ! p) div 2 ^ (64 - n) < 2 ^ n" by (simp add: div_less_iff_less_mult)
    then show ?thesis by simp
  qed
  finally show ?thesis .
qed

lemma top_num_word:
  assumes "u = Suc (p + q)" "u \<le> length k" "n \<le> 64"
  shows "top_num k u (64 * q + n) = top_num k u (64 * q) * 2 ^ n + unat (k ! p) div 2 ^ (64 - n)"
  using assms by (simp add: top_num_step key_bits_at_word)

section \<open>The comparison loops\<close>

lemma cmp_bits_step:
  assumes u: "u = Suc (p + q)" "u \<le> length l" "u \<le> length r"
    and eq: "top_num l u (64 * q) = top_num r u (64 * q)"
  shows "n \<le> 64 \<Longrightarrow> cmp_int (top_num l u (64 * q + n)) (top_num r u (64 * q + n)) =
      cmp_int (drop_bit (64 - n) (l ! p)) (drop_bit (64 - n) (r ! p))"
    and "l ! p \<noteq> r ! p \<Longrightarrow> 64 \<le> n \<Longrightarrow> 64 * q + n \<le> 64 * u \<Longrightarrow>
      cmp_int (top_num l u (64 * q + n)) (top_num r u (64 * q + n)) = cmp_int (l ! p) (r ! p)"
    and "l ! p = r ! p \<Longrightarrow> top_num l u (64 * Suc q) = top_num r u (64 * Suc q)"
proof -
  show *: "cmp_int (top_num l u (64 * q + n)) (top_num r u (64 * q + n)) =
      cmp_int (drop_bit (64 - n) (l ! p)) (drop_bit (64 - n) (r ! p))" if "n \<le> 64" for n
    using that u eq
    by (simp add: top_num_word cmp_int_add unat_drop_bit [symmetric] cmp_int_unat)
  show "top_num l u (64 * Suc q) = top_num r u (64 * Suc q)" if "l ! p = r ! p"
    using that top_num_word [OF u(1,2), of 64] top_num_word [OF u(1,3), of 64] eq
    by (simp add: add.commute)
  show "cmp_int (top_num l u (64 * q + n)) (top_num r u (64 * q + n)) = cmp_int (l ! p) (r ! p)"
    if ne: "l ! p \<noteq> r ! p" and n: "64 \<le> n" "64 * q + n \<le> 64 * u"
  proof -
    have d: "top_num k u (64 * q + n) div 2 ^ (n - 64) = top_num k u (64 * q + 64)" for k
      using top_num_div [of "64 * q + 64" "n - 64" u k] n by simp
    have c: "cmp_int (top_num l u (64 * q + 64)) (top_num r u (64 * q + 64)) = cmp_int (l ! p) (r ! p)"
      using * [of 64] by simp
    with ne have "top_num l u (64 * q + 64) \<noteq> top_num r u (64 * q + 64)"
      by (metis cmp_int_self cmp_int_simps(5))
    then show ?thesis
      using cmp_int_div [of "top_num l u (64 * q + n)" "2 ^ (n - 64)" "top_num r u (64 * q + n)"] c
      by (simp add: d)
  qed
qed

lemma cmp_bits_loop_eq:
  assumes "u = Suc (p + q)" "u \<le> length l" "u \<le> length r" "0 < n" "64 * q + n \<le> 64 * u"
    and "top_num l u (64 * q) = top_num r u (64 * q)"
  shows "cmp_bits_loop l r p n (l ! p) (r ! p) =
    Some (cmp_int (top_num l u (64 * q + n)) (top_num r u (64 * q + n)))"
  using assms
proof (induction n arbitrary: p q rule: less_induct)
  case (less n)
  note step = cmp_bits_step [OF less.prems(1-3,6)]
  show ?case
  proof (cases "n < 64")
    case True
    then show ?thesis using step(1) [of n] by (simp add: cmp_bits_loop.simps [of l r p n])
  next
    case n: False
    show ?thesis
    proof (cases "n - 64 = 0 \<or> l ! p \<noteq> r ! p")
      case True
      then have "cmp_int (top_num l u (64 * q + n)) (top_num r u (64 * q + n)) = cmp_int (l ! p) (r ! p)"
        using n step(1) [of 64] step(2) [of n] less.prems(5) by (cases "n = 64") auto
      then show ?thesis using True n by (simp add: cmp_bits_loop.simps [of l r p n] Let_def)
    next
      case False
      then have "64 * q + 64 < 64 * u" using less.prems(5) n by linarith
      then obtain p' where p': "p = Suc p'" using less.prems(1) by (cases p) auto
      have "cmp_bits_loop l r p' (n - 64) (l ! p') (r ! p') =
          Some (cmp_int (top_num l u (64 * Suc q + (n - 64))) (top_num r u (64 * Suc q + (n - 64))))"
        using less.prems False n p' step(3) by (intro less.IH) auto
      moreover have "64 * Suc q + (n - 64) = 64 * q + n" using n by simp
      ultimately show ?thesis
        using False n p' less.prems(1-3)
        by (subst cmp_bits_loop.simps) (simp add: Let_def next_word_def load_word_def)
    qed
  qed
qed

text \<open>
  The assembly loop may load one word more than the portable one; the header keeps that
  word inside the key.
\<close>

lemma cmp_bits_asm_eq:
  assumes "u = Suc (p + q)" "u \<le> length l" "u \<le> length r" "64 * q + n + 24 \<le> 64 * u"
    and "top_num l u (64 * q) = top_num r u (64 * q)"
  shows "cmp_bits_asm l r p (int n) =
    Some (cmp_int (top_num l u (64 * q + n)) (top_num r u (64 * q + n)))"
  using assms
proof (induction n arbitrary: p q rule: less_induct)
  case (less n)
  note step = cmp_bits_step [OF less.prems(1-3,5)]
  have ld: "load_word l p = Some (l ! p)" "load_word r p = Some (r ! p)"
    using less.prems(1-3) by (simp_all add: load_word_def)
  show ?case
  proof (cases "n < 64")
    case True
    have "nat (NOT (int n - 64)) = 63 - n" using True by (simp add: not_int_def)
    then have "nat (NOT (int n - 64)) mod 64 = 63 - n" by simp
    moreover have "drop_bit (63 - n) (drop_bit 1 w) = drop_bit (64 - n) w" for w :: u64
      using True by (rule drop_bit_1_drop)
    ultimately have "cmp_bits_asm l r p (int n) =
        Some (cmp_int (drop_bit (64 - n) (l ! p)) (drop_bit (64 - n) (r ! p)))"
      unfolding cmp_bits_asm.simps [of l r p "int n"] ld Let_def using True by simp
    then show ?thesis using step(1) [of n] True by simp
  next
    case n: False
    show ?thesis
    proof (cases "l ! p = r ! p")
      case False
      then show ?thesis
        using n step(2) [of n] less.prems(4) ld
        by (simp add: cmp_bits_asm.simps [of l r p "int n"] Let_def)
    next
      case True
      have "64 * q + 64 < 64 * u" using less.prems(4) n by linarith
      then obtain p' where p': "p = Suc p'" using less.prems(1) by (cases p) auto
      have "cmp_bits_asm l r p' (int (n - 64)) =
          Some (cmp_int (top_num l u (64 * Suc q + (n - 64))) (top_num r u (64 * Suc q + (n - 64))))"
        using less.prems True n p' step(3) by (intro less.IH) auto
      moreover have "64 * Suc q + (n - 64) = 64 * q + n" using n by simp
      ultimately show ?thesis
        using True n p' ld
        by (subst cmp_bits_asm.simps) (simp add: Let_def next_word_def of_nat_diff)
    qed
  qed
qed

lemma fls_nat_div: "0 < X div 2 ^ n \<Longrightarrow> fls_nat X = n + fls_nat (X div 2 ^ n)"
proof -
  assume pos: "0 < X div 2 ^ n"
  define m where "m = fls_nat (X div 2 ^ n) - 1"
  have m: "fls_nat (X div 2 ^ n) = Suc m" using pos by (cases "fls_nat (X div 2 ^ n)") (auto simp: m_def)
  have "2 ^ m \<le> X div 2 ^ n" using less_fls_nat_iff [of m "X div 2 ^ n"] m by simp
  moreover have "X div 2 ^ n < 2 ^ Suc m" using fls_nat_le_iff [of "X div 2 ^ n" "Suc m"] m by simp
  ultimately have "2 ^ (n + m) \<le> X" "X < 2 ^ Suc (n + m)"
    by (simp_all add: power_add less_eq_div_iff_mult_less_eq div_less_iff_less_mult mult.commute
        mult.left_commute)
  then show ?thesis using fls_nat_eqI [of "n + m" X] m by simp
qed

lemma nat_less_bit: "x < 2 ^ n \<Longrightarrow> bit x i \<Longrightarrow> i < n" for x :: nat
  by (metis bit_take_bit_iff take_bit_nat_eq_self)

lemma xor_same_high:
  fixes A a b :: nat
  assumes "a < 2 ^ n" "b < 2 ^ n"
  shows "(A * 2 ^ n + a) XOR (A * 2 ^ n + b) = a XOR b"
proof -
  have *: "A * 2 ^ n + x = push_bit n A OR x" if "x < 2 ^ n" for x :: nat
  proof -
    have "push_bit n A AND x = 0"
      by (intro bit_eqI) (auto simp: bit_and_iff bit_push_bit_iff dest: nat_less_bit [OF that])
    then show ?thesis by (simp add: disjunctive_add_eq_or [symmetric] push_bit_eq_mult)
  qed
  show ?thesis
    unfolding * [OF assms(1)] * [OF assms(2)]
    by (rule bit_eqI) (auto simp: bit_xor_iff bit_or_iff bit_push_bit_iff
        dest: nat_less_bit [OF assms(1)] nat_less_bit [OF assms(2)])
qed

lemma word_div_less:
  assumes "m \<le> 64"
  shows "unat (w :: u64) div 2 ^ (64 - m) < 2 ^ m"
proof -
  have "(2::nat) ^ m * 2 ^ (64 - m) = 2 ^ 64" using assms by (simp add: power_add [symmetric])
  then show ?thesis using unat64 [of w] by (simp add: div_less_iff_less_mult)
qed

lemma xor_top_div:
  assumes "c + m \<le> 64 * u"
  shows "(top_num l u (c + m) XOR top_num r u (c + m)) div 2 ^ m = top_num l u c XOR top_num r u c"
proof -
  have "(x XOR y) div 2 ^ m = (x div 2 ^ m) XOR (y div 2 ^ m)" for x y :: nat
    by (simp add: drop_bit_eq_div [symmetric] drop_bit_xor)
  then show ?thesis by (simp add: top_num_div [OF assms])
qed

lemma greatest_differing_loop_eq:
  assumes "u = Suc (p + q)" "u \<le> length l" "u \<le> length r" "64 * q + n \<le> 64 * u"
    and "top_num l u (64 * q) = top_num r u (64 * q)"
    and "top_num l u (64 * q + n) \<noteq> top_num r u (64 * q + n)"
  shows "greatest_differing_loop l r p n (l ! p) (r ! p) =
    Some (fls_nat (top_num l u (64 * q + n) XOR top_num r u (64 * q + n)) - 1)"
  using assms
proof (induction n arbitrary: p q rule: less_induct)
  case (less n)
  note P = less.prems
  have "n \<noteq> 0" using P(5,6) by (cases n) auto
  define m where "m = min n 64"
  define a b where "a = drop_bit (64 - m) (l ! p)" and "b = drop_bit (64 - m) (r ! p)"
  have m: "m \<le> 64" "m \<le> n" by (simp_all add: m_def)
  have ab: "(if n < 64 then (drop_bit (64 - n) (l ! p), drop_bit (64 - n) (r ! p), 0)
      else (l ! p, r ! p, n - 64)) = (a, b, n - m)"
    by (simp add: a_def b_def m_def min_def)
  have X: "top_num l u (64 * q + m) XOR top_num r u (64 * q + m) = unat (a XOR b)"
    using P m xor_same_high [OF word_div_less [OF m(1)] word_div_less [OF m(1)]]
    by (simp add: top_num_word a_def b_def unsigned_xor_eq unat_drop_bit)
  show ?case
  proof (cases "a = b")
    case False
    then have "0 < unat (a XOR b)" by (simp add: word_xor_eq_0_iff unat_gt_0)
    moreover have "(top_num l u (64 * q + n) XOR top_num r u (64 * q + n)) div 2 ^ (n - m) = unat (a XOR b)"
      using xor_top_div [of "64 * q + m" "n - m" u l r] m P(4) X by simp
    ultimately have "fls_nat (top_num l u (64 * q + n) XOR top_num r u (64 * q + n)) =
        n - m + fls64 (a XOR b)"
      using fls_nat_div [of "top_num l u (64 * q + n) XOR top_num r u (64 * q + n)" "n - m"]
      by (simp add: fls64_def)
    moreover have "0 < fls64 (a XOR b)"
      using \<open>0 < unat (a XOR b)\<close> less_fls_nat_iff [of 0 "unat (a XOR b)"] by (simp add: fls64_def)
    ultimately show ?thesis
      using False \<open>n \<noteq> 0\<close> by (simp add: greatest_differing_loop.simps [of l r p n] ab)
  next
    case True
    then have "top_num l u (64 * q + m) = top_num r u (64 * q + m)"
      using P m by (simp add: top_num_word a_def b_def unat_drop_bit [symmetric])
    with P(6) have n: "64 < n" and m64: "m = 64" by (auto simp: m_def min_def split: if_splits)
    with True have w: "l ! p = r ! p" by (simp add: a_def b_def)
    have "64 * q + 64 < 64 * u" using P(4) n by linarith
    then obtain p' where p': "p = Suc p'" using P(1) by (cases p) auto
    have e: "64 * Suc q + (n - 64) = 64 * q + n" using n by simp
    have "greatest_differing_loop l r p' (n - 64) (l ! p') (r ! p') =
        Some (fls_nat (top_num l u (64 * Suc q + (n - 64)) XOR top_num r u (64 * Suc q + (n - 64))) - 1)"
      using P n p' w cmp_bits_step(3) [OF P(1-3,5) w] e by (intro less.IH) auto
    then show ?thesis
      using \<open>n \<noteq> 0\<close> True n p' P(1-3) w [unfolded p'] unfolding e
      by (subst greatest_differing_loop.simps)
        (simp add: w next_word_def load_word_def)
  qed
qed

section \<open>Order of packed keys and of their positions\<close>

lemma cmp_int_eqI:
  assumes "a < b \<longleftrightarrow> c < d" "b < a \<longleftrightarrow> d < c"
  shows "cmp_int a b = cmp_int c d"
  using assms by (simp add: cmp_int_def)

lemma top_num_pos_order:
  assumes v: "fmt_valid f" and l: "key_u64s f \<le> length l" and r: "key_u64s f \<le> length r"
  obtains pl pr where "bkey_unpack_pos_local f l = Some pl" "bkey_unpack_pos_local f r = Some pr"
    "cmp_int (top_num l (key_u64s f) (bkey_format_key_bits f))
       (top_num r (key_u64s f) (bkey_format_key_bits f)) = bpos_cmp pl pr"
proof -
  obtain a b c where rl: "raw_pos f l = (a, b, c)" by (metis prod_cases3)
  obtain a' b' c' where rr: "raw_pos f r = (a', b', c')" by (metis prod_cases3)
  obtain pl where pl: "bkey_unpack_pos_local f l = Some pl"
    "unat (bp_inode pl) = a + unat (field_offset f ! 0)"
    "unat (bp_offset pl) = b + unat (field_offset f ! 1)"
    "unat (bp_snapshot pl) = c + unat (field_offset f ! 2)"
    "b < 2 ^ (bits_per_field f ! 1)" "c < 2 ^ (bits_per_field f ! 2)"
    "top_num l (key_u64s f) (bkey_format_key_bits f) =
      (a * 2 ^ (bits_per_field f ! 1) + b) * 2 ^ (bits_per_field f ! 2) + c"
    by (rule unpack_pos_raw [OF v l rl])
  obtain pr where pr: "bkey_unpack_pos_local f r = Some pr"
    "unat (bp_inode pr) = a' + unat (field_offset f ! 0)"
    "unat (bp_offset pr) = b' + unat (field_offset f ! 1)"
    "unat (bp_snapshot pr) = c' + unat (field_offset f ! 2)"
    "b' < 2 ^ (bits_per_field f ! 1)" "c' < 2 ^ (bits_per_field f ! 2)"
    "top_num r (key_u64s f) (bkey_format_key_bits f) =
      (a' * 2 ^ (bits_per_field f ! 1) + b') * 2 ^ (bits_per_field f ! 2) + c'"
    by (rule unpack_pos_raw [OF v r rr])
  show ?thesis
  proof (rule that [OF pl(1) pr(1)])
    show "cmp_int (top_num l (key_u64s f) (bkey_format_key_bits f))
       (top_num r (key_u64s f) (bkey_format_key_bits f)) = bpos_cmp pl pr"
      unfolding pl(7) pr(7) bpos_cmp_num
      by (rule cmp_int_eqI; simp only: radix_less_iff [OF pl(6) pr(6)] radix_less_iff [OF pr(6) pl(6)]
          radix_less_iff [OF pl(5) pr(5)] radix_less_iff [OF pr(5) pl(5)] radix_eq_iff [OF pl(5) pr(5)]
          radix_eq_iff [OF pr(5) pl(5)] bpos_num_less_iff word_less_nat_alt word_unat_eq_iff
          pl(2-4) pr(2-4)) auto
  qed
qed

lemma cmp_bits_top:
  assumes f: "fmt_fits f" and n: "n = bkey_format_key_bits f"
    and lr: "key_u64s f \<le> length l" "key_u64s f \<le> length r" and p: "high_word f = Some p"
  shows "bkey_cmp_bits l r p n = Some (cmp_int (top_num l (key_u64s f) n) (top_num r (key_u64s f) n))"
    and "cmp_bits_asm l r p (int n) = Some (cmp_int (top_num l (key_u64s f) n) (top_num r (key_u64s f) n))"
proof -
  have u: "key_u64s f = Suc (p + 0)" using p fmt_fits_pos [OF f] by (auto simp: high_word_def)
  have le: "64 * 0 + n + 24 \<le> 64 * key_u64s f" using key_bits_le [OF f] n by simp
  show "cmp_bits_asm l r p (int n) = Some (cmp_int (top_num l (key_u64s f) n) (top_num r (key_u64s f) n))"
    using cmp_bits_asm_eq [OF u lr le] by (simp add: top_num_0)
  show "bkey_cmp_bits l r p n = Some (cmp_int (top_num l (key_u64s f) n) (top_num r (key_u64s f) n))"
    using cmp_bits_loop_eq [OF u lr, of n] le u lr
    by (auto simp: bkey_cmp_bits_def top_num_0 load_word_def)
qed

lemma cmp_packed_eq:
  assumes v: "fmt_valid (b_format b)" and n: "b_nr_key_bits b = bkey_format_key_bits (b_format b)"
    and l: "bkeyp_key_u64s (b_format b) l \<le> length l" and r: "bkeyp_key_u64s (b_format b) r \<le> length r"
  obtains pl pr where "bkey_unpack_pos (b_format b) l = Some pl" "bkey_unpack_pos (b_format b) r = Some pr"
    "bch2_bkey_cmp_packed b l r = Some (bpos_cmp pl pr)"
proof -
  let ?f = "b_format b"
  have f: "fmt_fits ?f" using v by (rule fmt_valid_fits)
  have hw: "high_word ?f = Some (key_u64s ?f - 1)" using fmt_fits_pos [OF f] by (simp add: high_word_def)
  show ?thesis
  proof (cases "bkey_packed l \<and> bkey_packed r")
    case True
    then have lr: "key_u64s ?f \<le> length l" "key_u64s ?f \<le> length r"
      using l r by (simp_all add: bkeyp_key_u64s_def)
    obtain pl pr where p: "bkey_unpack_pos_local ?f l = Some pl" "bkey_unpack_pos_local ?f r = Some pr"
      "cmp_int (top_num l (key_u64s ?f) (bkey_format_key_bits ?f))
         (top_num r (key_u64s ?f) (bkey_format_key_bits ?f)) = bpos_cmp pl pr"
      by (rule top_num_pos_order [OF v lr])
    show ?thesis
      using True p that [of pl pr] cmp_bits_top(1) [OF f n lr hw]
      by (simp add: bkey_unpack_pos_def bch2_bkey_cmp_packed_def bkey_cmp_packed_format_checked_def hw n)
  next
    case False
    then consider "bkey_packed l" "\<not> bkey_packed r" | "\<not> bkey_packed l" "bkey_packed r"
      | "\<not> bkey_packed l" "\<not> bkey_packed r" by blast
    then show ?thesis
    proof cases
      case 1
      then have "key_u64s ?f \<le> length l" using l by (simp add: bkeyp_key_u64s_def)
      from unpack_key_Some [OF f this] unpack_pos_of_key [OF f this] 1 that show ?thesis
        by (auto simp: bkey_unpack_pos_def bch2_bkey_cmp_packed_def packed_to_bkey_c_def)
    next
      case 2
      then have "key_u64s ?f \<le> length r" using r by (simp add: bkeyp_key_u64s_def)
      from unpack_key_Some [OF f this] unpack_pos_of_key [OF f this] 2 that show ?thesis
        by (auto simp: bkey_unpack_pos_def bch2_bkey_cmp_packed_def packed_to_bkey_c_def)
    next
      case 3
      with that show ?thesis
        by (auto simp: bkey_unpack_pos_def bch2_bkey_cmp_packed_def packed_to_bkey_c_def)
    qed
  qed
qed

text \<open>The highest bit in which two numbers differ decides their order.\<close>

lemma highest_differing_bit:
  fixes x y :: nat
  assumes "x < y" "i = fls_nat (x XOR y) - 1"
  shows "bit y i" "\<not> bit x i" "x div 2 ^ Suc i = y div 2 ^ Suc i"
proof -
  have "x XOR y \<noteq> 0" using assms(1) by (metis less_irrefl xor.right_neutral xor_self_eq xor.assoc)
  then obtain j where j: "fls_nat (x XOR y) = Suc j" by (cases "fls_nat (x XOR y)") auto
  then have ij: "i = j" using assms(2) by simp
  have lt: "x XOR y < 2 ^ Suc i" and ge: "2 ^ i \<le> x XOR y"
    using fls_nat_le_iff [of "x XOR y" "Suc j"] less_fls_nat_iff [of j "x XOR y"] j by (simp_all add: ij)
  have "(x XOR y) div 2 ^ Suc i = 0" using lt by simp
  then have "(x div 2 ^ Suc i) XOR (y div 2 ^ Suc i) = 0"
    by (simp only: drop_bit_eq_div [symmetric] drop_bit_xor)
  then show eq: "x div 2 ^ Suc i = y div 2 ^ Suc i"
    by (metis xor.right_neutral xor_self_eq xor.assoc)
  have "(x XOR y) div 2 ^ i = 1"
    using lt ge by (intro div_nat_eqI) simp_all
  then have "bit (x XOR y) i" by (simp add: bit_iff_odd)
  then have ne: "bit x i \<noteq> bit y i" by (auto simp: bit_xor_iff)
  have "z div 2 ^ i = 2 * (z div 2 ^ Suc i) + of_bool (bit z i)" for z :: nat
    using div_mult_mod_eq [of "z div 2 ^ i" 2] by (simp add: bit_iff_odd mod_2_eq_odd div_mult2_eq [symmetric] mult.commute)
  then have "x div 2 ^ i < y div 2 ^ i \<longleftrightarrow> \<not> bit x i \<and> bit y i"
    using eq ne by simp
  moreover have "x div 2 ^ i \<le> y div 2 ^ i" using assms(1) by (intro div_le_mono) simp
  moreover have "x div 2 ^ i \<noteq> y div 2 ^ i" using ne by (metis bit_iff_odd)
  ultimately show "bit y i" "\<not> bit x i" by simp_all
qed

lemma top_num_less: "n \<le> 64 * u \<Longrightarrow> top_num k u n < 2 ^ n"
  using top_num_div [of 0 n u k] by (simp add: top_num_0 div_eq_0_iff)

section \<open>Properties\<close>

text \<open>
  C3: \<^verbatim>\<open>bch2_bkey_cmp_packed\<close> on two keys, each packed or not, reads only words of the keys and
  returns the comparison of the positions they unpack to, for every valid format.
\<close>

theorem cmp_packed_correct:
  assumes "bch2_bkey_format_invalid (b_format b) = Inr ()"
    and "b_nr_key_bits b = bkey_format_key_bits (b_format b)"
    and "bkeyp_key_u64s (b_format b) l \<le> length l" "bkeyp_key_u64s (b_format b) r \<le> length r"
  shows "\<exists>pl pr. bkey_unpack_pos (b_format b) l = Some pl \<and> bkey_unpack_pos (b_format b) r = Some pr \<and>
    bch2_bkey_cmp_packed b l r = Some (bpos_cmp pl pr)"
  using cmp_packed_eq [of b l r] assms by (metis format_invalid_iff)

theorem cmp_packed_correct_witness:
  "\<exists>pl pr. bkey_unpack_pos witness_format [2] = Some pl \<and> bkey_unpack_pos witness_format [255] = Some pr \<and>
     bch2_bkey_cmp_packed \<lparr>b_format = witness_format, b_nr_key_bits = 24\<rparr> [2] [255] =
       Some (bpos_cmp pl pr)"
proof -
  have "bp_format [2] = 0" "bp_format [255] = 0" by (simp_all add: bp_format_def)
  then show ?thesis
    using cmp_packed_correct [of "\<lparr>b_format = witness_format, b_nr_key_bits = 24\<rparr>" "[2]" "[255]"]
      witness_format_valid
    by (simp add: witness_format_def bkey_format_key_bits_def bkeyp_key_u64s_def bkey_packed_def)
qed

text \<open>
  C24: the x86-64 assembly version of \<^verbatim>\<open>__bkey_cmp_bits\<close> returns the same as the portable
  version on the key bits of any format \<^verbatim>\<open>bch2_bkey_format_invalid\<close> accepts, and its extra
  load stays inside the key.
\<close>

theorem cmp_bits_asm_agrees:
  assumes "bch2_bkey_format_invalid f = Inr ()" "n = bkey_format_key_bits f"
    and "key_u64s f \<le> length l" "key_u64s f \<le> length r" and "high_word f = Some p"
  shows "cmp_bits_asm l r p (int n) = bkey_cmp_bits l r p n \<and> bkey_cmp_bits l r p n \<noteq> None"
  using cmp_bits_top [OF fmt_valid_fits assms(2-5)] assms(1) by (simp add: format_invalid_iff)

theorem cmp_bits_asm_agrees_witness:
  "cmp_bits_asm [2] [255] 0 24 = bkey_cmp_bits [2] [255] 0 24"
  using cmp_bits_asm_agrees [OF witness_format_valid, of 24 "[2]" "[255]" 0]
  by (simp add: witness_format_def bkey_format_key_bits_def high_word_def)



end
