(* ===== verification/Bkey_Lossy.thy ===== *)
theory Bkey_Lossy
  imports Bkey_Cmp
begin

text \<open>
  \<^verbatim>\<open>bch2_bkey_pack_pos_lossy\<close> (\<^verbatim>\<open>libbcachefs/bkey.c\<close>): packing a search position into the format
  of a btree node, rounding down when the format cannot represent it. The lookup in a node
  relies on the result comparing no greater than the position; the theory shows that it is
  in fact the greatest position the format can represent below it.
\<close>

section \<open>Representable positions\<close>

definition in_range :: "bkey_format \<Rightarrow> nat \<Rightarrow> nat \<Rightarrow> bool" where
  "in_range f i v \<longleftrightarrow> unat (field_offset f ! i) \<le> v \<and>
     v < unat (field_offset f ! i) + 2 ^ (bits_per_field f ! i)"

definition rep :: "bkey_format \<Rightarrow> bpos \<Rightarrow> bool" where
  "rep f q \<longleftrightarrow> in_range f 0 (unat (bp_inode q)) \<and> in_range f 1 (unat (bp_offset q)) \<and>
     in_range f 2 (unat (bp_snapshot q))"

lemma unpack_pos_rep:
  assumes "fmt_valid f" "key_u64s f \<le> length k" "bkey_unpack_pos_local f k = Some q"
  shows "rep f q"
proof -
  obtain a b c where r: "raw_pos f k = (a, b, c)" by (metis prod_cases3)
  show ?thesis
    using assms(3) by (rule_tac unpack_pos_raw [OF assms(1,2) r]) (auto simp: rep_def in_range_def)
qed

lemma bpos_less_iff:
  "p < q \<longleftrightarrow> unat (bp_inode p) < unat (bp_inode q) \<or> unat (bp_inode p) = unat (bp_inode q) \<and>
     (unat (bp_offset p) < unat (bp_offset q) \<or> unat (bp_offset p) = unat (bp_offset q) \<and>
      unat (bp_snapshot p) < unat (bp_snapshot q))"
  by (simp add: bpos_less_num bpos_num_less_iff word_less_nat_alt word_unat_eq_iff)

lemma bpos_le_iff:
  "p \<le> q \<longleftrightarrow> unat (bp_inode p) < unat (bp_inode q) \<or> unat (bp_inode p) = unat (bp_inode q) \<and>
     (unat (bp_offset p) < unat (bp_offset q) \<or> unat (bp_offset p) = unat (bp_offset q) \<and>
      unat (bp_snapshot p) \<le> unat (bp_snapshot q))"
  unfolding linorder_not_less [symmetric, of p q] bpos_less_iff by auto

lemma unat_dec: "w \<noteq> 0 \<Longrightarrow> unat (w - 1 :: 'a::len word) = unat w - 1"
  using unat_plus_1_eq [of "w - 1"] by simp

lemma unat_max_64: "unat (v :: u64) \<le> unat (- 1 :: u64)" and unat_max_32: "unat (s :: u32) \<le> unat (- 1 :: u32)"
  by (simp_all add: word_le_nat_alt [symmetric])

section \<open>Borrowing\<close>

text \<open>A step that replaces \<open>p\<close> by a smaller position and loses no representable position below it.\<close>

definition floor_step :: "bkey_format \<Rightarrow> bpos \<Rightarrow> (bool \<times> bpos) option \<Rightarrow> bool" where
  "floor_step f p r \<longleftrightarrow> (case r of
     None \<Rightarrow> \<forall>q. rep f q \<longrightarrow> p < q
   | Some (e, p') \<Rightarrow> (if e then p' = p else p' < p) \<and> (\<forall>q. rep f q \<longrightarrow> q \<le> p \<longrightarrow> q \<le> p'))"

lemma eq_0_unat: "w = 0 \<longleftrightarrow> unat w = 0"
  by (simp only: unat_eq_zero)

lemma floor_borrow_snapshot: "floor_step f p (borrow_snapshot f p)"
proof -
  have s32: "unat (ucast s :: u64) = unat s" for s :: u32
    using unat_less [of s] by (simp add: unat_ucast_mod)
  have dec: "unat w = Suc n \<Longrightarrow> unat (w - 1) = n" for w :: u64 and n by (simp add: unat_dec eq_0_unat del: unsigned_eq_0_iff)
  have "p < q" if "unat (bp_snapshot p) < unat (field_offset f ! 2)" "unat (bp_offset p) = 0"
    "unat (bp_inode p) = 0" "rep f q" for q
    using that by (cases "unat (bp_inode q)"; cases "unat (bp_offset q)")
      (auto simp: bpos_less_iff rep_def in_range_def simp del: unsigned_eq_0_iff)
  moreover have "SPOS (bp_inode p - 1) (bp_offset p - 1) (- 1) < p \<and>
      (\<forall>q. rep f q \<longrightarrow> q \<le> p \<longrightarrow> q \<le> SPOS (bp_inode p - 1) (bp_offset p - 1) (- 1))"
    if "unat (bp_snapshot p) < unat (field_offset f ! 2)" "unat (bp_offset p) = 0"
      "unat (bp_inode p) = Suc n" for n
  proof -
    have off: "bp_offset p - 1 = - 1" using that(2) by (simp add: unat_eq_zero)
    have "unat (bp_offset q) = unat (- 1 :: u64)" if "\<not> unat (bp_offset q) < unat (- 1 :: u64)" for q
      using that unat_max_64 [of "bp_offset q"] by linarith
    then show ?thesis
      using that dec [OF that(3)] unat_max_32
      by (auto simp: off bpos_less_iff bpos_le_iff rep_def in_range_def less_Suc_eq
          simp del: unsigned_eq_0_iff)
  qed
  moreover have "SPOS (bp_inode p) (bp_offset p - 1) (- 1) < p \<and>
      (\<forall>q. rep f q \<longrightarrow> q \<le> p \<longrightarrow> q \<le> SPOS (bp_inode p) (bp_offset p - 1) (- 1))"
    if "unat (bp_snapshot p) < unat (field_offset f ! 2)" "unat (bp_offset p) = Suc n" for n
    using that dec [OF that(2)] unat_max_64 unat_max_32
    by (auto simp: bpos_less_iff bpos_le_iff rep_def in_range_def simp del: unsigned_eq_0_iff)
  ultimately show ?thesis
    by (cases "unat (bp_offset p)"; cases "unat (bp_inode p)")
      (auto simp: floor_step_def borrow_snapshot_def word_less_nat_alt s32 eq_0_unat simp del: unsigned_eq_0_iff)
qed

lemma floor_borrow_offset: "floor_step f p (borrow_offset f p)"
proof -
  have "p < q" if "unat (bp_offset p) < unat (field_offset f ! 1)" "unat (bp_inode p) = 0" "rep f q" for q
    using that by (cases "unat (bp_inode q)")
      (auto simp: bpos_less_iff rep_def in_range_def simp del: unsigned_eq_0_iff)
  moreover have "SPOS (bp_inode p - 1) (- 1) (- 1) < p \<and>
      (\<forall>q. rep f q \<longrightarrow> q \<le> p \<longrightarrow> q \<le> SPOS (bp_inode p - 1) (- 1) (- 1))"
    if "unat (bp_offset p) < unat (field_offset f ! 1)" "unat (bp_inode p) = Suc n" for n
  proof -
    have "unat (bp_inode p - 1) = n" using that(2) by (simp add: unat_dec eq_0_unat del: unsigned_eq_0_iff)
    moreover have "unat (bp_offset q) < unat (- 1 :: u64) \<or> unat (bp_offset q) = unat (- 1 :: u64)" for q
      using unat_max_64 [of "bp_offset q"] by linarith
    ultimately show ?thesis
      using that unat_max_32
      by (auto simp: bpos_less_iff bpos_le_iff rep_def in_range_def less_Suc_eq simp del: unsigned_eq_0_iff)
  qed
  ultimately show ?thesis
    by (cases "unat (bp_inode p)")
      (auto simp: floor_step_def borrow_offset_def word_less_nat_alt eq_0_unat simp del: unsigned_eq_0_iff)
qed

lemma floor_pack_pos_borrow: "floor_step f p (pack_pos_borrow f p)"
proof (cases "borrow_snapshot f p")
  case None
  then show ?thesis using floor_borrow_snapshot [of f p] by (simp add: pack_pos_borrow_def floor_step_def)
next
  case (Some ep)
  then obtain e1 p1 where s1: "borrow_snapshot f p = Some (e1, p1)" by (cases ep) simp
  have f1: "if e1 then p1 = p else p1 < p" "\<forall>q. rep f q \<longrightarrow> q \<le> p \<longrightarrow> q \<le> p1"
    using floor_borrow_snapshot [of f p] by (simp_all add: s1 floor_step_def)
  show ?thesis
  proof (cases "borrow_offset f p1")
    case None
    then have "\<forall>q. rep f q \<longrightarrow> p1 < q" using floor_borrow_offset [of f p1] by (simp add: floor_step_def)
    then show ?thesis using f1(2) None s1 by (fastforce simp: pack_pos_borrow_def floor_step_def)
  next
    case (Some ep)
    then obtain e2 p2 where s2: "borrow_offset f p1 = Some (e2, p2)" by (cases ep) simp
    have f2: "if e2 then p2 = p1 else p2 < p1" "\<forall>q. rep f q \<longrightarrow> q \<le> p1 \<longrightarrow> q \<le> p2"
      using floor_borrow_offset [of f p1] by (simp_all add: s2 floor_step_def)
    have le: "\<forall>q. rep f q \<longrightarrow> q \<le> p \<longrightarrow> q \<le> p2" using f1(2) f2(2) by blast
    have "rep f q \<longrightarrow> \<not> q \<le> p2" if "bp_inode p2 < field_offset f ! 0" for q
      using that by (auto simp: rep_def in_range_def bpos_le_iff word_less_nat_alt)
    then show ?thesis
      using s1 s2 f1 f2 le
      by (auto simp: pack_pos_borrow_def floor_step_def split: if_splits) (meson not_le)
  qed
qed

lemma pack_pos_borrow_ge:
  assumes "pack_pos_borrow f p = Some (e, p')" "unat (field_offset f ! 2) < 2 ^ 32"
  shows "field_offset f ! 0 \<le> bp_inode p'" "field_offset f ! 1 \<le> bp_offset p'"
    "field_offset f ! 2 \<le> ucast (bp_snapshot p')"
proof -
  have m: "unat (ucast (- 1 :: u32) :: u64) = 2 ^ 32 - 1"
    by (simp only: unat_ucast_mod unat_minus_1_nat) simp
  then have "field_offset f ! 2 \<le> ucast (- 1 :: u32)"
    using assms(2) by (simp only: word_le_nat_alt)
  then show "field_offset f ! 0 \<le> bp_inode p'" "field_offset f ! 1 \<le> bp_offset p'"
    "field_offset f ! 2 \<le> ucast (bp_snapshot p')"
    using assms(1)
    by (auto simp: pack_pos_borrow_def borrow_snapshot_def borrow_offset_def not_less
        split: if_splits)
qed

section \<open>Clamping\<close>

text \<open>The raw value a field gets: the distance from the offset, or the largest value that fits.\<close>

definition clamp :: "bkey_format \<Rightarrow> nat \<Rightarrow> u64 \<Rightarrow> nat" where
  "clamp f i v = min (raw_field f i v) (2 ^ (bits_per_field f ! i) - 1)"

lemma set_inc_field_lossy_inv:
  assumes inv: "pack_inv u V c (st, k)" and b: "b = bits_per_field f ! i" "b \<le> 64"
    and c: "c + b \<le> 64 * u"
  shows "\<exists>st' k'. set_inc_field_lossy f i v (st, k) = Some (raw_field f i v < 2 ^ b, st', k') \<and>
    pack_inv u (V * 2 ^ b + clamp f i v) (c + b) (st', k') \<and> length k' = length k \<and> drop u k' = drop u k"
proof -
  let ?v = "v - field_offset f ! i"
  define w where "w = (if fls64 ?v > b then NOT (push_bit b (NOT 0)) else ?v)"
  have fl: "b < fls64 ?v \<longleftrightarrow> \<not> raw_field f i v < 2 ^ b"
    using fls64_le_iff [of ?v b] by (auto simp: raw_field_def)
  have "unat (mask b :: u64) = 2 ^ b - 1"
    using b(2) by (intro unat_mask) simp
  then have w: "unat w = clamp f i v"
    using fl by (auto simp: w_def clamp_def raw_field_def b(1) [symmetric] min_def)
  then have "unat w < 2 ^ b" by (simp add: clamp_def b(1) [symmetric] min_less_iff_disj)
  from set_inc_field_raw_inv [OF inv b c this] obtain st' k' where
    "set_inc_field_raw f i w (st, k) = Some (st', k')"
    "pack_inv u (V * 2 ^ b + unat w) (c + b) (st', k')" "length k' = length k" "drop u k' = drop u k"
    by blast
  moreover have "set_inc_field_lossy f i v (st, k) =
      map_option (Pair (raw_field f i v < 2 ^ b)) (set_inc_field_raw f i w (st, k))"
    using fl unfolding set_inc_field_lossy_def Let_def w_def b(1) by simp
  ultimately show ?thesis by (simp add: w)
qed

text \<open>The digits the three calls write, and whether each fitted.\<close>

definition lossy_digits :: "bkey_format \<Rightarrow> bpos \<Rightarrow> bool \<times> nat \<times> nat \<times> nat" where
  "lossy_digits f p =
     (let ok0 = raw_field f 0 (bp_inode p) < 2 ^ (bits_per_field f ! 0);
          off = (if ok0 then bp_offset p else - 1);
          ok1 = raw_field f 1 off < 2 ^ (bits_per_field f ! 1);
          s = (if ok0 \<and> ok1 then bp_snapshot p else - 1);
          ok2 = raw_field f 2 (ucast s) < 2 ^ (bits_per_field f ! 2)
      in (ok0 \<and> ok1 \<and> ok2, clamp f 0 (bp_inode p), clamp f 1 off, clamp f 2 (ucast s)))"

lemma raw_field_nat: "field_offset f ! i \<le> v \<Longrightarrow> raw_field f i v = unat v - unat (field_offset f ! i)"
  by (simp add: raw_field_def unat_sub)

lemma clamp_arith:
  fixes P :: nat
  assumes "off \<le> v" "0 < P"
  shows "min (v - off) (P - 1) + off = (if v < off + P then v else off + P - 1)"
    and "v - off < P \<longleftrightarrow> v < off + P"
  using assms by (auto simp: min_def)

lemma clamp_range:
  assumes "field_offset f ! i \<le> v"
  shows "clamp f i v + unat (field_offset f ! i) =
      (if unat v < unat (field_offset f ! i) + 2 ^ (bits_per_field f ! i) then unat v
       else unat (field_offset f ! i) + 2 ^ (bits_per_field f ! i) - 1)"
    and "raw_field f i v < 2 ^ (bits_per_field f ! i) \<longleftrightarrow>
      unat v < unat (field_offset f ! i) + 2 ^ (bits_per_field f ! i)"
proof -
  have "unat (field_offset f ! i) \<le> unat v" using assms by (simp add: word_le_nat_alt)
  from clamp_arith [OF this, of "2 ^ (bits_per_field f ! i)"]
  show "clamp f i v + unat (field_offset f ! i) =
      (if unat v < unat (field_offset f ! i) + 2 ^ (bits_per_field f ! i) then unat v
       else unat (field_offset f ! i) + 2 ^ (bits_per_field f ! i) - 1)"
    "raw_field f i v < 2 ^ (bits_per_field f ! i) \<longleftrightarrow>
      unat v < unat (field_offset f ! i) + 2 ^ (bits_per_field f ! i)"
    unfolding clamp_def raw_field_nat [OF assms] by simp_all
qed

lemma clamp_max:
  assumes ok: "field_ok f i" and v: "unat v = 2 ^ ubits i - 1"
  shows "clamp f i v + unat (field_offset f ! i) = unat (field_offset f ! i) + 2 ^ (bits_per_field f ! i) - 1"
    and "field_offset f ! i \<le> v"
proof -
  have le: "unat (field_offset f ! i) + 2 ^ (bits_per_field f ! i) \<le> 2 ^ ubits i" "(0::nat) < 2 ^ (bits_per_field f ! i)"
    using ok by (simp_all add: field_ok_def)
  then show g: "field_offset f ! i \<le> v" using v unfolding word_le_nat_alt by linarith
  show "clamp f i v + unat (field_offset f ! i) = unat (field_offset f ! i) + 2 ^ (bits_per_field f ! i) - 1"
    unfolding clamp_range(1) [OF g] using le v by auto
qed

lemma lossy_digits_values:
  assumes v: "fmt_valid f"
    and ge: "field_offset f ! 0 \<le> bp_inode p" "field_offset f ! 1 \<le> bp_offset p"
      "field_offset f ! 2 \<le> ucast (bp_snapshot p)"
    and d: "lossy_digits f p = (ok, d0, d1, d2)"
  defines "m \<equiv> \<lambda>i. unat (field_offset f ! i) + 2 ^ (bits_per_field f ! i)"
  defines "ok0 \<equiv> unat (bp_inode p) < m 0"
  defines "ok1 \<equiv> unat (bp_offset p) < m 1"
  defines "ok2 \<equiv> unat (bp_snapshot p) < m 2"
  shows "d0 + unat (field_offset f ! 0) = (if ok0 then unat (bp_inode p) else m 0 - 1)"
    and "d1 + unat (field_offset f ! 1) = (if ok0 \<and> ok1 then unat (bp_offset p) else m 1 - 1)"
    and "d2 + unat (field_offset f ! 2) = (if ok0 \<and> ok1 \<and> ok2 then unat (bp_snapshot p) else m 2 - 1)"
    and "ok \<longleftrightarrow> ok0 \<and> ok1 \<and> ok2"
proof -
  have ok: "field_ok f 0" "field_ok f 1" "field_ok f 2" using v by (simp_all add: fmt_valid_def)
  have mx: "unat (- 1 :: u64) = 2 ^ ubits 1 - 1" "unat (ucast (- 1 :: u32) :: u64) = 2 ^ ubits 2 - 1"
    by (simp_all only: unat_ucast_mod unat_minus_1_nat) (simp_all add: bch2_bkey_format_current_def)
  have s32: "unat (ucast (bp_snapshot p) :: u64) = unat (bp_snapshot p)"
    using unat_less [of "bp_snapshot p"] by (simp add: unat_ucast_mod)
  note c0 = clamp_range [OF ge(1)] and c1 = clamp_range [OF ge(2)] and c2 = clamp_range [OF ge(3)]
  note m1 = clamp_max(1) [OF ok(2) mx(1)] and m2 = clamp_max(1) [OF ok(3) mx(2)]
  show "d0 + unat (field_offset f ! 0) = (if ok0 then unat (bp_inode p) else m 0 - 1)"
    using d c0 by (simp add: lossy_digits_def Let_def ok0_def m_def)
  show "d1 + unat (field_offset f ! 1) = (if ok0 \<and> ok1 then unat (bp_offset p) else m 1 - 1)"
    using d c0(2) c1 m1 by (auto simp: lossy_digits_def Let_def ok0_def ok1_def m_def split: if_splits)
  show "d2 + unat (field_offset f ! 2) = (if ok0 \<and> ok1 \<and> ok2 then unat (bp_snapshot p) else m 2 - 1)"
    using d c0(2) c1(2) c2 m2
    by (auto simp: lossy_digits_def Let_def ok0_def ok1_def ok2_def m_def s32 split: if_splits)
  show "ok \<longleftrightarrow> ok0 \<and> ok1 \<and> ok2"
    using d c0(2) c1(2) c2(2)
    by (auto simp: lossy_digits_def Let_def ok0_def ok1_def ok2_def m_def s32 split: if_splits)
qed

lemma bpos_eqI_unat:
  "unat (bp_inode p) = unat (bp_inode q) \<Longrightarrow> unat (bp_offset p) = unat (bp_offset q) \<Longrightarrow>
   unat (bp_snapshot p) = unat (bp_snapshot q) \<Longrightarrow> p = q"
  by (cases p; cases q) (simp add: word_unat_eq_iff)

lemma lossy_digits_floor:
  assumes v: "fmt_valid f"
    and ge: "field_offset f ! 0 \<le> bp_inode p" "field_offset f ! 1 \<le> bp_offset p"
      "field_offset f ! 2 \<le> ucast (bp_snapshot p)"
    and d: "lossy_digits f p = (ok, d0, d1, d2)"
    and q: "unat (bp_inode q) = d0 + unat (field_offset f ! 0)"
      "unat (bp_offset q) = d1 + unat (field_offset f ! 1)"
      "unat (bp_snapshot q) = d2 + unat (field_offset f ! 2)"
  shows "if ok then q = p else q < p" and "rep f q' \<Longrightarrow> q' \<le> p \<Longrightarrow> q' \<le> q"
proof -
  define m where "m = (\<lambda>i. unat (field_offset f ! i) + 2 ^ (bits_per_field f ! i))"
  have pos: "0 < m i" for i by (simp add: m_def)
  note val = lossy_digits_values [OF v ge d]
  have q': "unat (bp_inode q) = (if unat (bp_inode p) < m 0 then unat (bp_inode p) else m 0 - 1)"
    "unat (bp_offset q) = (if unat (bp_inode p) < m 0 \<and> unat (bp_offset p) < m 1
       then unat (bp_offset p) else m 1 - 1)"
    "unat (bp_snapshot q) = (if unat (bp_inode p) < m 0 \<and> unat (bp_offset p) < m 1 \<and>
       unat (bp_snapshot p) < m 2 then unat (bp_snapshot p) else m 2 - 1)"
    unfolding q m_def by (fact val)+
  have ok: "ok \<longleftrightarrow> unat (bp_inode p) < m 0 \<and> unat (bp_offset p) < m 1 \<and> unat (bp_snapshot p) < m 2"
    unfolding m_def by (fact val)
  show "if ok then q = p else q < p"
    using ok q' pos [of 0] pos [of 1] pos [of 2]
    by (auto simp: bpos_less_iff intro!: bpos_eqI_unat split: if_splits)
  show "q' \<le> q" if "rep f q'" "q' \<le> p"
  proof -
    have r: "unat (bp_inode q') < m 0" "unat (bp_offset q') < m 1" "unat (bp_snapshot q') < m 2"
      using that(1) by (simp_all add: rep_def in_range_def m_def)
    show ?thesis using that(2) r unfolding bpos_le_iff q' by (auto split: if_splits)
  qed
qed

section \<open>The packed position\<close>

lemma pack_lossy_fields:
  assumes f: "fmt_fits f" and out: "key_u64s f \<le> length out"
    and d: "lossy_digits f p = (ok, d0, d1, d2)" and b: "pack_pos_borrow f q = Some (e, p)"
  shows "\<exists>out'. bch2_bkey_pack_pos_lossy out q f =
      Some (if e \<and> ok then BKEY_PACK_POS_EXACT else BKEY_PACK_POS_SMALLER, out') \<and>
    length out' = length out \<and> raw_pos f out' = (d0, d1, d2)"
proof -
  let ?u = "key_u64s f" and ?b = "\<lambda>i. bits_per_field f ! i" and ?S = "bkey_format_key_bits f"
  define o1 where "o1 = replicate ?u 0 @ drop ?u out"
  have o1: "length o1 = length out" using out by (simp add: o1_def)
  have bits: "?b 0 \<le> 64" "?b 1 \<le> 64" "?b 2 \<le> 64" using f by (simp_all add: fmt_fits_def all_fields_eq)
  have S: "?b 0 + ?b 1 + ?b 2 + 24 \<le> 64 * ?u"
    using key_bits_le [OF f] by (simp add: bkey_format_key_bits_def)
  obtain st where st: "pack_state_init f = Some st" "pack_inv ?u 0 0 (st, o1)"
    using pack_state_init_inv [OF fmt_fits_pos [OF f], of o1] out o1 by auto
  define ok0 where "ok0 \<longleftrightarrow> raw_field f 0 (bp_inode p) < 2 ^ ?b 0"
  define off where "off = (if ok0 then bp_offset p else - 1)"
  define ok1 where "ok1 \<longleftrightarrow> raw_field f 1 off < 2 ^ ?b 1"
  define s where "s = (if ok0 \<and> ok1 then bp_snapshot p else - 1)"
  define ok2 where "ok2 \<longleftrightarrow> raw_field f 2 (ucast s) < 2 ^ ?b 2"
  have dd: "ok \<longleftrightarrow> ok0 \<and> ok1 \<and> ok2" "d0 = clamp f 0 (bp_inode p)" "d1 = clamp f 1 off" "d2 = clamp f 2 (ucast s)"
    using d by (auto simp: lossy_digits_def Let_def ok0_def off_def ok1_def s_def ok2_def)
  obtain st1 k1 where 1: "set_inc_field_lossy f 0 (bp_inode p) (st, o1) = Some (ok0, st1, k1)"
    "pack_inv ?u d0 (?b 0) (st1, k1)" "length k1 = length out"
    using set_inc_field_lossy_inv [OF st(2) refl bits(1), of "bp_inode p"] S o1 by (auto simp: dd ok0_def)
  obtain st2 k2 where 2: "set_inc_field_lossy f 1 off (st1, k1) = Some (ok1, st2, k2)"
    "pack_inv ?u (d0 * 2 ^ ?b 1 + d1) (?b 0 + ?b 1) (st2, k2)" "length k2 = length out"
    using set_inc_field_lossy_inv [OF 1(2) refl bits(2), of off] S 1(3) by (auto simp: dd ok1_def)
  obtain st3 k3 where 3: "set_inc_field_lossy f 2 (ucast s) (st2, k2) = Some (ok2, st3, k3)"
    "pack_inv ?u ((d0 * 2 ^ ?b 1 + d1) * 2 ^ ?b 2 + d2) ?S (st3, k3)" "length k3 = length out"
    using set_inc_field_lossy_inv [OF 2(2) refl bits(3), of "ucast s"] S 2(3)
    by (auto simp: dd ok2_def bkey_format_key_bits_def)
  obtain o3 where o3: "pack_state_finish st3 k3 = Some o3" "length o3 = length out"
    "top_num o3 ?u ?S = (d0 * 2 ^ ?b 1 + d1) * 2 ^ ?b 2 + d2"
    using pack_state_finish_top [OF 3(2)] 3(3) by (auto simp: top_num_def)
  define o4 where "o4 = set_bp_type KEY_TYPE_deleted (set_bp_format KEY_FORMAT_LOCAL_BTREE
    (set_bp_u64s (of_nat ?u) o3))"
  have sk: "same_key o4 o3" unfolding o4_def by (rule same_key_header)
  have "top_num o4 ?u ?S = radix 0 (fbits f pos_fields) [d0, d1, d2]"
    using same_key_wnum [OF sk, of "64 * ?u - ?S" ?u] key_bits_le [OF f] o3(3) by (simp add: top_num_def)
  then have "raw_fields f o4 0 pos_fields = [d0, d1, d2]"
    using key_bits_le [OF f] by (intro raw_fields_unique)
      (simp_all add: bkey_format_key_bits_eq dd clamp_def min_less_iff_disj)
  then have "raw_pos f o4 = (d0, d1, d2)" by (simp add: raw_pos_def Let_def)
  moreover have "length o4 = length out" using sk o3(2) by (simp add: same_key_def)
  moreover have "bch2_bkey_pack_pos_lossy out q f =
      Some (if e \<and> ok then BKEY_PACK_POS_EXACT else BKEY_PACK_POS_SMALLER, o4)"
    using st(1) out b 1(1) 2(1) 3(1) o3(1)
    by (cases ok0; cases ok1; cases ok2)
      (simp_all add: bch2_bkey_pack_pos_lossy_def o1_def [symmetric] off_def s_def dd(1) Let_def
        o4_def [symmetric])
  ultimately show ?thesis by blast
qed

section \<open>Properties\<close>

text \<open>
  C26: \<^verbatim>\<open>bch2_bkey_pack_pos_lossy\<close> with a valid format rounds the position down to the greatest
  position the format can represent. \<^verbatim>\<open>EXACT\<close> means that the packed key unpacks to the position
  itself; \<^verbatim>\<open>SMALLER\<close> that it unpacks to a smaller one and that no key packed with the format
  lies strictly between; \<^verbatim>\<open>FAIL\<close> that every packed key is greater than the position.
\<close>

theorem pack_pos_lossy_floor:
  assumes "bch2_bkey_format_invalid f = Inr ()" "key_u64s f \<le> length out"
    and "key_u64s f \<le> length k" "bkey_unpack_pos_local f k = Some kp"
  shows "\<exists>ret out'. bch2_bkey_pack_pos_lossy out p f = Some (ret, out') \<and>
    (case ret of
       BKEY_PACK_POS_FAIL \<Rightarrow> p < kp
     | BKEY_PACK_POS_EXACT \<Rightarrow> bkey_unpack_pos_local f out' = Some p
     | BKEY_PACK_POS_SMALLER \<Rightarrow>
         (\<exists>q. bkey_unpack_pos_local f out' = Some q \<and> q < p \<and> (kp \<le> p \<longrightarrow> kp \<le> q)))"
proof -
  have v: "fmt_valid f" using assms(1) by (simp add: format_invalid_iff)
  then have f: "fmt_fits f" by (rule fmt_valid_fits)
  have rep: "rep f kp" using unpack_pos_rep [OF v assms(3,4)] .
  have fs: "floor_step f p (pack_pos_borrow f p)" by (rule floor_pack_pos_borrow)
  show ?thesis
  proof (cases "pack_pos_borrow f p")
    case None
    then show ?thesis
      using fs rep assms(2) fmt_fits_pos [OF f]
      by (simp add: bch2_bkey_pack_pos_lossy_def pack_state_init_def high_word_def floor_step_def)
  next
    case (Some ep)
    then obtain e p' where b: "pack_pos_borrow f p = Some (e, p')" by (cases ep) simp
    obtain ok d0 d1 d2 where d: "lossy_digits f p' = (ok, d0, d1, d2)" by (metis prod_cases4)
    have "field_ok f 2" using v by (simp add: fmt_valid_def)
    then have "unat (field_offset f ! 2) + 2 ^ (bits_per_field f ! 2) \<le> 2 ^ 32"
      by (simp add: field_ok_def bch2_bkey_format_current_def)
    moreover have "(0::nat) < 2 ^ (bits_per_field f ! 2)" by simp
    ultimately have "unat (field_offset f ! 2) < 2 ^ 32" by linarith
    note ge = pack_pos_borrow_ge [OF b this]
    obtain out' where o: "bch2_bkey_pack_pos_lossy out p f =
        Some (if e \<and> ok then BKEY_PACK_POS_EXACT else BKEY_PACK_POS_SMALLER, out')"
      "length out' = length out" "raw_pos f out' = (d0, d1, d2)"
      using pack_lossy_fields [OF f assms(2) d b] by blast
    have lo: "key_u64s f \<le> length out'" using o(2) assms(2) by simp
    obtain q where q: "bkey_unpack_pos_local f out' = Some q"
      "unat (bp_inode q) = d0 + unat (field_offset f ! 0)"
      "unat (bp_offset q) = d1 + unat (field_offset f ! 1)"
      "unat (bp_snapshot q) = d2 + unat (field_offset f ! 2)"
      by (rule unpack_pos_raw [OF v lo o(3)])
    note fl = lossy_digits_floor [OF v ge d q(2-4)]
    have "(if e then p' = p else p' < p)" "kp \<le> p \<longrightarrow> kp \<le> p'"
      using fs rep by (simp_all add: b floor_step_def)
    then have "if e \<and> ok then q = p else q < p" "kp \<le> p \<longrightarrow> kp \<le> q"
      using fl(1) fl(2) [OF rep] by (auto split: if_splits)
    then show ?thesis using o(1) q(1) by auto
  qed
qed

theorem pack_pos_lossy_floor_witness:
  "\<exists>ret out'. bch2_bkey_pack_pos_lossy [0] (SPOS 5000 1 0) witness_format = Some (ret, out')"
proof -
  have "bkey_unpack_pos_local witness_format [0] = Some (SPOS 4096 0 4294967295)"
    by (simp add: bkey_unpack_pos_local_def unpack_state_init_def high_word_def load_word_def
        get_inc_field_def witness_format_def Let_def)
  from pack_pos_lossy_floor [OF witness_format_valid _ _ this, of "[0]" "SPOS 5000 1 0"]
  show ?thesis by (auto simp: witness_format_def)
qed

end
