(* ===== verification/Six.thy ===== *)
theory Six
  imports Bch_Prelude "HOL-Library.Multiset"
begin

unbundle bit_operations_syntax

text \<open>
  Six locks (\<^verbatim>\<open>libbcachefs/six.c\<close>, \<^verbatim>\<open>six.h\<close>): shared/intent/exclusive locks whose whole state is
  one 32 bit word, with a wait list and hand-off on wakeup. This theory translates the
  operations; \<open>Six_Safety\<close> runs them concurrently.

  The state word holds the read count in bits 0-25, the intent bit 26, the write bit 27, one
  waiting bit per lock type from 28 on, and the no-spin bit 31. A compare-and-exchange loop
  that ends has the effect of its last, atomic, iteration, and is translated as that. \<open>EBUG_ON\<close>
  is empty in this build. Lockdep and tracing calls have no effect on the lock. \<open>cpu\<close> is the
  processor the caller runs on; the per-cpu reader mode is used when \<open>readers\<close> is not
  \<open>None\<close>.
\<close>

section \<open>Data\<close>

datatype six_lock_type = SIX_LOCK_read | SIX_LOCK_intent | SIX_LOCK_write

text \<open>The numbers of the enumeration.\<close>

primrec six_nr :: "six_lock_type \<Rightarrow> nat" where
  "six_nr SIX_LOCK_read = 0"
| "six_nr SIX_LOCK_intent = 1"
| "six_nr SIX_LOCK_write = 2"

definition six_type_of :: "nat \<Rightarrow> six_lock_type" where
  "six_type_of n = (if n = 0 then SIX_LOCK_read else if n = 1 then SIX_LOCK_intent else SIX_LOCK_write)"

type_synonym task = nat

record six_lock_waiter =
  wtask :: task
  lock_want :: six_lock_type
  lock_acquired :: bool
  start_time :: u64

record six_lock =
  lstate :: u32
  lseq :: u32
  intent_lock_recurse :: u32
  write_lock_recurse :: u32
  owner :: "task option"
  readers :: "u32 list option"
  wait_list :: "six_lock_waiter list"

definition SIX_LOCK_HELD_read :: u32 where "SIX_LOCK_HELD_read = NOT (push_bit 26 (NOT 0))"
definition SIX_LOCK_HELD_intent :: u32 where "SIX_LOCK_HELD_intent = push_bit 26 1"
definition SIX_LOCK_HELD_write :: u32 where "SIX_LOCK_HELD_write = push_bit 27 1"
definition SIX_LOCK_WAITING :: "six_lock_type \<Rightarrow> u32" where "SIX_LOCK_WAITING ty = push_bit (28 + six_nr ty) 1"
definition SIX_LOCK_NOSPIN :: u32 where "SIX_LOCK_NOSPIN = push_bit 31 1"

record six_lock_vals =
  lock_val :: u32
  lock_fail :: u32
  held_mask :: u32
  unlock_wakeup :: six_lock_type

primrec six_l :: "six_lock_type \<Rightarrow> six_lock_vals" where
  "six_l SIX_LOCK_read = \<lparr>lock_val = push_bit 0 1, lock_fail = SIX_LOCK_HELD_write,
     held_mask = SIX_LOCK_HELD_read, unlock_wakeup = SIX_LOCK_write\<rparr>"
| "six_l SIX_LOCK_intent = \<lparr>lock_val = SIX_LOCK_HELD_intent, lock_fail = SIX_LOCK_HELD_intent,
     held_mask = SIX_LOCK_HELD_intent, unlock_wakeup = SIX_LOCK_intent\<rparr>"
| "six_l SIX_LOCK_write = \<lparr>lock_val = SIX_LOCK_HELD_write, lock_fail = SIX_LOCK_HELD_read,
     held_mask = SIX_LOCK_HELD_write, unlock_wakeup = SIX_LOCK_read\<rparr>"

section \<open>Taking the lock\<close>

definition six_set_bitmask :: "u32 \<Rightarrow> six_lock \<Rightarrow> six_lock" where
  "six_set_bitmask m lk = (if lstate lk AND m \<noteq> m then lk\<lparr>lstate := lstate lk OR m\<rparr> else lk)"

definition six_clear_bitmask :: "u32 \<Rightarrow> six_lock \<Rightarrow> six_lock" where
  "six_clear_bitmask m lk = (if lstate lk AND m \<noteq> 0 then lk\<lparr>lstate := lstate lk AND NOT m\<rparr> else lk)"

definition six_set_owner :: "six_lock_type \<Rightarrow> u32 \<Rightarrow> task \<Rightarrow> six_lock \<Rightarrow> six_lock" where
  "six_set_owner ty old t lk =
     (if ty \<noteq> SIX_LOCK_intent then lk
      else if old AND SIX_LOCK_HELD_intent = 0 then lk\<lparr>owner := Some t\<rparr>
      else lk)"

definition pcpu_read_count :: "six_lock \<Rightarrow> u32" where
  "pcpu_read_count lk = (case readers lk of None \<Rightarrow> 0 | Some r \<Rightarrow> sum_list r)"

definition pcpu_add :: "nat \<Rightarrow> u32 \<Rightarrow> six_lock \<Rightarrow> six_lock" where
  "pcpu_add cpu v lk = lk\<lparr>readers := map_option (\<lambda>r. r[cpu := r ! cpu + v]) (readers lk)\<rparr>"

text \<open>\<^verbatim>\<open>__do_six_trylock\<close>: 1 on success, 0 on failure, \<open>-1 - type\<close> when a wakeup is due.\<close>

definition do_six_trylock_raw :: "nat \<Rightarrow> six_lock_type \<Rightarrow> task \<Rightarrow> bool \<Rightarrow> six_lock \<Rightarrow> int \<times> six_lock" where
  "do_six_trylock_raw cpu ty t try lk =
     (let (ret, old, lk) =
        (if ty = SIX_LOCK_read \<and> readers lk \<noteq> None then
           let lk = pcpu_add cpu 1 lk;
               old = lstate lk;
               ret = of_bool (old AND lock_fail (six_l ty) = 0) :: int;
               lk = pcpu_add cpu (- of_bool (ret = 0)) lk;
               ret = (if ret = 0 \<and> lstate lk AND SIX_LOCK_WAITING SIX_LOCK_write \<noteq> 0
                      then - 1 - int (six_nr SIX_LOCK_write) else ret)
           in (ret, old, lk)
         else if ty = SIX_LOCK_write \<and> readers lk \<noteq> None then
           let lk = (if try then lk\<lparr>lstate := lstate lk + SIX_LOCK_HELD_write\<rparr> else lk);
               ret = of_bool (pcpu_read_count lk = 0) :: int
           in if try \<and> ret = 0
              then let old = lstate lk - SIX_LOCK_HELD_write;
                       lk = lk\<lparr>lstate := old\<rparr>
                   in (if old AND SIX_LOCK_WAITING SIX_LOCK_read \<noteq> 0
                       then - 1 - int (six_nr SIX_LOCK_read) else ret, old, lk)
              else (ret, lstate lk, lk)
         else
           let old = lstate lk;
               ret = of_bool (old AND lock_fail (six_l ty) = 0) :: int
           in if ret = 0 \<or> ty = SIX_LOCK_write \<and> \<not> try then (ret, old, lk)
              else (ret, old, lk\<lparr>lstate := old + lock_val (six_l ty)\<rparr>))
      in (ret, if ret > 0 then six_set_owner ty old t lk else lk))"

text \<open>
  The scan of \<^verbatim>\<open>__six_lock_wakeup\<close> over the wait list: the last result, the lock, the waiters
  left, and the waiters granted the lock, in order.
\<close>

primrec wakeup_scan :: "nat \<Rightarrow> six_lock_type \<Rightarrow> six_lock_waiter list \<Rightarrow> int \<Rightarrow> bool \<Rightarrow> six_lock
    \<Rightarrow> int \<times> six_lock \<times> six_lock_waiter list \<times> six_lock_waiter list" where
  "wakeup_scan cpu ty [] ret saw_one lk = (ret, six_clear_bitmask (SIX_LOCK_WAITING ty) lk, [], [])"
| "wakeup_scan cpu ty (w # ws) ret saw_one lk =
     (if lock_want w \<noteq> ty then
        let (ret, lk, left, granted) = wakeup_scan cpu ty ws ret saw_one lk in (ret, lk, w # left, granted)
      else if saw_one \<and> ty \<noteq> SIX_LOCK_read then (ret, lk, w # ws, [])
      else
        let (ret, lk) = do_six_trylock_raw cpu ty (wtask w) False lk in
        if ret \<le> 0 then (ret, lk, w # ws, [])
        else
          let (ret, lk, left, granted) = wakeup_scan cpu ty ws ret True lk
          in (ret, lk, left, w\<lparr>lock_acquired := True\<rparr> # granted))"

lemma trylock_neg: "fst (do_six_trylock_raw cpu ty t False lk) < 0 \<Longrightarrow> ty = SIX_LOCK_read \<and> fst (do_six_trylock_raw cpu ty t False lk) = - 3"
  by (auto simp: do_six_trylock_raw_def Let_def of_bool_def split: if_splits prod.splits)

lemma wakeup_scan_neg:
  "0 \<le> ret \<Longrightarrow> wakeup_scan cpu ty ws ret saw lk = (r, rest) \<Longrightarrow> r < 0 \<Longrightarrow> ty = SIX_LOCK_read \<and> r = - 3"
proof (induction ws arbitrary: ret saw lk rest)
  case (Cons w ws)
  obtain x lk' where x: "do_six_trylock_raw cpu ty (wtask w) False lk = (x, lk')" by fastforce
  show ?case
  proof (cases "lock_want w \<noteq> ty \<or> saw \<and> ty \<noteq> SIX_LOCK_read \<or> x \<le> 0")
    case True
    then show ?thesis
      using Cons trylock_neg [of cpu ty "wtask w" lk] x by (auto split: if_splits prod.splits)
  next
    case False
    then have "0 \<le> x" by simp
    then show ?thesis using Cons.IH [of x True lk'] Cons.prems False x by (auto split: prod.splits)
  qed
qed auto

text \<open>A failed per-cpu read trylock makes the wakeup start again, for the writers.\<close>

function six_lock_wakeup_raw :: "nat \<Rightarrow> six_lock_type \<Rightarrow> six_lock \<Rightarrow> six_lock \<times> six_lock_waiter list" where
  "six_lock_wakeup_raw cpu ty lk =
     (let (ret, lk, left, granted) = wakeup_scan cpu ty (wait_list lk) 0 False lk;
          lk = lk\<lparr>wait_list := left\<rparr>
      in if ret < 0 then
           let (lk, more) = six_lock_wakeup_raw cpu (six_type_of (nat (- ret - 1))) lk in (lk, granted @ more)
         else (lk, granted))"
  by pat_completeness auto
termination
  by (relation "measure (\<lambda>(cpu, ty, lk). of_bool (ty = SIX_LOCK_read))")
    (auto dest!: wakeup_scan_neg [rotated, OF sym] simp: six_type_of_def)

declare six_lock_wakeup_raw.simps [simp del]

text \<open>Whether an unlock that left the word \<open>st\<close> has to wake waiters of a type.\<close>

definition needs_wakeup :: "u32 \<Rightarrow> six_lock_type \<Rightarrow> bool" where
  "needs_wakeup st ty \<longleftrightarrow> \<not> (ty = SIX_LOCK_write \<and> st AND SIX_LOCK_HELD_read \<noteq> 0) \<and> st AND SIX_LOCK_WAITING ty \<noteq> 0"

definition six_lock_wakeup :: "nat \<Rightarrow> u32 \<Rightarrow> six_lock_type \<Rightarrow> six_lock \<Rightarrow> six_lock \<times> six_lock_waiter list" where
  "six_lock_wakeup cpu st ty lk = (if needs_wakeup st ty then six_lock_wakeup_raw cpu ty lk else (lk, []))"

definition do_six_trylock :: "nat \<Rightarrow> six_lock_type \<Rightarrow> task \<Rightarrow> bool \<Rightarrow> six_lock \<Rightarrow> bool \<times> six_lock \<times> six_lock_waiter list" where
  "do_six_trylock cpu ty current try lk =
     (let (ret, lk) = do_six_trylock_raw cpu ty current try lk;
          (lk, granted) = (if ret < 0 then six_lock_wakeup_raw cpu (six_type_of (nat (- ret - 1))) lk else (lk, []))
      in (ret > 0, lk, granted))"

definition six_trylock_ip :: "nat \<Rightarrow> six_lock_type \<Rightarrow> task \<Rightarrow> six_lock \<Rightarrow> bool \<times> six_lock \<times> six_lock_waiter list" where
  "six_trylock_ip cpu ty current lk = do_six_trylock cpu ty current True lk"

section \<open>Dropping the lock\<close>

text \<open>The part of \<open>do_six_unlock_type\<close> before the wakeup, with the word it leaves.\<close>

definition unlock_word :: "nat \<Rightarrow> six_lock_type \<Rightarrow> six_lock \<Rightarrow> u32 \<times> six_lock" where
  "unlock_word cpu ty lk =
     (let lk = (if ty = SIX_LOCK_intent then lk\<lparr>owner := None\<rparr> else lk) in
      if ty = SIX_LOCK_read \<and> readers lk \<noteq> None then
        let lk = pcpu_add cpu (- 1) lk in (lstate lk, lk)
      else
        let v = lock_val (six_l ty);
            v = (if ty \<noteq> SIX_LOCK_read then v + (lstate lk AND SIX_LOCK_NOSPIN) else v);
            st = lstate lk - v
        in (st, lk\<lparr>lstate := st\<rparr>))"

definition do_six_unlock_type :: "nat \<Rightarrow> six_lock_type \<Rightarrow> six_lock \<Rightarrow> six_lock \<times> six_lock_waiter list" where
  "do_six_unlock_type cpu ty lk =
     (let (st, lk) = unlock_word cpu ty lk in six_lock_wakeup cpu st (unlock_wakeup (six_l ty)) lk)"

text \<open>The recursion counts: \<open>Inl\<close> is the lock still held, \<open>Inr\<close> the lock to be dropped.\<close>

definition unlock_recurse :: "six_lock_type \<Rightarrow> six_lock \<Rightarrow> six_lock + six_lock" where
  "unlock_recurse ty lk =
     (if ty = SIX_LOCK_intent \<and> intent_lock_recurse lk \<noteq> 0
      then Inl (lk\<lparr>intent_lock_recurse := intent_lock_recurse lk - 1\<rparr>)
      else if ty = SIX_LOCK_write \<and> write_lock_recurse lk \<noteq> 0
      then Inl (lk\<lparr>write_lock_recurse := write_lock_recurse lk - 1\<rparr>)
      else Inr (if ty = SIX_LOCK_write then lk\<lparr>lseq := lseq lk + 1\<rparr> else lk))"

definition six_unlock_ip :: "nat \<Rightarrow> six_lock_type \<Rightarrow> six_lock \<Rightarrow> six_lock \<times> six_lock_waiter list" where
  "six_unlock_ip cpu ty lk =
     (case unlock_recurse ty lk of Inl lk \<Rightarrow> (lk, []) | Inr lk \<Rightarrow> do_six_unlock_type cpu ty lk)"

definition six_relock_ip :: "nat \<Rightarrow> six_lock_type \<Rightarrow> task \<Rightarrow> u32 \<Rightarrow> six_lock \<Rightarrow> bool \<times> six_lock \<times> six_lock_waiter list" where
  "six_relock_ip cpu ty current sq lk =
     (if lseq lk \<noteq> sq then (False, lk, [])
      else
        let (ok, lk, granted) = six_trylock_ip cpu ty current lk in
        if \<not> ok then (False, lk, granted)
        else if lseq lk \<noteq> sq then
          let (lk, more) = six_unlock_ip cpu ty lk in (False, lk, granted @ more)
        else (True, lk, granted))"

section \<open>The slow path\<close>

text \<open>
  \<open>six_lock_slowpath\<close> blocks; its parts are: a writer announces itself, which keeps new readers
  out; under the wait list's spin lock the waiter sets its waiting bit, tries again and is
  queued if that fails; and, when \<open>should_sleep_fn\<close> returns an error, it gives up.
  Optimistic spinning is compiled out. \<open>now\<close> is \<open>local_clock()\<close>.
\<close>

definition slowpath_announce :: "six_lock_type \<Rightarrow> six_lock \<Rightarrow> six_lock" where
  "slowpath_announce ty lk =
     (if ty = SIX_LOCK_write then lk\<lparr>lstate := lstate lk + SIX_LOCK_HELD_write\<rparr> else lk)"

definition waiter_start_time :: "u64 \<Rightarrow> six_lock_waiter list \<Rightarrow> u64" where
  "waiter_start_time now ws =
     (if ws \<noteq> [] \<and> sint (start_time (last ws) - now) \<ge> 0 then start_time (last ws) + 1 else now)"

definition slowpath_enqueue :: "nat \<Rightarrow> six_lock_type \<Rightarrow> task \<Rightarrow> u64 \<Rightarrow> six_lock \<Rightarrow> int \<times> six_lock" where
  "slowpath_enqueue cpu ty current now lk =
     (let lk = six_set_bitmask (SIX_LOCK_WAITING ty) lk;
          (ret, lk) = do_six_trylock_raw cpu ty current False lk
      in if ret \<le> 0
         then (ret, lk\<lparr>wait_list := wait_list lk @
             [\<lparr>wtask = current, lock_want = ty, lock_acquired = False,
               start_time = waiter_start_time now (wait_list lk)\<rparr>]\<rparr>)
         else (ret, lk))"

text \<open>
  \<open>six_lock_ip_waiter\<close> up to the point where it has the lock or goes to sleep: whether it has
  the lock, and the waiters it granted the lock on the way.
\<close>

definition six_lock_ip_waiter :: "nat \<Rightarrow> six_lock_type \<Rightarrow> task \<Rightarrow> u64 \<Rightarrow> six_lock \<Rightarrow> bool \<times> six_lock \<times> six_lock_waiter list" where
  "six_lock_ip_waiter cpu ty current now lk =
     (let (ok, lk, granted) = do_six_trylock cpu ty current True lk in
      if ok then (True, lk, granted)
      else
        let lk = slowpath_announce ty lk;
            (ret, lk) = slowpath_enqueue cpu ty current now lk;
            (lk, more) = (if ret < 0 then six_lock_wakeup_raw cpu (six_type_of (nat (- ret - 1))) lk else (lk, []))
        in (ret > 0, lk, granted @ more))"

text \<open>
  Giving up: the waiter leaves the list unless it finds \<open>lock_acquired\<close> set, and a writer takes
  back its announcement.
\<close>

definition abort_dequeue :: "task \<Rightarrow> six_lock \<Rightarrow> six_lock" where
  "abort_dequeue current lk = lk\<lparr>wait_list := filter (\<lambda>w. wtask w \<noteq> current) (wait_list lk)\<rparr>"

definition slowpath_abort :: "nat \<Rightarrow> six_lock_type \<Rightarrow> task \<Rightarrow> bool \<Rightarrow> six_lock \<Rightarrow> six_lock \<times> six_lock_waiter list" where
  "slowpath_abort cpu ty current acquired lk =
     (let lk = (if acquired then lk else abort_dequeue current lk) in
      if acquired then do_six_unlock_type cpu ty lk
      else if ty = SIX_LOCK_write then
        let lk = six_clear_bitmask SIX_LOCK_HELD_write lk
        in six_lock_wakeup cpu (lstate lk) SIX_LOCK_read lk
      else (lk, []))"

section \<open>Conversions and counts\<close>

definition six_lock_increment :: "nat \<Rightarrow> six_lock_type \<Rightarrow> six_lock \<Rightarrow> six_lock" where
  "six_lock_increment cpu ty lk =
     (case ty of
        SIX_LOCK_read \<Rightarrow>
          if readers lk \<noteq> None then pcpu_add cpu 1 lk
          else lk\<lparr>lstate := lstate lk + lock_val (six_l ty)\<rparr>
      | SIX_LOCK_write \<Rightarrow>
          lk\<lparr>write_lock_recurse := write_lock_recurse lk + 1, intent_lock_recurse := intent_lock_recurse lk + 1\<rparr>
      | SIX_LOCK_intent \<Rightarrow> lk\<lparr>intent_lock_recurse := intent_lock_recurse lk + 1\<rparr>)"

definition six_lock_downgrade :: "nat \<Rightarrow> six_lock \<Rightarrow> six_lock \<times> six_lock_waiter list" where
  "six_lock_downgrade cpu lk = six_unlock_ip cpu SIX_LOCK_intent (six_lock_increment cpu SIX_LOCK_read lk)"

definition six_lock_tryupgrade :: "nat \<Rightarrow> task \<Rightarrow> six_lock \<Rightarrow> bool \<times> six_lock" where
  "six_lock_tryupgrade cpu current lk =
     (let old = lstate lk in
      if old AND SIX_LOCK_HELD_intent \<noteq> 0 then (False, lk)
      else
        let new = (if readers lk = None then old - lock_val (six_l SIX_LOCK_read) else old);
            new = new OR SIX_LOCK_HELD_intent;
            lk = lk\<lparr>lstate := new\<rparr>;
            lk = (if readers lk \<noteq> None then pcpu_add cpu (- 1) lk else lk)
        in (True, six_set_owner SIX_LOCK_intent old current lk))"

definition six_trylock_convert :: "nat \<Rightarrow> task \<Rightarrow> six_lock_type \<Rightarrow> six_lock_type \<Rightarrow> six_lock \<Rightarrow> bool \<times> six_lock \<times> six_lock_waiter list" where
  "six_trylock_convert cpu current from to lk =
     (if to = from then (True, lk, [])
      else if to = SIX_LOCK_read then
        let (lk, granted) = six_lock_downgrade cpu lk in (True, lk, granted)
      else let (ok, lk) = six_lock_tryupgrade cpu current lk in (ok, lk, []))"

text \<open>\<open>six_lock_wakeup_all\<close>: the lock and the tasks woken.\<close>

definition six_lock_wakeup_all :: "nat \<Rightarrow> six_lock \<Rightarrow> six_lock \<times> six_lock_waiter list \<times> task list" where
  "six_lock_wakeup_all cpu lk =
     (let st = lstate lk;
          (lk, g1) = six_lock_wakeup cpu st SIX_LOCK_read lk;
          (lk, g2) = six_lock_wakeup cpu st SIX_LOCK_intent lk;
          (lk, g3) = six_lock_wakeup cpu st SIX_LOCK_write lk
      in (lk, g1 @ g2 @ g3, map wtask (wait_list lk)))"

definition six_lock_counts :: "six_lock \<Rightarrow> six_lock_type \<Rightarrow> u32" where
  "six_lock_counts lk ty =
     (case ty of
        SIX_LOCK_read \<Rightarrow> if readers lk = None then lstate lk AND SIX_LOCK_HELD_read else pcpu_read_count lk
      | SIX_LOCK_intent \<Rightarrow> of_bool (lstate lk AND SIX_LOCK_HELD_intent \<noteq> 0) + intent_lock_recurse lk
      | SIX_LOCK_write \<Rightarrow> of_bool (lstate lk AND SIX_LOCK_HELD_write \<noteq> 0))"

definition six_lock_readers_add :: "nat \<Rightarrow> u32 \<Rightarrow> six_lock \<Rightarrow> six_lock" where
  "six_lock_readers_add cpu nr lk =
     (if readers lk \<noteq> None then pcpu_add cpu nr lk else lk\<lparr>lstate := lstate lk + nr\<rparr>)"

text \<open>\<^verbatim>\<open>__six_lock_init\<close> of a user space build, on a zeroed object: there is no per-cpu mode.\<close>

definition six_lock_init :: six_lock where
  "six_lock_init = \<lparr>lstate = 0, lseq = 0, intent_lock_recurse = 0, write_lock_recurse = 0,
     owner = None, readers = None, wait_list = []\<rparr>"

definition six_lock_exit :: "six_lock \<Rightarrow> six_lock" where
  "six_lock_exit lk = lk\<lparr>readers := None\<rparr>"

end
