(* ===== verification/Six_Word.thy ===== *)
theory Six_Word
  imports Six
begin

unbundle bit_operations_syntax

text \<open>
  The state word of a six lock as a read count, an intent bit, a write bit and waiting bits,
  what each operation of \<open>Six\<close> does to them, and the result of a wakeup's scan of the
  wait list when there are no per-cpu readers.
\<close>

section \<open>The state word\<close>

definition rdcount :: "u32 \<Rightarrow> nat" where "rdcount st = unat (take_bit 26 st)"
definition ibit :: "u32 \<Rightarrow> bool" where "ibit st \<longleftrightarrow> bit st 26"
definition wbit :: "u32 \<Rightarrow> bool" where "wbit st \<longleftrightarrow> bit st 27"
definition waitbit :: "u32 \<Rightarrow> six_lock_type \<Rightarrow> bool" where "waitbit st ty \<longleftrightarrow> bit st (28 + six_nr ty)"

lemmas word_view = rdcount_def ibit_def wbit_def waitbit_def

lemma six_nr_le: "six_nr ty \<le> 2"
  by (cases ty) simp_all

lemma six_nr_eq: "six_nr a = six_nr b \<longleftrightarrow> a = b"
  by (cases a; cases b) simp_all

lemma bit_pow: "bit (2 ^ k :: u32) n \<longleftrightarrow> k = n \<and> n < 32"
  by (auto simp: bit_exp_iff)

lemma and_pow: "k < 32 \<Longrightarrow> st AND 2 ^ k = 0 \<longleftrightarrow> \<not> bit (st :: u32) k"
proof -
  assume "k < 32"
  have "st AND 2 ^ k = 0 \<longleftrightarrow> (\<forall>n. \<not> (bit st n \<and> bit (2 ^ k :: u32) n))"
    unfolding bit_eq_iff bit_and_iff by (auto simp: bit_pow)
  then show ?thesis using \<open>k < 32\<close> by (auto simp: bit_pow)
qed

lemma add_pow: "k < 32 \<Longrightarrow> \<not> bit (st :: u32) k \<Longrightarrow> st + 2 ^ k = st OR 2 ^ k"
  by (intro disjunctive_add_eq_or) (simp only: and_pow not_False_eq_True)

lemma sub_pow: "k < 32 \<Longrightarrow> bit (st :: u32) k \<Longrightarrow> st - 2 ^ k = st AND NOT (2 ^ k)"
proof -
  assume k: "k < 32" "bit st k"
  have "\<not> bit (st AND NOT (2 ^ k)) k" using k(1) by (simp add: bit_and_iff bit_not_iff bit_pow)
  with k(1) have "(st AND NOT (2 ^ k)) + 2 ^ k = (st AND NOT (2 ^ k)) OR 2 ^ k" by (rule add_pow)
  also have "\<dots> = st" using k by (intro bit_eqI) (auto simp: bit_or_iff bit_and_iff bit_not_iff bit_pow)
  finally show ?thesis by (metis add_diff_cancel_right')
qed

lemma rdcount_cong: "(\<And>n. n < 26 \<Longrightarrow> bit a n = bit b n) \<Longrightarrow> rdcount a = rdcount b"
proof -
  assume "\<And>n. n < 26 \<Longrightarrow> bit a n = bit b n"
  then have "take_bit 26 a = take_bit 26 b" by (intro bit_eqI) (auto simp: bit_take_bit_iff)
  then show ?thesis by (simp add: rdcount_def)
qed

lemma word_or:
  assumes "26 \<le> k" "k < 32"
  shows "rdcount (st OR 2 ^ k) = rdcount st" "ibit (st OR 2 ^ k) \<longleftrightarrow> ibit st \<or> k = 26"
    "wbit (st OR 2 ^ k) \<longleftrightarrow> wbit st \<or> k = 27"
    "waitbit (st OR 2 ^ k) ty \<longleftrightarrow> waitbit st ty \<or> k = 28 + six_nr ty"
  using assms six_nr_le [of ty] by (auto simp: ibit_def wbit_def waitbit_def bit_or_iff bit_pow intro!: rdcount_cong)

lemma word_and_not:
  assumes "26 \<le> k" "k < 32"
  shows "rdcount (st AND NOT (2 ^ k)) = rdcount st" "ibit (st AND NOT (2 ^ k)) \<longleftrightarrow> ibit st \<and> k \<noteq> 26"
    "wbit (st AND NOT (2 ^ k)) \<longleftrightarrow> wbit st \<and> k \<noteq> 27"
    "waitbit (st AND NOT (2 ^ k)) ty \<longleftrightarrow> waitbit st ty \<and> k \<noteq> 28 + six_nr ty"
  using assms six_nr_le [of ty]
  by (auto simp: ibit_def wbit_def waitbit_def bit_and_iff bit_not_iff bit_pow intro!: rdcount_cong)

lemma high_cong:
  assumes "drop_bit 26 a = drop_bit 26 (b :: u32)"
  shows "ibit a = ibit b" "wbit a = wbit b" "waitbit a ty = waitbit b ty"
proof -
  have "bit a (26 + n) = bit b (26 + n)" for n using assms by (metis bit_drop_bit_eq comp_apply)
  from this [of 0] this [of 1] this [of "2 + six_nr ty"]
  show "ibit a = ibit b" "wbit a = wbit b" "waitbit a ty = waitbit b ty"
    by (simp_all add: ibit_def wbit_def waitbit_def)
qed

lemma rdcount_mod: "rdcount st = unat st mod 2 ^ 26"
  by (simp only: rdcount_def take_bit_eq_mask unat_and_mask)

lemma word_inc:
  assumes "rdcount st + 1 < 2 ^ 26"
  shows "rdcount (st + 1) = rdcount st + 1" "ibit (st + 1) = ibit st" "wbit (st + 1) = wbit st"
    "waitbit (st + 1) ty = waitbit st ty"
proof -
  define q r where "q = unat st div 2 ^ 26" and "r = unat st mod 2 ^ 26"
  have st: "unat st = q * 2 ^ 26 + r" unfolding q_def r_def by (rule div_mult_mod_eq [symmetric])
  have r: "r + 1 < 2 ^ 26" using assms by (simp only: rdcount_mod r_def)
  have "st + 1 \<noteq> 0"
  proof
    assume "st + 1 = 0"
    then have "unat st = 2 ^ 32 - 1" by (simp add: word_plus_1_eq_0 unat_minus_1_nat)
    then have "r = 2 ^ 26 - 1" unfolding r_def by simp
    then show False using r by simp
  qed
  then have u: "unat (st + 1) = q * 2 ^ 26 + (r + 1)" using st by (simp add: unat_plus_1_eq)
  then have "unat (st + 1) mod 2 ^ 26 = r + 1" "unat (st + 1) div 2 ^ 26 = q" using r by simp_all
  then have "drop_bit 26 (st + 1) = drop_bit 26 st"
    by (simp only: word_unat_eq_iff unat_drop_bit q_def)
  then show "ibit (st + 1) = ibit st" "wbit (st + 1) = wbit st" "waitbit (st + 1) ty = waitbit st ty"
    by (rule high_cong)+
  show "rdcount (st + 1) = rdcount st + 1" using \<open>unat (st + 1) mod 2 ^ 26 = r + 1\<close> by (simp only: rdcount_mod r_def)
qed

lemma word_dec:
  assumes "0 < rdcount st"
  shows "rdcount (st - 1) = rdcount st - 1" "ibit (st - 1) = ibit st" "wbit (st - 1) = wbit st"
    "waitbit (st - 1) ty = waitbit st ty"
proof -
  define q r where "q = unat st div 2 ^ 26" and "r = unat st mod 2 ^ 26"
  have st: "unat st = q * 2 ^ 26 + r" unfolding q_def r_def by (rule div_mult_mod_eq [symmetric])
  have r: "0 < r" "r < 2 ^ 26" using assms by (simp_all only: rdcount_mod r_def mod_less_divisor) simp
  have "st \<noteq> 0" using st r by auto
  then have u: "unat (st - 1) = q * 2 ^ 26 + (r - 1)" using st r by (simp add: unat_minus_one)
  have "r - 1 < 2 ^ 26" using r by simp
  then have "unat (st - 1) mod 2 ^ 26 = r - 1" "unat (st - 1) div 2 ^ 26 = q" using u by simp_all
  then have "drop_bit 26 (st - 1) = drop_bit 26 st"
    by (simp only: word_unat_eq_iff unat_drop_bit q_def)
  then show "ibit (st - 1) = ibit st" "wbit (st - 1) = wbit st" "waitbit (st - 1) ty = waitbit st ty"
    by (rule high_cong)+
  show "rdcount (st - 1) = rdcount st - 1" using \<open>unat (st - 1) mod 2 ^ 26 = r - 1\<close> by (simp only: rdcount_mod r_def)
qed

text \<open>The operations on the word, by the names of the constants.\<close>

lemmas mask_pows = SIX_LOCK_HELD_intent_def SIX_LOCK_HELD_write_def SIX_LOCK_WAITING_def SIX_LOCK_NOSPIN_def push_bit_of_1

lemma word_tests [simp]:
  "st AND SIX_LOCK_HELD_intent = 0 \<longleftrightarrow> \<not> ibit st" "st AND SIX_LOCK_HELD_write = 0 \<longleftrightarrow> \<not> wbit st"
  "st AND SIX_LOCK_WAITING ty = 0 \<longleftrightarrow> \<not> waitbit st ty"
  "st AND SIX_LOCK_HELD_read = 0 \<longleftrightarrow> rdcount st = 0" "unat (st AND SIX_LOCK_HELD_read) = rdcount st"
proof -
  have r: "SIX_LOCK_HELD_read = mask 26" by (simp only: SIX_LOCK_HELD_read_def not_push_bit_not_0)
  then have t: "st AND SIX_LOCK_HELD_read = take_bit 26 st" by (simp only: take_bit_eq_mask)
  show "unat (st AND SIX_LOCK_HELD_read) = rdcount st" by (simp only: t rdcount_def)
  show "st AND SIX_LOCK_HELD_read = 0 \<longleftrightarrow> rdcount st = 0" by (simp only: t rdcount_def unat_eq_zero)
  show "st AND SIX_LOCK_HELD_intent = 0 \<longleftrightarrow> \<not> ibit st" "st AND SIX_LOCK_HELD_write = 0 \<longleftrightarrow> \<not> wbit st"
    unfolding mask_pows ibit_def wbit_def by (rule and_pow, simp)+
  show "st AND SIX_LOCK_WAITING ty = 0 \<longleftrightarrow> \<not> waitbit st ty"
    unfolding mask_pows waitbit_def by (rule and_pow) (use six_nr_le [of ty] in simp)
qed

lemma word_take_intent:
  assumes "\<not> ibit st"
  shows "rdcount (st + SIX_LOCK_HELD_intent) = rdcount st" "ibit (st + SIX_LOCK_HELD_intent)"
    "wbit (st + SIX_LOCK_HELD_intent) = wbit st" "waitbit (st + SIX_LOCK_HELD_intent) ty = waitbit st ty"
    "st OR SIX_LOCK_HELD_intent = st + SIX_LOCK_HELD_intent"
proof -
  have "st + SIX_LOCK_HELD_intent = st OR 2 ^ 26" using assms unfolding mask_pows ibit_def by (intro add_pow) simp_all
  then show "rdcount (st + SIX_LOCK_HELD_intent) = rdcount st" "ibit (st + SIX_LOCK_HELD_intent)"
      "wbit (st + SIX_LOCK_HELD_intent) = wbit st" "waitbit (st + SIX_LOCK_HELD_intent) ty = waitbit st ty"
      "st OR SIX_LOCK_HELD_intent = st + SIX_LOCK_HELD_intent"
    using word_or [of 26 st] by (simp_all only: mask_pows) simp_all
qed

lemma word_take_write:
  assumes "\<not> wbit st"
  shows "rdcount (st + SIX_LOCK_HELD_write) = rdcount st" "ibit (st + SIX_LOCK_HELD_write) = ibit st"
    "wbit (st + SIX_LOCK_HELD_write)" "waitbit (st + SIX_LOCK_HELD_write) ty = waitbit st ty"
proof -
  have "st + SIX_LOCK_HELD_write = st OR 2 ^ 27" using assms unfolding mask_pows wbit_def by (intro add_pow) simp_all
  then show "rdcount (st + SIX_LOCK_HELD_write) = rdcount st" "ibit (st + SIX_LOCK_HELD_write) = ibit st"
      "wbit (st + SIX_LOCK_HELD_write)" "waitbit (st + SIX_LOCK_HELD_write) ty = waitbit st ty"
    using word_or [of 27 st] by (simp_all only:) simp_all
qed

text \<open>Clearing the no-spin bit along with another one.\<close>

lemma sub_nospin:
  assumes "k < 31" "bit (st :: u32) k"
  shows "st - (2 ^ k + (st AND SIX_LOCK_NOSPIN)) = (st AND NOT (2 ^ k)) AND NOT (2 ^ 31)"
proof (cases "bit st 31")
  case True
  have n: "st AND SIX_LOCK_NOSPIN = 2 ^ 31"
    unfolding mask_pows using True by (intro bit_eqI) (simp only: bit_and_iff bit_pow, blast)
  have "bit (st AND NOT (2 ^ k)) 31" using True assms(1) by (simp only: bit_and_iff bit_not_iff bit_pow) simp
  then have "(st AND NOT (2 ^ k)) - 2 ^ 31 = (st AND NOT (2 ^ k)) AND NOT (2 ^ 31)" by (intro sub_pow) simp
  moreover have "st - 2 ^ k = st AND NOT (2 ^ k)" using assms by (intro sub_pow) simp_all
  ultimately show ?thesis by (simp only: n diff_diff_add [symmetric])
next
  case False
  then have n: "st AND SIX_LOCK_NOSPIN = 0" unfolding mask_pows by (simp only: and_pow) simp
  have "(st AND NOT (2 ^ k)) AND NOT (2 ^ 31) = st AND NOT (2 ^ k)"
    using False by (intro bit_eqI) (auto simp only: bit_and_iff bit_not_iff bit_pow)
  moreover have "st - 2 ^ k = st AND NOT (2 ^ k)" using assms by (intro sub_pow) simp_all
  ultimately show ?thesis by (simp only: n add_0_right)
qed

lemma word_drop:
  assumes "26 \<le> k" "k < 31" "bit (st :: u32) k"
  defines "st' \<equiv> st - (2 ^ k + (st AND SIX_LOCK_NOSPIN))"
  shows "rdcount st' = rdcount st" "ibit st' \<longleftrightarrow> ibit st \<and> k \<noteq> 26" "wbit st' \<longleftrightarrow> wbit st \<and> k \<noteq> 27"
    "waitbit st' ty \<longleftrightarrow> waitbit st ty \<and> k \<noteq> 28 + six_nr ty"
  using assms(1,2) six_nr_le [of ty] word_and_not [of k] word_and_not [of 31 "st AND NOT (2 ^ k)"]
  unfolding st'_def sub_nospin [OF assms(2,3)] by auto

lemma word_drop_intent:
  assumes "ibit st"
  defines "st' \<equiv> st - (SIX_LOCK_HELD_intent + (st AND SIX_LOCK_NOSPIN))"
  shows "rdcount st' = rdcount st" "\<not> ibit st'" "wbit st' = wbit st" "waitbit st' ty = waitbit st ty"
  using word_drop [of 26 st] assms(1)
  unfolding st'_def by (auto simp only: SIX_LOCK_HELD_intent_def push_bit_of_1 ibit_def)

lemma word_drop_write:
  assumes "wbit st"
  defines "st' \<equiv> st - (SIX_LOCK_HELD_write + (st AND SIX_LOCK_NOSPIN))"
  shows "rdcount st' = rdcount st" "ibit st' = ibit st" "\<not> wbit st'" "waitbit st' ty = waitbit st ty"
  using word_drop [of 27 st] assms(1)
  unfolding st'_def by (auto simp only: SIX_LOCK_HELD_write_def push_bit_of_1 wbit_def)

lemma word_wait_bits:
  "rdcount (st OR SIX_LOCK_WAITING ty) = rdcount st" "ibit (st OR SIX_LOCK_WAITING ty) = ibit st"
  "wbit (st OR SIX_LOCK_WAITING ty) = wbit st" "waitbit (st OR SIX_LOCK_WAITING ty) ty' \<longleftrightarrow> waitbit st ty' \<or> ty = ty'"
  "rdcount (st AND NOT (SIX_LOCK_WAITING ty)) = rdcount st" "ibit (st AND NOT (SIX_LOCK_WAITING ty)) = ibit st"
  "wbit (st AND NOT (SIX_LOCK_WAITING ty)) = wbit st" "waitbit (st AND NOT (SIX_LOCK_WAITING ty)) ty' \<longleftrightarrow> waitbit st ty' \<and> ty \<noteq> ty'"
  using word_or [of "28 + six_nr ty" st] word_and_not [of "28 + six_nr ty" st] six_nr_le [of ty]
  by (simp_all add: SIX_LOCK_WAITING_def push_bit_of_1 six_nr_eq)

lemma word_clear_write:
  "rdcount (st AND NOT SIX_LOCK_HELD_write) = rdcount st" "ibit (st AND NOT SIX_LOCK_HELD_write) = ibit st"
  "\<not> wbit (st AND NOT SIX_LOCK_HELD_write)" "waitbit (st AND NOT SIX_LOCK_HELD_write) ty = waitbit st ty"
  using word_and_not [of 27 st] by (simp_all only: SIX_LOCK_HELD_write_def push_bit_of_1) simp_all

section \<open>The operations without per-cpu readers\<close>

lemma trylock_read:
  "readers lk = None \<Longrightarrow> do_six_trylock_raw cpu SIX_LOCK_read t try lk =
    (if wbit (lstate lk) then (0, lk) else (1, lk\<lparr>lstate := lstate lk + 1\<rparr>))"
  by (simp add: do_six_trylock_raw_def Let_def six_set_owner_def)

lemma trylock_intent:
  "readers lk = None \<Longrightarrow> do_six_trylock_raw cpu SIX_LOCK_intent t try lk =
    (if ibit (lstate lk) then (0, lk) else (1, lk\<lparr>lstate := lstate lk + SIX_LOCK_HELD_intent, owner := Some t\<rparr>))"
  by (simp add: do_six_trylock_raw_def Let_def six_set_owner_def)

lemma trylock_write:
  "readers lk = None \<Longrightarrow> do_six_trylock_raw cpu SIX_LOCK_write t try lk =
    (if rdcount (lstate lk) \<noteq> 0 then (0, lk)
     else (1, if try then lk\<lparr>lstate := lstate lk + SIX_LOCK_HELD_write\<rparr> else lk))"
  by (simp add: do_six_trylock_raw_def Let_def six_set_owner_def)

lemmas trylock_none = trylock_read trylock_intent trylock_write

abbreviation wants :: "six_lock_type \<Rightarrow> six_lock_waiter list \<Rightarrow> six_lock_waiter list" where
  "wants ty ws \<equiv> filter (\<lambda>w. lock_want w = ty) ws"

definition clear_wait :: "six_lock_type \<Rightarrow> six_lock \<Rightarrow> six_lock" where
  "clear_wait ty lk = six_clear_bitmask (SIX_LOCK_WAITING ty) lk"

lemma clear_wait_simps [simp]:
  "readers (clear_wait ty lk) = readers lk" "owner (clear_wait ty lk) = owner lk" "lseq (clear_wait ty lk) = lseq lk"
  "intent_lock_recurse (clear_wait ty lk) = intent_lock_recurse lk" "write_lock_recurse (clear_wait ty lk) = write_lock_recurse lk"
  "rdcount (lstate (clear_wait ty lk)) = rdcount (lstate lk)" "ibit (lstate (clear_wait ty lk)) = ibit (lstate lk)"
  "wbit (lstate (clear_wait ty lk)) = wbit (lstate lk)"
  "waitbit (lstate (clear_wait ty lk)) ty' \<longleftrightarrow> waitbit (lstate lk) ty' \<and> ty \<noteq> ty'"
  by (auto simp: clear_wait_def six_clear_bitmask_def word_wait_bits)

text \<open>Waking readers: all of them, unless the write bit is set.\<close>

lemma scan_read:
  assumes "readers lk = None" "rdcount (lstate lk) + length (wants SIX_LOCK_read ws) < 2 ^ 26"
  shows "\<exists>r. wakeup_scan cpu SIX_LOCK_read ws ret saw lk =
    (if wbit (lstate lk) then
       (r, if wants SIX_LOCK_read ws = [] then clear_wait SIX_LOCK_read lk else lk, ws, [])
     else (r, clear_wait SIX_LOCK_read (lk\<lparr>lstate := lstate lk + of_nat (length (wants SIX_LOCK_read ws))\<rparr>),
       filter (\<lambda>w. lock_want w \<noteq> SIX_LOCK_read) ws, map (\<lambda>w. w\<lparr>lock_acquired := True\<rparr>) (wants SIX_LOCK_read ws)))"
  using assms
proof (induction ws arbitrary: ret saw lk)
  case Nil
  then show ?case by (simp add: clear_wait_def)
next
  case (Cons w ws)
  show ?case
  proof (cases "lock_want w = SIX_LOCK_read \<and> \<not> wbit (lstate lk)")
    case False
    then show ?thesis using Cons.IH [of lk ret saw] Cons.prems by (auto simp: trylock_read split: prod.splits if_splits)
  next
    case True
    let ?lk = "lk\<lparr>lstate := lstate lk + 1\<rparr>"
    have b: "rdcount (lstate lk) + 1 < 2 ^ 26" using Cons.prems(2) True by simp
    note inc = word_inc [OF b]
    have "\<exists>r. wakeup_scan cpu SIX_LOCK_read ws 1 True ?lk =
      (r, clear_wait SIX_LOCK_read (?lk\<lparr>lstate := lstate ?lk + of_nat (length (wants SIX_LOCK_read ws))\<rparr>),
       filter (\<lambda>w. lock_want w \<noteq> SIX_LOCK_read) ws, map (\<lambda>w. w\<lparr>lock_acquired := True\<rparr>) (wants SIX_LOCK_read ws))"
      using Cons.IH [of ?lk 1 True] Cons.prems True inc by simp
    then show ?thesis using True Cons.prems(1) by (auto simp: trylock_read add.assoc)
  qed
qed

lemma scan_saw:
  "ty \<noteq> SIX_LOCK_read \<Longrightarrow> wakeup_scan cpu ty ws ret True lk =
    (ret, if wants ty ws = [] then clear_wait ty lk else lk, ws, [])"
  by (induction ws) (simp_all add: clear_wait_def)

text \<open>Waking the other types: the first waiter, if the lock can be taken.\<close>

lemma scan_first:
  fixes ws :: "six_lock_waiter list" and cpu :: nat
  assumes "readers lk = None" "ty \<noteq> SIX_LOCK_read"
  defines "w \<equiv> hd (wants ty ws)"
  defines "tr \<equiv> do_six_trylock_raw cpu ty (wtask w) False lk"
  shows "\<exists>r. wakeup_scan cpu ty ws ret False lk =
    (if wants ty ws = [] then (r, clear_wait ty lk, ws, [])
     else if fst tr \<le> 0 then (r, snd tr, ws, [])
     else (r, if length (wants ty ws) = 1 then clear_wait ty (snd tr) else snd tr, remove1 w ws, [w\<lparr>lock_acquired := True\<rparr>]))"
  unfolding w_def tr_def
proof (induction ws)
  case Nil
  then show ?case by (simp add: clear_wait_def)
next
  case (Cons w ws)
  show ?case
  proof (cases "lock_want w = ty")
    case True
    then show ?thesis using assms(2) by (auto simp: scan_saw split: prod.splits)
  next
    case False
    have "hd (wants ty ws) \<noteq> w" if "wants ty ws \<noteq> []" using that False hd_in_set [OF that] by auto
    then show ?thesis using Cons False by auto
  qed
qed

lemma wakeup_none:
  assumes "readers lk = None" "wakeup_scan cpu ty (wait_list lk) 0 False lk = (r, lk', left, granted)" "0 \<le> r"
  shows "six_lock_wakeup_raw cpu ty lk = (lk'\<lparr>wait_list := left\<rparr>, granted)"
  using assms by (subst six_lock_wakeup_raw.simps) (simp add: Let_def)

lemma scan_nonneg:
  assumes "readers lk = None" "0 \<le> ret" "wakeup_scan cpu ty ws ret saw lk = (r, rest)"
  shows "0 \<le> r"
  using assms
proof (induction ws arbitrary: ret saw lk rest)
  case (Cons w ws)
  obtain x lk' where x: "do_six_trylock_raw cpu ty (wtask w) False lk = (x, lk')" by fastforce
  have "0 \<le> x" "readers lk' = None" using x Cons.prems(1) by (cases ty; auto simp: trylock_none split: if_splits)+
  then show ?case using Cons.IH Cons.prems x by (auto split: if_splits prod.splits)
qed auto

end
