(* ===== verification/Six_Conc.thy ===== *)
theory Six_Conc
  imports Six_Word
begin

unbundle bit_operations_syntax

text \<open>
  Concurrent use of a six lock: the step relation whose steps are the atomic parts of the
  operations of \<open>Six\<close>, run by any number of tasks, and the invariant every step keeps.
\<close>

section \<open>Concurrent use\<close>

text \<open>
  The lock together with what its users know: the multiset of tasks holding it for each type,
  a writer between announcing itself and queueing (or, when it gives up, between leaving the
  queue and taking its announcement back), the wakeups that unlocks have found necessary and
  not yet run, and the number of write sections completed.
\<close>

record six_sys =
  lock :: six_lock
  rd :: "task multiset"
  it :: "task multiset"
  wr :: "task multiset"
  announced :: "task option"
  pending :: "six_lock_type multiset"
  nwrite :: nat

abbreviation st :: "six_sys \<Rightarrow> u32" where "st s \<equiv> lstate (lock s)"
abbreviation waiting :: "six_sys \<Rightarrow> six_lock_waiter list" where "waiting s \<equiv> wait_list (lock s)"

definition six_sys_init :: six_sys where
  "six_sys_init = \<lparr>lock = six_lock_init, rd = {#}, it = {#}, wr = {#}, announced = None, pending = {#}, nwrite = 0\<rparr>"

primrec holders :: "six_sys \<Rightarrow> six_lock_type \<Rightarrow> task multiset" where
  "holders s SIX_LOCK_read = rd s"
| "holders s SIX_LOCK_intent = it s"
| "holders s SIX_LOCK_write = wr s"

primrec hold :: "six_lock_type \<Rightarrow> task \<Rightarrow> six_sys \<Rightarrow> six_sys" where
  "hold SIX_LOCK_read t s = s\<lparr>rd := add_mset t (rd s)\<rparr>"
| "hold SIX_LOCK_intent t s = s\<lparr>it := add_mset t (it s)\<rparr>"
| "hold SIX_LOCK_write t s = s\<lparr>wr := add_mset t (wr s)\<rparr>"

primrec drop_hold :: "six_lock_type \<Rightarrow> task \<Rightarrow> six_sys \<Rightarrow> six_sys" where
  "drop_hold SIX_LOCK_read t s = s\<lparr>rd := rd s - {#t#}\<rparr>"
| "drop_hold SIX_LOCK_intent t s = s\<lparr>it := it s - {#t#}\<rparr>"
| "drop_hold SIX_LOCK_write t s = s\<lparr>wr := wr s - {#t#}\<rparr>"

definition grant :: "six_lock_waiter list \<Rightarrow> six_sys \<Rightarrow> six_sys" where
  "grant ws s = fold (\<lambda>w. hold (lock_want w) (wtask w)) ws s"

text \<open>A task that is neither asleep in the lock nor on its way there.\<close>

definition idle :: "task \<Rightarrow> six_sys \<Rightarrow> bool" where
  "idle t s \<longleftrightarrow> announced s \<noteq> Some t \<and> t \<notin> wtask ` set (waiting s)"

text \<open>The read count has 26 bits: fewer readers, held and waiting, than that.\<close>

definition room :: "six_lock_type \<Rightarrow> six_sys \<Rightarrow> bool" where
  "room ty s \<longleftrightarrow> (ty = SIX_LOCK_read \<longrightarrow> size (rd s) + length (wants SIX_LOCK_read (waiting s)) + 1 < 2 ^ 26)"

text \<open>A write lock is taken by the task that has the intent lock, and once.\<close>

definition may_take :: "six_lock_type \<Rightarrow> task \<Rightarrow> six_sys \<Rightarrow> bool" where
  "may_take ty t s \<longleftrightarrow> idle t s \<and> room ty s \<and> (ty = SIX_LOCK_write \<longrightarrow> t \<in># it s \<and> t \<notin># wr s)"

inductive six_step :: "six_sys \<Rightarrow> six_sys \<Rightarrow> bool" where
  trylock: "may_take ty t s \<Longrightarrow> six_trylock_ip cpu ty t (lock s) = (ok, lk, g) \<Longrightarrow>
    six_step s (grant g ((if ok then hold ty t else id) (s\<lparr>lock := lk\<rparr>)))"
| announce: "may_take SIX_LOCK_write t s \<Longrightarrow>
    six_step s (s\<lparr>lock := slowpath_announce SIX_LOCK_write (lock s), announced := Some t\<rparr>)"
| enqueue: "(if ty = SIX_LOCK_write then announced s = Some t else idle t s) \<Longrightarrow> room ty s \<Longrightarrow>
    slowpath_enqueue cpu ty t now (lock s) = (ret, lk) \<Longrightarrow>
    six_step s ((if ret > 0 then hold ty t else id)
      (s\<lparr>lock := lk, announced := if ty = SIX_LOCK_write then None else announced s\<rparr>))"
| unlock_nested: "idle t s \<Longrightarrow> t \<in># holders s ty \<Longrightarrow> unlock_recurse ty (lock s) = Inl lk \<Longrightarrow>
    six_step s (drop_hold ty t (s\<lparr>lock := lk\<rparr>))"
| unlock: "idle t s \<Longrightarrow> t \<in># holders s ty \<Longrightarrow> ty = SIX_LOCK_intent \<longrightarrow> wr s = {#} \<Longrightarrow>
    unlock_recurse ty (lock s) = Inr lk \<Longrightarrow> unlock_word cpu ty lk = (st', lk') \<Longrightarrow>
    six_step s (drop_hold ty t (s\<lparr>lock := lk',
      pending := (if needs_wakeup st' (unlock_wakeup (six_l ty)) then add_mset (unlock_wakeup (six_l ty)) (pending s) else pending s),
      nwrite := nwrite s + of_bool (ty = SIX_LOCK_write)\<rparr>))"
| wakeup: "ty \<in># pending s \<Longrightarrow> six_lock_wakeup_raw cpu ty (lock s) = (lk, g) \<Longrightarrow>
    six_step s (grant g (s\<lparr>lock := lk, pending := pending s - {#ty#}\<rparr>))"
| abort: "w \<in> set (waiting s) \<Longrightarrow>
    six_step s (s\<lparr>lock := abort_dequeue (wtask w) (lock s),
      announced := if lock_want w = SIX_LOCK_write then Some (wtask w) else announced s\<rparr>)"
| unannounce: "announced s = Some t \<Longrightarrow> lk = six_clear_bitmask SIX_LOCK_HELD_write (lock s) \<Longrightarrow>
    six_step s (s\<lparr>lock := lk, announced := None,
      pending := (if needs_wakeup (lstate lk) SIX_LOCK_read then add_mset SIX_LOCK_read (pending s) else pending s)\<rparr>)"
| increment: "idle t s \<Longrightarrow> room ty s \<Longrightarrow> \<exists>ty'. six_nr ty \<le> six_nr ty' \<and> t \<in># holders s ty' \<Longrightarrow>
    size (it s) + 1 < 2 ^ 32 \<Longrightarrow> size (wr s) + 1 < 2 ^ 32 \<Longrightarrow>
    six_step s ((if ty = SIX_LOCK_write then hold SIX_LOCK_intent t else id)
      (hold ty t (s\<lparr>lock := six_lock_increment cpu ty (lock s)\<rparr>)))"
| tryupgrade: "idle t s \<Longrightarrow> t \<in># rd s \<Longrightarrow> six_lock_tryupgrade cpu t (lock s) = (ok, lk) \<Longrightarrow>
    six_step s ((if ok then hold SIX_LOCK_intent t \<circ> drop_hold SIX_LOCK_read t else id) (s\<lparr>lock := lk\<rparr>))"

definition blocked :: "u32 \<Rightarrow> six_lock_type \<Rightarrow> bool" where
  "blocked w ty \<longleftrightarrow> (case ty of SIX_LOCK_read \<Rightarrow> wbit w | SIX_LOCK_intent \<Rightarrow> ibit w | SIX_LOCK_write \<Rightarrow> rdcount w \<noteq> 0)"

subsection \<open>The invariant\<close>

definition count_inv :: "six_sys \<Rightarrow> bool" where
  "count_inv s \<longleftrightarrow> readers (lock s) = None \<and> rdcount (st s) = size (rd s) \<and>
    size (rd s) + length (wants SIX_LOCK_read (waiting s)) < 2 ^ 26 \<and>
    (ibit (st s) \<longleftrightarrow> it s \<noteq> {#}) \<and> (\<forall>t. t \<in># it s \<longrightarrow> owner (lock s) = Some t) \<and>
    size (it s) = (if it s = {#} then 0 else unat (intent_lock_recurse (lock s)) + 1) \<and>
    (it s = {#} \<longrightarrow> intent_lock_recurse (lock s) = 0) \<and>
    size (wr s) = (if wr s = {#} then 0 else unat (write_lock_recurse (lock s)) + 1) \<and>
    (wr s = {#} \<longrightarrow> write_lock_recurse (lock s) = 0) \<and>
    lseq (lock s) = of_nat (nwrite s)"

definition write_inv :: "six_sys \<Rightarrow> bool" where
  "write_inv s \<longleftrightarrow> (wbit (st s) \<longleftrightarrow> wr s \<noteq> {#} \<or> announced s \<noteq> None \<or> wants SIX_LOCK_write (waiting s) \<noteq> []) \<and>
    (\<forall>t. t \<in># wr s \<longrightarrow> t \<in># it s) \<and>
    (wr s \<noteq> {#} \<longrightarrow> announced s = None \<and> wants SIX_LOCK_write (waiting s) = [] \<and> (\<forall>t. t \<in># rd s \<longrightarrow> t \<in># it s)) \<and>
    (\<forall>t. announced s = Some t \<longrightarrow> t \<in># it s \<and> t \<notin> wtask ` set (waiting s) \<and> wants SIX_LOCK_write (waiting s) = []) \<and>
    (\<forall>w. w \<in> set (waiting s) \<longrightarrow> lock_want w = SIX_LOCK_write \<longrightarrow> wtask w \<in># it s)"

definition wait_inv :: "six_sys \<Rightarrow> bool" where
  "wait_inv s \<longleftrightarrow> distinct (map wtask (waiting s)) \<and>
    (\<forall>w. w \<in> set (waiting s) \<longrightarrow>
      waitbit (st s) (lock_want w) \<and> (blocked (st s) (lock_want w) \<or> lock_want w \<in># pending s))"

definition six_inv :: "six_sys \<Rightarrow> bool" where
  "six_inv s \<longleftrightarrow> count_inv s \<and> write_inv s \<and> wait_inv s"

lemma six_inv_init: "six_inv six_sys_init"
  by (simp add: six_inv_def count_inv_def write_inv_def wait_inv_def six_sys_init_def six_lock_init_def word_view)

lemma it_unique: "count_inv s \<Longrightarrow> a \<in># it s \<Longrightarrow> b \<in># it s \<Longrightarrow> a = b"
  unfolding count_inv_def by (metis option.inject)

text \<open>While the intent holder is awake, no writer is on its way.\<close>

lemma idle_owner:
  assumes "count_inv s" "write_inv s" "idle t s" "t \<in># it s"
  shows "announced s = None" "wants SIX_LOCK_write (waiting s) = []" "t \<notin># wr s \<Longrightarrow> wr s = {#}"
proof -
  have u: "x = t" if "x \<in># it s" for x using it_unique [OF assms(1) that assms(4)] .
  show "announced s = None" using assms(2,3) u by (cases "announced s") (auto simp: write_inv_def idle_def)
  show "wants SIX_LOCK_write (waiting s) = []"
    using assms(2,3) u unfolding filter_empty_conv write_inv_def idle_def by blast
  show "t \<notin># wr s \<Longrightarrow> wr s = {#}" using assms(2) u unfolding write_inv_def by (metis multiset_nonemptyE)
qed

lemma write_waiter_unique:
  assumes "count_inv s" "write_inv s" "wait_inv s"
  shows "length (wants SIX_LOCK_write (waiting s)) \<le> 1"
proof (rule ccontr)
  assume "\<not> ?thesis"
  then obtain a b l where l: "wants SIX_LOCK_write (waiting s) = a # b # l"
    by (cases "wants SIX_LOCK_write (waiting s)"; cases "tl (wants SIX_LOCK_write (waiting s))") auto
  have "{a, b} \<subseteq> set (wants SIX_LOCK_write (waiting s))" unfolding l by simp
  then have "a \<in> set (waiting s)" "b \<in> set (waiting s)" "lock_want a = SIX_LOCK_write" "lock_want b = SIX_LOCK_write"
    by auto
  then have "wtask a \<in># it s" "wtask b \<in># it s" using assms(2) by (auto simp: write_inv_def)
  then have "wtask a = wtask b" by (rule it_unique [OF assms(1)])
  moreover have "distinct (map wtask (wants SIX_LOCK_write (waiting s)))"
    using assms(3) by (auto simp: wait_inv_def intro: distinct_map_filter)
  ultimately show False using l by simp
qed

subsection \<open>Preservation\<close>

lemmas inv_defs = six_inv_def count_inv_def write_inv_def wait_inv_def

lemma grant_Nil [simp]: "grant [] s = s"
  by (simp add: grant_def)

lemma trylock_ip_none:
  "readers lk = None \<Longrightarrow> six_trylock_ip cpu ty t lk =
    (let (r, lk') = do_six_trylock_raw cpu ty t True lk in (r > 0, lk', []))"
  by (cases ty) (auto simp: six_trylock_ip_def do_six_trylock_def trylock_none split: if_splits)

lemma inv_take_read:
  assumes "six_inv s" "\<not> wbit (st s)" "room SIX_LOCK_read s"
  shows "six_inv (hold SIX_LOCK_read t (s\<lparr>lock := lock s\<lparr>lstate := st s + 1\<rparr>\<rparr>))"
proof -
  have "rdcount (st s) + 1 < 2 ^ 26" using assms(1,3) by (simp add: inv_defs room_def)
  note inc = word_inc [OF this]
  show ?thesis using assms inc by (auto simp: inv_defs room_def blocked_def split: six_lock_type.splits)
qed

lemma inv_take_intent:
  assumes "six_inv s" "\<not> ibit (st s)"
  shows "six_inv (hold SIX_LOCK_intent t (s\<lparr>lock := lock s\<lparr>lstate := st s + SIX_LOCK_HELD_intent, owner := Some t\<rparr>\<rparr>))"
proof -
  note inc = word_take_intent [OF assms(2)]
  have "it s = {#}" using assms by (simp add: inv_defs)
  then show ?thesis using assms inc by (auto simp: inv_defs room_def blocked_def split: six_lock_type.splits)
qed

lemma inv_take_write:
  assumes "six_inv s" "rdcount (st s) = 0" "may_take SIX_LOCK_write t s"
  shows "six_inv (hold SIX_LOCK_write t (s\<lparr>lock := lock s\<lparr>lstate := st s + SIX_LOCK_HELD_write\<rparr>\<rparr>))"
proof -
  have t: "idle t s" "t \<in># it s" "t \<notin># wr s" using assms(3) by (simp_all add: may_take_def)
  have i: "count_inv s" "write_inv s" using assms(1) by (simp_all add: six_inv_def)
  note o = idle_owner [OF i t(1,2)]
  have "\<not> wbit (st s)" using o t(3) i(2) by (auto simp: write_inv_def)
  note inc = word_take_write [OF this]
  show ?thesis using assms inc o t
    by (auto simp: inv_defs blocked_def split: six_lock_type.splits)
qed

lemma inv_trylock:
  assumes "six_inv s" "may_take ty t s" "six_trylock_ip cpu ty t (lock s) = (ok, lk, g)"
  shows "six_inv (grant g ((if ok then hold ty t else id) (s\<lparr>lock := lk\<rparr>)))"
proof -
  have r: "readers (lock s) = None" using assms(1) by (simp add: inv_defs)
  show ?thesis
    using assms(3) unfolding trylock_ip_none [OF r]
    using r inv_take_read [OF assms(1), of t] inv_take_intent [OF assms(1), of t] inv_take_write [OF assms(1), of t] assms(1,2)
    by (cases ty) (auto simp: trylock_none may_take_def split: if_splits)
qed

lemma inv_announce:
  assumes "six_inv s" "may_take SIX_LOCK_write t s"
  shows "six_inv (s\<lparr>lock := slowpath_announce SIX_LOCK_write (lock s), announced := Some t\<rparr>)"
proof -
  have t: "idle t s" "t \<in># it s" "t \<notin># wr s" using assms(2) by (simp_all add: may_take_def)
  have i: "count_inv s" "write_inv s" using assms(1) by (simp_all add: six_inv_def)
  note o = idle_owner [OF i t(1,2)]
  have "\<not> wbit (st s)" using o t(3) i(2) by (auto simp: write_inv_def)
  note inc = word_take_write [OF this]
  show ?thesis using assms(1) inc o t
    by (auto simp: inv_defs blocked_def slowpath_announce_def idle_def split: six_lock_type.splits)
qed

lemma set_wait_simps [simp]:
  "readers (six_set_bitmask m lk) = readers lk" "owner (six_set_bitmask m lk) = owner lk" "lseq (six_set_bitmask m lk) = lseq lk"
  "intent_lock_recurse (six_set_bitmask m lk) = intent_lock_recurse lk"
  "write_lock_recurse (six_set_bitmask m lk) = write_lock_recurse lk" "wait_list (six_set_bitmask m lk) = wait_list lk"
  by (simp_all add: six_set_bitmask_def)

lemma set_wait_state: "lstate (six_set_bitmask m lk) = lstate lk OR m"
proof -
  have "lstate lk OR m = lstate lk" if "lstate lk AND m = m"
    using that by (intro bit_eqI) (metis bit_and_iff bit_or_iff)
  then show ?thesis by (simp add: six_set_bitmask_def)
qed

lemma inv_set_wait:
  assumes "six_inv s"
  shows "six_inv (s\<lparr>lock := six_set_bitmask (SIX_LOCK_WAITING ty) (lock s)\<rparr>)"
  using assms by (auto simp: inv_defs blocked_def set_wait_state word_wait_bits split: six_lock_type.splits)

definition new_waiter :: "six_lock_type \<Rightarrow> task \<Rightarrow> u64 \<Rightarrow> six_lock \<Rightarrow> six_lock_waiter" where
  "new_waiter ty t now lk = \<lparr>wtask = t, lock_want = ty, lock_acquired = False,
     start_time = waiter_start_time now (wait_list lk)\<rparr>"

text \<open>Queueing a waiter whose waiting bit is set and whose lock is not free.\<close>

lemma inv_queue:
  assumes "six_inv s" "if ty = SIX_LOCK_write then announced s = Some t else idle t s" "room ty s"
    "waitbit (st s) ty" "blocked (st s) ty" "wtask w = t" "lock_want w = ty"
  shows "six_inv (s\<lparr>lock := lock s\<lparr>wait_list := waiting s @ [w]\<rparr>,
    announced := if ty = SIX_LOCK_write then None else announced s\<rparr>)"
proof (cases "ty = SIX_LOCK_write")
  case True
  then have a: "announced s = Some t" using assms(2) by simp
  then have "t \<in># it s" "t \<notin> wtask ` set (waiting s)" "wr s = {#}"
    using assms(1) by (auto simp: inv_defs)
  then show ?thesis using assms(1,4-) True a by (auto simp: inv_defs)
next
  case False
  then show ?thesis using assms by (auto simp: inv_defs idle_def room_def)
qed

lemma inv_enqueue:
  assumes "six_inv s" "if ty = SIX_LOCK_write then announced s = Some t else idle t s" "room ty s"
    "slowpath_enqueue cpu ty t now (lock s) = (ret, lk)"
  shows "six_inv ((if ret > 0 then hold ty t else id)
      (s\<lparr>lock := lk, announced := if ty = SIX_LOCK_write then None else announced s\<rparr>))"
proof -
  let ?s = "s\<lparr>lock := six_set_bitmask (SIX_LOCK_WAITING ty) (lock s)\<rparr>"
  have i: "six_inv ?s" using assms(1) by (rule inv_set_wait)
  have r: "readers (lock ?s) = None" using i by (simp add: inv_defs)
  have wb: "waitbit (st ?s) ty" by (simp add: set_wait_state word_wait_bits)
  have a: "if ty = SIX_LOCK_write then announced ?s = Some t else idle t ?s" "room ty ?s"
    using assms(2,3) by (auto simp: idle_def room_def split: if_splits)
  note q = inv_queue [OF i a wb, where w = "new_waiter ty t now (lock ?s)", unfolded new_waiter_def]
  have e: "(ret, lk) = (let (ret, lk) = do_six_trylock_raw cpu ty t False (lock ?s) in
      if ret \<le> 0 then (ret, lk\<lparr>wait_list := wait_list lk @ [new_waiter ty t now lk]\<rparr>) else (ret, lk))"
    using assms(4) by (auto simp: slowpath_enqueue_def new_waiter_def Let_def split: prod.splits if_splits)
  show ?thesis
  proof (cases ty)
    case SIX_LOCK_read
    then show ?thesis using e q r inv_take_read [OF i, of t] a
      by (cases "wbit (st ?s)") (auto simp: trylock_none blocked_def new_waiter_def)
  next
    case SIX_LOCK_intent
    then show ?thesis using e q r inv_take_intent [OF i, of t] a
      by (cases "ibit (st ?s)") (auto simp: trylock_none blocked_def new_waiter_def)
  next
    case SIX_LOCK_write
    show ?thesis
    proof (cases "rdcount (st ?s) = 0")
      case True
      then have "ret = 1" "lk = lock ?s" using e r SIX_LOCK_write by (simp_all add: trylock_none)
      moreover have "t \<in># it s" "wr s = {#}" "wants SIX_LOCK_write (waiting s) = []" "rd s = {#}"
        using i a SIX_LOCK_write True by (auto simp: inv_defs)
      ultimately show ?thesis using i a SIX_LOCK_write by (auto simp: inv_defs)
    next
      case False
      then show ?thesis using e q r SIX_LOCK_write by (auto simp: trylock_none blocked_def new_waiter_def)
    qed
  qed
qed

text \<open>Dropping one of several holds by the same task leaves the set of holders as it is.\<close>

lemma mset_drop_same:
  assumes "t \<in># M" "1 < size M" "\<And>x. x \<in># M \<Longrightarrow> x = t"
  shows "M - {#t#} \<noteq> {#}" "x \<in># M - {#t#} \<longleftrightarrow> x \<in># M" "size (M - {#t#}) = size M - 1"
proof -
  obtain m where m: "M = add_mset t m" using assms(1) by (metis mset_add)
  then have "m \<noteq> {#}" using assms(2) by auto
  then obtain y where "y \<in># m" by auto
  then have "t \<in># m" using assms(3) m by (metis union_single_eq_member add_mset_remove_trivial in_diffD)
  then show "M - {#t#} \<noteq> {#}" "x \<in># M - {#t#} \<longleftrightarrow> x \<in># M" "size (M - {#t#}) = size M - 1" using m by auto
qed

lemma inv_it_same:
  assumes "six_inv s" "it s \<noteq> {#}" "M \<noteq> {#}" "\<And>x. x \<in># M \<longleftrightarrow> x \<in># it s" "size M = unat r + 1"
  shows "six_inv (s\<lparr>lock := lock s\<lparr>intent_lock_recurse := r\<rparr>, it := M\<rparr>)"
  using assms by (simp add: inv_defs)

lemma inv_wr_same:
  assumes "six_inv s" "wr s \<noteq> {#}" "M \<noteq> {#}" "\<And>x. x \<in># M \<longleftrightarrow> x \<in># wr s" "size M = unat r + 1"
  shows "six_inv (s\<lparr>lock := lock s\<lparr>write_lock_recurse := r\<rparr>, wr := M\<rparr>)"
  using assms by (simp add: inv_defs)

lemma wr_unique: "six_inv s \<Longrightarrow> t \<in># wr s \<Longrightarrow> x \<in># wr s \<Longrightarrow> x = t"
  using it_unique [of s x t] by (simp add: six_inv_def write_inv_def)

lemma recurse_dec: "(r :: u32) \<noteq> 0 \<Longrightarrow> unat (r - 1) + 1 = unat r"
  using unat_minus_one [of r] unat_gt_0 [of r] by simp

lemma hold_sizes:
  assumes "six_inv s"
  shows "it s \<noteq> {#} \<Longrightarrow> size (it s) = unat (intent_lock_recurse (lock s)) + 1"
    "wr s \<noteq> {#} \<Longrightarrow> size (wr s) = unat (write_lock_recurse (lock s)) + 1"
  using assms by (simp_all add: six_inv_def count_inv_def)

lemma inv_unlock_nested:
  assumes "six_inv s" "t \<in># holders s ty" "unlock_recurse ty (lock s) = Inl lk"
  shows "six_inv (drop_hold ty t (s\<lparr>lock := lk\<rparr>))"
proof (cases ty)
  case SIX_LOCK_read
  then show ?thesis using assms(3) by (simp add: unlock_recurse_def)
next
  case SIX_LOCK_intent
  let ?r = "intent_lock_recurse (lock s)"
  have n: "?r \<noteq> 0" and lk: "lk = lock s\<lparr>intent_lock_recurse := ?r - 1\<rparr>"
    and t: "t \<in># it s" using SIX_LOCK_intent assms(2,3) by (auto simp: unlock_recurse_def split: if_splits)
  have ne: "it s \<noteq> {#}" using t by auto
  have sz: "size (it s) = unat ?r + 1" using hold_sizes(1) [OF assms(1) ne] .
  have "0 < unat ?r" using n by (simp add: unat_gt_0)
  then have "1 < size (it s)" using sz by simp
  note d = mset_drop_same [OF t this it_unique [OF _ _ t]]
  have c: "count_inv s" using assms(1) by (simp add: six_inv_def)
  have "six_inv (s\<lparr>lock := lock s\<lparr>intent_lock_recurse := ?r - 1\<rparr>, it := it s - {#t#}\<rparr>)"
    using d(1,2,3) [OF c] sz recurse_dec [OF n] by (intro inv_it_same [OF assms(1) ne]) simp_all
  then show ?thesis using SIX_LOCK_intent lk by simp
next
  case SIX_LOCK_write
  let ?r = "write_lock_recurse (lock s)"
  have n: "?r \<noteq> 0" and lk: "lk = lock s\<lparr>write_lock_recurse := ?r - 1\<rparr>"
    and t: "t \<in># wr s" using SIX_LOCK_write assms(2,3) by (auto simp: unlock_recurse_def split: if_splits)
  have ne: "wr s \<noteq> {#}" using t by auto
  have sz: "size (wr s) = unat ?r + 1" using hold_sizes(2) [OF assms(1) ne] .
  have "0 < unat ?r" using n by (simp add: unat_gt_0)
  then have "1 < size (wr s)" using sz by simp
  note d = mset_drop_same [OF t this wr_unique [OF assms(1) t]]
  have "six_inv (s\<lparr>lock := lock s\<lparr>write_lock_recurse := ?r - 1\<rparr>, wr := wr s - {#t#}\<rparr>)"
    using d sz recurse_dec [OF n] by (intro inv_wr_same [OF assms(1) ne]) simp_all
  then show ?thesis using SIX_LOCK_write lk by simp
qed

text \<open>The last hold of a type is dropped: the word changes, and a wakeup may be due.\<close>

abbreviation with_wakeup :: "bool \<Rightarrow> six_lock_type \<Rightarrow> six_lock_type multiset \<Rightarrow> six_lock_type multiset" where
  "with_wakeup b ty p \<equiv> (if b then add_mset ty p else p)"

lemma mset_single: "size M = 1 \<Longrightarrow> t \<in># M \<Longrightarrow> M = {#t#}"
  using size_1_singleton_mset [of M] by auto

lemma inv_drop_read:
  assumes "six_inv s" "t \<in># rd s"
  shows "six_inv (s\<lparr>lock := lock s\<lparr>lstate := st s - 1\<rparr>,
    pending := with_wakeup (needs_wakeup (st s - 1) SIX_LOCK_write) SIX_LOCK_write (pending s), rd := rd s - {#t#}\<rparr>)"
proof -
  obtain m where m: "rd s = add_mset t m" using assms(2) by (metis mset_add)
  then have "0 < rdcount (st s)" using assms(1) by (simp add: inv_defs)
  note dec = word_dec [OF this]
  show ?thesis
    using assms(1) dec m
    by (auto simp: inv_defs blocked_def needs_wakeup_def split: six_lock_type.splits)
qed

lemma inv_drop_intent:
  assumes "six_inv s" "t \<in># it s" "idle t s" "wr s = {#}" "intent_lock_recurse (lock s) = 0"
  defines "st' \<equiv> st s - (SIX_LOCK_HELD_intent + (st s AND SIX_LOCK_NOSPIN))"
  shows "six_inv (s\<lparr>lock := lock s\<lparr>owner := None, lstate := st'\<rparr>,
    pending := with_wakeup (needs_wakeup st' SIX_LOCK_intent) SIX_LOCK_intent (pending s), it := it s - {#t#}\<rparr>)"
proof -
  have i: "count_inv s" "write_inv s" using assms(1) by (simp_all add: six_inv_def)
  note o = idle_owner [OF i assms(3,2)]
  have ne: "it s \<noteq> {#}" using assms(2) by auto
  then have "size (it s) = 1" using hold_sizes(1) [OF assms(1)] assms(5) by simp
  then have m: "it s = {#t#}" using assms(2) by (rule mset_single)
  have "ibit (st s)" using i(1) ne by (simp add: count_inv_def)
  note dec = word_drop_intent [OF this, folded st'_def]
  show ?thesis
    using assms(1,4,5) dec m o
    by (auto simp: inv_defs blocked_def needs_wakeup_def filter_empty_conv split: six_lock_type.splits)
qed

lemma inv_drop_write:
  assumes "six_inv s" "t \<in># wr s" "write_lock_recurse (lock s) = 0"
  defines "st' \<equiv> st s - (SIX_LOCK_HELD_write + (st s AND SIX_LOCK_NOSPIN))"
  shows "six_inv (s\<lparr>lock := lock s\<lparr>lseq := lseq (lock s) + 1, lstate := st'\<rparr>,
    pending := with_wakeup (needs_wakeup st' SIX_LOCK_read) SIX_LOCK_read (pending s), nwrite := nwrite s + 1,
    wr := wr s - {#t#}\<rparr>)"
proof -
  have ne: "wr s \<noteq> {#}" using assms(2) by auto
  then have "size (wr s) = 1" using hold_sizes(2) [OF assms(1)] assms(3) by simp
  then have m: "wr s = {#t#}" using assms(2) by (rule mset_single)
  have "wbit (st s)" using assms(1) ne by (simp add: inv_defs)
  note dec = word_drop_write [OF this, folded st'_def]
  show ?thesis
    using assms(1,3) dec m
    by (auto simp: inv_defs blocked_def needs_wakeup_def filter_empty_conv split: six_lock_type.splits)
qed

lemma inv_unlock:
  assumes "six_inv s" "idle t s" "t \<in># holders s ty" "ty = SIX_LOCK_intent \<longrightarrow> wr s = {#}"
    "unlock_recurse ty (lock s) = Inr lk" "unlock_word cpu ty lk = (st', lk')"
  shows "six_inv (drop_hold ty t (s\<lparr>lock := lk',
      pending := (if needs_wakeup st' (unlock_wakeup (six_l ty)) then add_mset (unlock_wakeup (six_l ty)) (pending s) else pending s),
      nwrite := nwrite s + of_bool (ty = SIX_LOCK_write)\<rparr>))"
proof -
  have r: "readers (lock s) = None" using assms(1) by (simp add: inv_defs)
  show ?thesis
  proof (cases ty)
    case SIX_LOCK_read
    have "st' = st s - 1" "lk' = lock s\<lparr>lstate := st s - 1\<rparr>"
      using assms(5,6) r SIX_LOCK_read by (auto simp: unlock_recurse_def unlock_word_def Let_def)
    then show ?thesis using inv_drop_read [OF assms(1), of t] assms(3) SIX_LOCK_read by (simp split del: if_split cong del: if_weak_cong)
  next
    case SIX_LOCK_intent
    have "intent_lock_recurse (lock s) = 0" "st' = st s - (SIX_LOCK_HELD_intent + (st s AND SIX_LOCK_NOSPIN))"
        "lk' = lock s\<lparr>owner := None, lstate := st'\<rparr>"
      using assms(5,6) r SIX_LOCK_intent by (auto simp: unlock_recurse_def unlock_word_def Let_def split: if_splits)
    then show ?thesis using inv_drop_intent [OF assms(1), of t] assms(2,3,4) SIX_LOCK_intent by (simp split del: if_split cong del: if_weak_cong)
  next
    case SIX_LOCK_write
    have "write_lock_recurse (lock s) = 0" "st' = st s - (SIX_LOCK_HELD_write + (st s AND SIX_LOCK_NOSPIN))"
        "lk' = lock s\<lparr>lseq := lseq (lock s) + 1, lstate := st'\<rparr>"
      using assms(5,6) r SIX_LOCK_write by (auto simp: unlock_recurse_def unlock_word_def Let_def split: if_splits)
    then show ?thesis using inv_drop_write [OF assms(1), of t] assms(3) SIX_LOCK_write by (simp split del: if_split cong del: if_weak_cong)
  qed
qed

lemma inv_pending_mono:
  "six_inv s \<Longrightarrow> (\<And>w. w \<in> set (waiting s) \<Longrightarrow> lock_want w = ty \<Longrightarrow> blocked (st s) ty) \<Longrightarrow>
    six_inv (s\<lparr>pending := pending s - {#ty#}\<rparr>)"
  by (auto simp: inv_defs in_diff_count)

lemma word_inc_n:
  "rdcount w + n < 2 ^ 26 \<Longrightarrow> rdcount (w + of_nat n) = rdcount w + n \<and> ibit (w + of_nat n) = ibit w \<and>
    wbit (w + of_nat n) = wbit w \<and> (\<forall>ty. waitbit (w + of_nat n) ty = waitbit w ty)"
proof (induction n)
  case (Suc n)
  have "w + of_nat (Suc n) = (w + of_nat n) + 1" by (simp only: of_nat_Suc add.commute add.left_commute)
  then show ?case using Suc word_inc [of "w + of_nat n"] by (simp del: of_nat_Suc add: add.assoc [symmetric])
qed simp

lemma inv_clear_wait:
  "six_inv s \<Longrightarrow> wants ty (waiting s) = [] \<Longrightarrow> six_inv (s\<lparr>lock := clear_wait ty (lock s)\<rparr>)"
  by (auto simp: inv_defs blocked_def filter_empty_conv clear_wait_def six_clear_bitmask_def word_wait_bits split: six_lock_type.splits)

lemma grant_reads:
  "grant (map (\<lambda>w. w\<lparr>lock_acquired := True\<rparr>) (wants SIX_LOCK_read ws)) s = s\<lparr>rd := rd s + mset (map wtask (wants SIX_LOCK_read ws))\<rparr>"
  by (induction ws arbitrary: s) (simp_all add: grant_def)

lemma inv_wake_readers:
  assumes "six_inv s" "\<not> wbit (st s)"
  defines "n \<equiv> length (wants SIX_LOCK_read (waiting s))"
  shows "six_inv (s\<lparr>lock := lock s\<lparr>lstate := st s + of_nat n, wait_list := filter (\<lambda>w. lock_want w \<noteq> SIX_LOCK_read) (waiting s)\<rparr>,
    pending := pending s - {#SIX_LOCK_read#}, rd := rd s + mset (map wtask (wants SIX_LOCK_read (waiting s)))\<rparr>)"
proof -
  have "rdcount (st s) + n < 2 ^ 26" using assms(1) by (simp add: inv_defs n_def)
  note inc = word_inc_n [OF this]
  have f: "filter (\<lambda>w. lock_want w \<noteq> SIX_LOCK_read \<and> lock_want w = SIX_LOCK_write) (waiting s) = wants SIX_LOCK_write (waiting s)"
    by (auto intro!: filter_cong)
  define M where "M = mset (map wtask (wants SIX_LOCK_read (waiting s)))"
  have sM: "size M = n" by (simp only: M_def size_mset length_map n_def)
  have b: "size (rd s) + n < 2 ^ 26" using assms(1) by (simp add: inv_defs n_def)
  show ?thesis
    unfolding M_def [symmetric] using assms(1,2) inc b
    by (auto simp: inv_defs blocked_def f sM in_diff_count distinct_map_filter split: six_lock_type.splits)
qed

text \<open>A reader or intent waiter that has left the queue.\<close>

lemma distinct_map_remove1: "distinct (map f xs) \<Longrightarrow> distinct (map f (remove1 x xs))"
  by (induction xs) (simp_all, metis image_iff notin_set_remove1)

lemma inv_remove_waiter:
  assumes "six_inv s" "lock_want w \<noteq> SIX_LOCK_write"
  shows "six_inv (s\<lparr>lock := lock s\<lparr>wait_list := remove1 w (waiting s)\<rparr>\<rparr>)"
proof -
  define ws where "ws = remove1 w (waiting s)"
  have d: "distinct (map wtask ws)"
    unfolding ws_def using assms(1) by (intro distinct_map_remove1) (simp add: inv_defs)
  have sub: "v \<in> set ws \<Longrightarrow> v \<in> set (waiting s)" for v using set_remove1_subset [of w "waiting s"] unfolding ws_def by blast
  have rw: "wants SIX_LOCK_write ws = wants SIX_LOCK_write (waiting s)"
    using assms(2) by (simp add: ws_def filter_remove1 remove1_idem)
  have rl: "length (wants SIX_LOCK_read ws) \<le> length (wants SIX_LOCK_read (waiting s))"
    by (simp add: ws_def filter_remove1 length_remove1)
  show ?thesis
    using assms(1) d rl rw sub unfolding ws_def [symmetric] by (auto simp: inv_defs)
qed

lemma clear_wait_list [simp]: "wait_list (clear_wait ty lk) = wait_list lk"
  by (simp add: clear_wait_def six_clear_bitmask_def)

lemma clear_wait_update [simp]:
  "clear_wait ty lk\<lparr>wait_list := ws\<rparr> = clear_wait ty (lk\<lparr>wait_list := ws\<rparr>)"
  by (simp add: clear_wait_def six_clear_bitmask_def)

text \<open>Field updates of the system in the order of the steps.\<close>

lemma sys_update_order [simp]:
  "s\<lparr>pending := p, lock := l\<rparr> = s\<lparr>lock := l, pending := p\<rparr>"
  "s\<lparr>rd := r, lock := l\<rparr> = s\<lparr>lock := l, rd := r\<rparr>"
  "s\<lparr>it := i, lock := l\<rparr> = s\<lparr>lock := l, it := i\<rparr>"
  "s\<lparr>wr := w, lock := l\<rparr> = s\<lparr>lock := l, wr := w\<rparr>"
  "s\<lparr>it := i, pending := p\<rparr> = s\<lparr>pending := p, it := i\<rparr>"
  by simp_all

lemma inv_wakeup_read:
  assumes "six_inv s" "six_lock_wakeup_raw cpu SIX_LOCK_read (lock s) = (lk, g)"
  shows "six_inv (grant g (s\<lparr>lock := lk, pending := pending s - {#SIX_LOCK_read#}\<rparr>))"
proof -
  let ?n = "length (wants SIX_LOCK_read (waiting s))"
  have r: "readers (lock s) = None" and b: "rdcount (st s) + ?n < 2 ^ 26" using assms(1) by (simp_all add: inv_defs)
  obtain x where x: "wakeup_scan cpu SIX_LOCK_read (waiting s) 0 False (lock s) =
    (if wbit (st s) then
       (x, if wants SIX_LOCK_read (waiting s) = [] then clear_wait SIX_LOCK_read (lock s) else lock s, waiting s, [])
     else (x, clear_wait SIX_LOCK_read (lock s\<lparr>lstate := st s + of_nat ?n\<rparr>),
       filter (\<lambda>w. lock_want w \<noteq> SIX_LOCK_read) (waiting s),
       map (\<lambda>w. w\<lparr>lock_acquired := True\<rparr>) (wants SIX_LOCK_read (waiting s))))"
    using scan_read [OF r b] by blast
  show ?thesis
  proof (cases "wbit (st s)")
    case True
    let ?s = "s\<lparr>pending := pending s - {#SIX_LOCK_read#}\<rparr>"
    have "lk = (if wants SIX_LOCK_read (waiting s) = [] then clear_wait SIX_LOCK_read (lock s) else lock s)" "g = []"
      using wakeup_none [OF r, of cpu SIX_LOCK_read] scan_nonneg [OF r] x True assms(2) by fastforce+
    moreover have "six_inv ?s" using True inv_pending_mono [OF assms(1), of SIX_LOCK_read] by (simp add: blocked_def)
    ultimately show ?thesis using inv_clear_wait [of ?s SIX_LOCK_read] by simp
  next
    case False
    let ?s = "s\<lparr>lock := lock s\<lparr>lstate := st s + of_nat ?n, wait_list := filter (\<lambda>w. lock_want w \<noteq> SIX_LOCK_read) (waiting s)\<rparr>,
      pending := pending s - {#SIX_LOCK_read#}, rd := rd s + mset (map wtask (wants SIX_LOCK_read (waiting s)))\<rparr>"
    have "lk = clear_wait SIX_LOCK_read (lock ?s)" "g = map (\<lambda>w. w\<lparr>lock_acquired := True\<rparr>) (wants SIX_LOCK_read (waiting s))"
      using wakeup_none [OF r, of cpu SIX_LOCK_read] scan_nonneg [OF r] x False assms(2) by fastforce+
    then show ?thesis using inv_clear_wait [OF inv_wake_readers [OF assms(1) False], of SIX_LOCK_read]
      by (simp add: grant_reads del: mset_map mset_filter)
  qed
qed

text \<open>Waking one waiter of another type: what the scan leaves.\<close>

lemma wakeup_first:
  fixes cpu :: nat
  assumes "readers lk = None" "ty \<noteq> SIX_LOCK_read"
  defines "w \<equiv> hd (wants ty (wait_list lk))" and "tr \<equiv> do_six_trylock_raw cpu ty (wtask (hd (wants ty (wait_list lk)))) False lk"
  shows "six_lock_wakeup_raw cpu ty lk =
    (if wants ty (wait_list lk) = [] then (clear_wait ty lk, [])
     else if fst tr \<le> 0 then (snd tr\<lparr>wait_list := wait_list lk\<rparr>, [])
     else ((if length (wants ty (wait_list lk)) = 1 then clear_wait ty (snd tr) else snd tr)\<lparr>wait_list := remove1 w (wait_list lk)\<rparr>,
       [w\<lparr>lock_acquired := True\<rparr>]))"
proof -
  obtain r where r: "wakeup_scan cpu ty (wait_list lk) 0 False lk =
    (if wants ty (wait_list lk) = [] then (r, clear_wait ty lk, wait_list lk, [])
     else if fst tr \<le> 0 then (r, snd tr, wait_list lk, [])
     else (r, if length (wants ty (wait_list lk)) = 1 then clear_wait ty (snd tr) else snd tr,
       remove1 w (wait_list lk), [w\<lparr>lock_acquired := True\<rparr>]))"
    using scan_first [OF assms(1,2), where ws = "wait_list lk" and cpu = cpu and ret = 0] unfolding w_def tr_def by blast
  obtain rest where "wakeup_scan cpu ty (wait_list lk) 0 False lk = (r, rest)" using r by (simp split: if_splits)
  then have "0 \<le> r" using scan_nonneg [OF assms(1)] by blast
  then show ?thesis using r by (subst six_lock_wakeup_raw.simps) (simp add: Let_def)
qed

lemma wants_removed: "length (wants ty ws) = 1 \<Longrightarrow> wants ty (remove1 (hd (wants ty ws)) ws) = []"
  by (cases "wants ty ws") (simp_all add: filter_remove1)

lemma inv_wakeup_intent:
  assumes "six_inv s" "six_lock_wakeup_raw cpu SIX_LOCK_intent (lock s) = (lk, g)"
  shows "six_inv (grant g (s\<lparr>lock := lk, pending := pending s - {#SIX_LOCK_intent#}\<rparr>))"
proof -
  let ?ws = "wants SIX_LOCK_intent (waiting s)"
  have r: "readers (lock s) = None" using assms(1) by (simp add: inv_defs)
  note f = wakeup_first [OF r, of SIX_LOCK_intent cpu, unfolded assms(2) trylock_intent [OF r]]
  show ?thesis
  proof (cases "?ws = [] \<or> ibit (st s)")
    case True
    have "six_inv (s\<lparr>pending := pending s - {#SIX_LOCK_intent#}\<rparr>)"
      by (rule inv_pending_mono [OF assms(1)]) (use True in \<open>auto simp: blocked_def filter_empty_conv\<close>)
    then show ?thesis using f True inv_clear_wait [of "s\<lparr>pending := pending s - {#SIX_LOCK_intent#}\<rparr>" SIX_LOCK_intent]
      by (auto split: if_splits)
  next
    case False
    define w where "w = hd ?ws"
    have w: "lock_want w = SIX_LOCK_intent" using False hd_in_set [of ?ws] by (simp add: w_def)
    define s1 where "s1 = hold SIX_LOCK_intent (wtask w) (s\<lparr>lock := lock s\<lparr>lstate := st s + SIX_LOCK_HELD_intent, owner := Some (wtask w)\<rparr>\<rparr>)"
    define s2 where "s2 = s1\<lparr>lock := lock s1\<lparr>wait_list := remove1 w (waiting s1)\<rparr>\<rparr>"
    define s3 where "s3 = s2\<lparr>pending := pending s2 - {#SIX_LOCK_intent#}\<rparr>"
    have "six_inv s1" unfolding s1_def using assms(1) False by (intro inv_take_intent) simp_all
    then have "six_inv s2" unfolding s2_def by (intro inv_remove_waiter) (simp_all add: w)
    moreover have "blocked (st s2) SIX_LOCK_intent"
      using False by (simp add: s2_def s1_def blocked_def word_take_intent)
    ultimately have i: "six_inv s3" unfolding s3_def by (intro inv_pending_mono) simp_all
    have "six_inv (s3\<lparr>lock := clear_wait SIX_LOCK_intent (lock s3)\<rparr>)" if "length ?ws = 1"
      using i by (rule inv_clear_wait) (use wants_removed [OF that] in \<open>simp add: s3_def s2_def s1_def w_def\<close>)
    moreover have "grant g (s\<lparr>lock := lk, pending := pending s - {#SIX_LOCK_intent#}\<rparr>) =
        (if length ?ws = 1 then s3\<lparr>lock := clear_wait SIX_LOCK_intent (lock s3)\<rparr> else s3)"
      using f False w by (auto simp: grant_def s3_def s2_def s1_def w_def [symmetric])
    ultimately show ?thesis using i by simp
  qed
qed

lemma inv_wakeup_write:
  assumes "six_inv s" "six_lock_wakeup_raw cpu SIX_LOCK_write (lock s) = (lk, g)"
  shows "six_inv (grant g (s\<lparr>lock := lk, pending := pending s - {#SIX_LOCK_write#}\<rparr>))"
proof -
  let ?ws = "wants SIX_LOCK_write (waiting s)"
  have r: "readers (lock s) = None" using assms(1) by (simp add: inv_defs)
  note f = wakeup_first [OF r, of SIX_LOCK_write cpu, unfolded assms(2) trylock_write [OF r]]
  show ?thesis
  proof (cases "?ws = [] \<or> rdcount (st s) \<noteq> 0")
    case True
    have "six_inv (s\<lparr>pending := pending s - {#SIX_LOCK_write#}\<rparr>)"
      by (rule inv_pending_mono [OF assms(1)]) (use True in \<open>auto simp: blocked_def filter_empty_conv\<close>)
    then show ?thesis using f True inv_clear_wait [of "s\<lparr>pending := pending s - {#SIX_LOCK_write#}\<rparr>" SIX_LOCK_write]
      by (auto split: if_splits)
  next
    case False
    define w where "w = hd ?ws"
    have "length ?ws = 1" using write_waiter_unique [of s] assms(1) False
      by (cases ?ws) (auto simp: six_inv_def)
    then have w: "?ws = [w]" by (cases ?ws) (simp_all add: w_def)
    then have "w \<in> set ?ws" by simp
    then have m: "w \<in> set (waiting s)" "lock_want w = SIX_LOCK_write" by simp_all
    define ws where "ws = remove1 w (waiting s)"
    have d: "distinct (map wtask ws)" and sub: "v \<in> set ws \<Longrightarrow> v \<in> set (waiting s)" for v
      unfolding ws_def using assms(1) set_remove1_subset [of w "waiting s"]
      by (auto simp: inv_defs intro: distinct_map_remove1)
    have e: "wants SIX_LOCK_write ws = []" using wants_removed [of SIX_LOCK_write "waiting s"] w by (simp add: ws_def)
    have rl: "wants SIX_LOCK_read ws = wants SIX_LOCK_read (waiting s)"
      using m by (simp add: ws_def filter_remove1 remove1_idem)
    have "grant g (s\<lparr>lock := lk, pending := pending s - {#SIX_LOCK_write#}\<rparr>) =
      s\<lparr>lock := clear_wait SIX_LOCK_write (lock s\<lparr>wait_list := ws\<rparr>), pending := pending s - {#SIX_LOCK_write#}, wr := add_mset (wtask w) (wr s)\<rparr>"
      using f False w m by (simp add: grant_def ws_def)
    moreover have nw: "lock_want v \<noteq> SIX_LOCK_write" if "v \<in> set ws" for v
      using e that by (auto simp: filter_empty_conv)
    have "six_inv (s\<lparr>lock := clear_wait SIX_LOCK_write (lock s\<lparr>wait_list := ws\<rparr>), pending := pending s - {#SIX_LOCK_write#}, wr := add_mset (wtask w) (wr s)\<rparr>)"
      using assms(1) d sub e rl m False nw w
      by (auto simp: inv_defs blocked_def in_diff_count split: six_lock_type.splits)
    ultimately show ?thesis by simp
  qed
qed

lemma inv_wakeup:
  "six_inv s \<Longrightarrow> six_lock_wakeup_raw cpu ty (lock s) = (lk, g) \<Longrightarrow>
    six_inv (grant g (s\<lparr>lock := lk, pending := pending s - {#ty#}\<rparr>))"
  by (cases ty) (auto intro: inv_wakeup_read inv_wakeup_intent inv_wakeup_write)

lemma dequeue_remove1:
  "distinct (map wtask ws) \<Longrightarrow> w \<in> set ws \<Longrightarrow> filter (\<lambda>v. wtask v \<noteq> wtask w) ws = remove1 w ws"
proof (induction ws)
  case (Cons v ws)
  show ?case
  proof (cases "v = w")
    case True
    have "filter (\<lambda>v. wtask v \<noteq> wtask w) ws = ws" using Cons.prems(1) True by (simp add: filter_id_conv) (metis image_eqI)
    then show ?thesis using True by simp
  next
    case False
    then have "w \<in> set ws" using Cons.prems(2) by simp
    then have "wtask v \<noteq> wtask w" using Cons.prems(1) by auto
    then show ?thesis using Cons False by simp
  qed
qed simp

lemma inv_abort:
  assumes "six_inv s" "w \<in> set (waiting s)"
  shows "six_inv (s\<lparr>lock := abort_dequeue (wtask w) (lock s),
      announced := if lock_want w = SIX_LOCK_write then Some (wtask w) else announced s\<rparr>)"
proof -
  have a: "abort_dequeue (wtask w) (lock s) = lock s\<lparr>wait_list := remove1 w (waiting s)\<rparr>"
    using assms by (simp add: abort_dequeue_def dequeue_remove1 inv_defs)
  show ?thesis
  proof (cases "lock_want w = SIX_LOCK_write")
    case False
    then show ?thesis using inv_remove_waiter [OF assms(1), of w] by (simp add: a)
  next
    case True
    have "w \<in> set (wants SIX_LOCK_write (waiting s))" using assms(2) True by simp
    moreover have "length (wants SIX_LOCK_write (waiting s)) \<le> 1"
      using write_waiter_unique [of s] assms(1) unfolding six_inv_def by blast
    ultimately have w: "wants SIX_LOCK_write (waiting s) = [w]"
      by (cases "wants SIX_LOCK_write (waiting s)") (auto simp: le_Suc_eq)
    define ws where "ws = remove1 w (waiting s)"
    have d: "distinct (map wtask ws)" and sub: "v \<in> set ws \<Longrightarrow> v \<in> set (waiting s)" for v
      unfolding ws_def using assms(1) set_remove1_subset [of w "waiting s"]
      by (auto simp: inv_defs intro: distinct_map_remove1)
    have e: "wants SIX_LOCK_write ws = []" using wants_removed [of SIX_LOCK_write "waiting s"] w by (simp add: ws_def)
    have rl: "wants SIX_LOCK_read ws = wants SIX_LOCK_read (waiting s)"
      using True by (simp add: ws_def filter_remove1 remove1_idem)
    have t: "wtask w \<notin> wtask ` set ws"
      using assms by (auto simp: ws_def inv_defs dequeue_remove1 [symmetric])
    show ?thesis
      unfolding a ws_def [symmetric] using assms True d sub e rl t w by (auto simp: inv_defs)
  qed
qed

lemma inv_unannounce:
  assumes "six_inv s" "announced s = Some t"
  defines "lk \<equiv> six_clear_bitmask SIX_LOCK_HELD_write (lock s)"
  shows "six_inv (s\<lparr>lock := lk, announced := None,
      pending := (if needs_wakeup (lstate lk) SIX_LOCK_read then add_mset SIX_LOCK_read (pending s) else pending s)\<rparr>)"
proof -
  have lk: "lk = lock s\<lparr>lstate := st s AND NOT SIX_LOCK_HELD_write\<rparr>"
    using assms by (simp add: lk_def six_clear_bitmask_def inv_defs)
  show ?thesis
    using assms(1,2) unfolding lk
    by (auto simp: inv_defs word_clear_write needs_wakeup_def blocked_def split: six_lock_type.splits)
qed

lemma inv_tryupgrade:
  assumes "six_inv s" "idle t s" "t \<in># rd s" "six_lock_tryupgrade cpu t (lock s) = (ok, lk)"
  shows "six_inv ((if ok then hold SIX_LOCK_intent t \<circ> drop_hold SIX_LOCK_read t else id) (s\<lparr>lock := lk\<rparr>))"
proof (cases "ibit (st s)")
  case True
  then have "\<not> ok" "lk = lock s" using assms(4) by (simp_all add: six_lock_tryupgrade_def)
  then show ?thesis using assms(1) by simp
next
  case False
  have r: "readers (lock s) = None" "0 < rdcount (st s)" "it s = {#}"
    using assms False by (auto simp: inv_defs nonempty_has_size)
  note dec = word_dec [OF r(2)]
  have ni: "\<not> ibit (st s - 1)" using False dec by simp
  note inc = word_take_intent [OF ni]
  have "ok" "lk = lock s\<lparr>lstate := st s - 1 + SIX_LOCK_HELD_intent, owner := Some t\<rparr>"
    using assms(4) False r(1) inc(5) by (auto simp: six_lock_tryupgrade_def six_set_owner_def Let_def)
  moreover obtain R where R: "rd s = add_mset t R" using assms(3) by (metis mset_add)
  moreover have "wants SIX_LOCK_write (waiting s) = []" "wr s = {#}" "announced s = None"
    using assms(1) r(3) by (auto simp: inv_defs filter_empty_conv)
  ultimately show ?thesis
    using assms(1,2) r inc dec
    by (auto simp: inv_defs blocked_def filter_empty_conv split: six_lock_type.splits)
qed

lemma recurse_inc: "unat (r :: u32) + 2 < 2 ^ 32 \<Longrightarrow> unat (r + 1) = unat r + 1"
  by (subst unat_plus_1_eq) (auto simp: word_plus_1_eq_0 unat_minus_1_nat)

lemma inv_increment:
  assumes "six_inv s" "idle t s" "room ty s" "six_nr ty \<le> six_nr ty'" "t \<in># holders s ty'"
    "size (it s) + 1 < 2 ^ 32" "size (wr s) + 1 < 2 ^ 32"
  shows "six_inv ((if ty = SIX_LOCK_write then hold SIX_LOCK_intent t else id)
      (hold ty t (s\<lparr>lock := six_lock_increment cpu ty (lock s)\<rparr>)))"
proof (cases ty)
  case SIX_LOCK_read
  have r: "readers (lock s) = None" "rdcount (st s) + 1 < 2 ^ 26"
    using assms(1,3) SIX_LOCK_read by (simp_all add: inv_defs room_def)
  have "t \<in># it s" if "wr s \<noteq> {#}" using assms(1,5) that by (cases ty') (auto simp: inv_defs)
  then show ?thesis
    using assms(1,3) SIX_LOCK_read r word_inc [OF r(2)]
    by (auto simp: six_lock_increment_def inv_defs room_def blocked_def split: six_lock_type.splits)
next
  case SIX_LOCK_intent
  have t: "t \<in># it s" using assms(1,4,5) SIX_LOCK_intent by (cases ty') (auto simp: inv_defs)
  then have "it s \<noteq> {#}" "unat (intent_lock_recurse (lock s)) + 1 = size (it s)" using assms(1) by (auto simp: inv_defs)
  then have "six_inv (s\<lparr>lock := lock s\<lparr>intent_lock_recurse := intent_lock_recurse (lock s) + 1\<rparr>, it := add_mset t (it s)\<rparr>)"
    using assms(6) t by (intro inv_it_same assms(1)) (auto simp: recurse_inc)
  then show ?thesis using SIX_LOCK_intent by (simp add: six_lock_increment_def)
next
  case SIX_LOCK_write
  have t: "t \<in># wr s" "t \<in># it s" using assms(1,4,5) SIX_LOCK_write by (cases ty'; auto simp: inv_defs)+
  then have n: "wr s \<noteq> {#}" "unat (write_lock_recurse (lock s)) + 1 = size (wr s)"
      "it s \<noteq> {#}" "unat (intent_lock_recurse (lock s)) + 1 = size (it s)" using assms(1) by (auto simp: inv_defs)
  define s1 where "s1 = s\<lparr>lock := lock s\<lparr>write_lock_recurse := write_lock_recurse (lock s) + 1\<rparr>, wr := add_mset t (wr s)\<rparr>"
  have "six_inv s1" unfolding s1_def
    using assms(7) t n by (intro inv_wr_same assms(1)) (auto simp: recurse_inc)
  then have "six_inv (s1\<lparr>lock := lock s1\<lparr>intent_lock_recurse := intent_lock_recurse (lock s) + 1\<rparr>, it := add_mset t (it s)\<rparr>)"
    using assms(6) t n by (intro inv_it_same) (auto simp: recurse_inc s1_def)
  then show ?thesis using SIX_LOCK_write by (simp add: six_lock_increment_def s1_def)
qed

theorem six_step_inv: "six_step s s' \<Longrightarrow> six_inv s \<Longrightarrow> six_inv s'"
proof (induction rule: six_step.induct)
  case (increment t s ty cpu)
  then show ?case using inv_increment by blast
next
  case (unlock t s ty lk cpu st' lk')
  then show ?case using inv_unlock by blast
next
  case (unannounce s t lk)
  then show ?case using inv_unannounce by blast
qed (auto intro: inv_trylock inv_announce inv_enqueue inv_unlock_nested inv_wakeup inv_abort inv_tryupgrade
      split del: if_split)

definition six_reachable :: "six_sys \<Rightarrow> bool" where
  "six_reachable s \<longleftrightarrow> six_step\<^sup>*\<^sup>* six_sys_init s"

lemma reachable_inv: "six_reachable s \<Longrightarrow> six_inv s"
  unfolding six_reachable_def
  by (induction rule: rtranclp_induct) (auto intro: six_inv_init six_step_inv)

end
