(* ===== verification/Six_Safety.thy ===== *)
theory Six_Safety
  imports Six_Conc
begin

unbundle bit_operations_syntax

text \<open>
  What the users of a six lock rely on, for every interleaving: mutual exclusion, exact hold
  counts, the absence of lost wakeups, and sequence numbers that tell whether a write happened.
\<close>

section \<open>What users of the lock rely on\<close>

lemma nwrite_mono: "six_step\<^sup>*\<^sup>* s s' \<Longrightarrow> nwrite s \<le> nwrite s'"
proof (induction rule: rtranclp_induct)
  case (step y z)
  have h: "nwrite (hold ty t x) = nwrite x" "nwrite (drop_hold ty t x) = nwrite x" for ty t x by (cases ty; simp)+
  have "nwrite (fold (\<lambda>w. hold (lock_want w) (wtask w)) ws x) = nwrite x" for ws x
    by (induction ws arbitrary: x) (simp_all add: h)
  then have g: "nwrite (grant ws x) = nwrite x" for ws x by (simp add: grant_def)
  have "nwrite y \<le> nwrite z" using step.hyps(2) by cases (auto simp: g h)
  then show ?case using step.IH by simp
qed simp

lemma wakeup_readers:
  assumes "six_inv s" "\<not> wbit (st s)"
  shows "snd (six_lock_wakeup_raw cpu SIX_LOCK_read (lock s)) =
    map (\<lambda>w. w\<lparr>lock_acquired := True\<rparr>) (wants SIX_LOCK_read (waiting s))"
proof -
  have r: "readers (lock s) = None" and b: "rdcount (st s) + length (wants SIX_LOCK_read (waiting s)) < 2 ^ 26"
    using assms(1) by (simp_all add: inv_defs)
  obtain x lk left where x: "wakeup_scan cpu SIX_LOCK_read (waiting s) 0 False (lock s) =
      (x, lk, left, map (\<lambda>w. w\<lparr>lock_acquired := True\<rparr>) (wants SIX_LOCK_read (waiting s)))"
    using scan_read [OF r b, of cpu 0 False] assms(2) by auto
  then show ?thesis using wakeup_none [OF r x] scan_nonneg [OF r _ x] by simp
qed

lemma seq_no_wrap:
  assumes "(of_nat b :: u32) = of_nat a" "a \<le> b" "b - a < 2 ^ 32"
  shows "b = a"
proof -
  have "(of_nat (b - a) :: u32) = 0" using assms(1,2) by (simp add: of_nat_diff)
  moreover have "unat (of_nat (b - a) :: u32) = b - a" using assms(3) by (simp add: unat_of_nat take_bit_nat_eq_self)
  ultimately show ?thesis using assms(2) by simp
qed

text \<open>
  A run: task 1 takes the intent lock, task 2 queues for it, task 1 drops it, and the wakeup
  hands it to task 2.
\<close>

definition run1 :: six_sys where
  "run1 = hold SIX_LOCK_intent 1 (six_sys_init\<lparr>lock := fst (snd (six_trylock_ip 0 SIX_LOCK_intent 1 six_lock_init))\<rparr>)"

definition run2 :: six_sys where
  "run2 = run1\<lparr>lock := snd (slowpath_enqueue 0 SIX_LOCK_intent 2 5 (lock run1))\<rparr>"

definition run3 :: six_sys where
  "run3 = drop_hold SIX_LOCK_intent 1 (run2\<lparr>lock := snd (unlock_word 0 SIX_LOCK_intent (lock run2)), pending := {#SIX_LOCK_intent#}\<rparr>)"

lemmas run_eval = six_sys_init_def six_lock_init_def six_trylock_ip_def do_six_trylock_def do_six_trylock_raw_def
  slowpath_enqueue_def unlock_word_def unlock_recurse_def needs_wakeup_def six_set_bitmask_def six_set_owner_def
  waiter_start_time_def SIX_LOCK_HELD_intent_def SIX_LOCK_HELD_write_def SIX_LOCK_HELD_read_def SIX_LOCK_WAITING_def
  SIX_LOCK_NOSPIN_def Let_def

lemma run1_eq:
  "run1 = \<lparr>lock = six_lock_init\<lparr>lstate := 0x4000000, owner := Some 1\<rparr>, rd = {#}, it = {#1#}, wr = {#},
    announced = None, pending = {#}, nwrite = 0\<rparr>"
  by (simp add: run1_def run_eval)

lemma run2_eq:
  "run2 = run1\<lparr>lock := lock run1\<lparr>lstate := 0x24000000,
    wait_list := [\<lparr>wtask = 2, lock_want = SIX_LOCK_intent, lock_acquired = False, start_time = 5\<rparr>]\<rparr>\<rparr>"
  by (simp add: run2_def run1_eq run_eval)

lemma run3_eq:
  "run3 = run2\<lparr>lock := lock run2\<lparr>lstate := 0x20000000, owner := None\<rparr>, it := {#}, pending := {#SIX_LOCK_intent#}\<rparr>"
  by (simp add: run3_def run2_eq run1_eq run_eval)

lemma run_steps: "six_step six_sys_init run1" "six_step run1 run2" "six_step run2 run3"
proof -
  have 1: "six_trylock_ip 0 SIX_LOCK_intent 1 (lock six_sys_init) = (True, lock run1, [])"
    by (simp add: run1_eq run_eval)
  show "six_step six_sys_init run1"
    using six_step.trylock [of SIX_LOCK_intent 1 six_sys_init, OF _ 1]
    by (simp add: may_take_def idle_def room_def run1_eq six_sys_init_def six_lock_init_def)
  have 2: "slowpath_enqueue 0 SIX_LOCK_intent 2 5 (lock run1) = (0, lock run2)"
    by (simp add: run2_eq run1_eq run_eval)
  show "six_step run1 run2"
    using six_step.enqueue [of SIX_LOCK_intent run1 2, OF _ _ 2]
    by (simp add: idle_def room_def run2_eq run1_eq six_lock_init_def)
  have 3: "unlock_recurse SIX_LOCK_intent (lock run2) = Inr (lock run2)"
      "unlock_word 0 SIX_LOCK_intent (lock run2) = (0x20000000, lock run3)"
    by (simp_all add: run3_eq run2_eq run1_eq run_eval)
  have 4: "needs_wakeup 0x20000000 SIX_LOCK_intent" by (simp add: needs_wakeup_def SIX_LOCK_WAITING_def)
  show "six_step run2 run3"
    using six_step.unlock [of 1 run2 SIX_LOCK_intent, OF _ _ _ 3] 4
    by (simp add: idle_def run3_eq run2_eq run1_eq six_lock_init_def)
qed

lemma run_reachable: "six_reachable run1" "six_reachable run2" "six_reachable run3"
  unfolding six_reachable_def using run_steps by (meson rtranclp.rtrancl_into_rtrancl rtranclp.rtrancl_refl)+





text \<open>When nobody holds the lock and no wakeup is pending, nobody waits.\<close>

lemma six_quiescent:
  "six_reachable s \<Longrightarrow> rd s = {#} \<Longrightarrow> it s = {#} \<Longrightarrow> pending s = {#} \<Longrightarrow> waiting s = []"
proof -
  assume a: "six_reachable s" "rd s = {#}" "it s = {#}" "pending s = {#}"
  then have i: "six_inv s" by (intro reachable_inv)
  have "\<not> blocked (st s) ty" for ty
    using i a by (cases ty) (auto simp: inv_defs blocked_def filter_empty_conv)
  then show ?thesis using i a(4) by (cases "waiting s") (auto simp: inv_defs)
qed



end
