(* ===== verification/Two_State.thy ===== *)
theory Two_State
  imports Bpos
begin

unbundle bit_operations_syntax

text \<open>
  Locks with two shared states that exclude each other: the two-state lock
  (\<^verbatim>\<open>libbcachefs/two_state_shared_lock.h\<close>) and the table of bucket locks for nocow writes
  (\<^verbatim>\<open>nocow_locking.c\<close>), which has one such lock per bucket, hashed into groups of four.

  The contract both keep is the locale \<open>two_state\<close>: there is a signed count per key, positive
  while the one state is held and negative while the other is. An operation is atomic: a single
  compare-and-exchange or a critical section of the group's spin lock. \<open>BUG()\<close> is \<open>None\<close>.
\<close>

section \<open>The contract\<close>

text \<open>The amount a hold in state \<open>s\<close> adds to the count.\<close>

abbreviation dir :: "bool \<Rightarrow> int" where
  "dir s \<equiv> if s then 1 else - 1"

text \<open>Users of the locks: a try in a state, or dropping a hold one has.\<close>

datatype 'k ts_op = Try 'k bool | Drop 'k bool

text \<open>
  A run of the users' operations from a state, with the number of holds per key and state. A
  drop without a hold does not occur and is skipped. \<open>None\<close>: an operation hit \<open>BUG()\<close>.
\<close>

fun ts_run :: "('k \<Rightarrow> bool \<Rightarrow> 's \<Rightarrow> bool \<times> 's) \<Rightarrow> ('k \<Rightarrow> bool \<Rightarrow> 's \<Rightarrow> 's option) \<Rightarrow>
    'k ts_op list \<Rightarrow> 's \<Rightarrow> ('k \<Rightarrow> bool \<Rightarrow> nat) \<Rightarrow> ('s \<times> ('k \<Rightarrow> bool \<Rightarrow> nat)) option" where
  "ts_run tryl unl [] s h = Some (s, h)"
| "ts_run tryl unl (Try k d # ops) s h =
     (let (ok, s') = tryl k d s
      in ts_run tryl unl ops s' (if ok then h(k := (h k)(d := h k d + 1)) else h))"
| "ts_run tryl unl (Drop k d # ops) s h =
     (if h k d = 0 then ts_run tryl unl ops s h
      else case unl k d s of
        None \<Rightarrow> None
      | Some s' \<Rightarrow> ts_run tryl unl ops s' (h(k := (h k)(d := h k d - 1))))"

definition exclusive :: "('k \<Rightarrow> bool \<Rightarrow> nat) \<Rightarrow> 'k \<Rightarrow> bool" where
  "exclusive h k \<longleftrightarrow> h k True = 0 \<or> h k False = 0"

locale two_state =
  fixes inv :: "'s \<Rightarrow> bool"
    and cnt :: "'s \<Rightarrow> 'k \<Rightarrow> int"
    and tryl :: "'k \<Rightarrow> bool \<Rightarrow> 's \<Rightarrow> bool \<times> 's"
    and unl :: "'k \<Rightarrow> bool \<Rightarrow> 's \<Rightarrow> 's option"
    and unbounded :: bool
    and lim :: nat
  assumes try_ok: "inv s \<Longrightarrow> unbounded \<or> \<bar>cnt s k\<bar> < int lim \<Longrightarrow> tryl k d s = (True, s') \<Longrightarrow>
      inv s' \<and> 0 \<le> cnt s k * dir d \<and> cnt s' = (cnt s)(k := cnt s k + dir d)"
    and try_fail: "inv s \<Longrightarrow> tryl k d s = (False, s') \<Longrightarrow> inv s' \<and> cnt s' = cnt s"
    and unl_ok: "inv s \<Longrightarrow> 0 < cnt s k * dir d \<Longrightarrow>
      \<exists>s'. unl k d s = Some s' \<and> inv s' \<and> cnt s' = (cnt s)(k := cnt s k - dir d)"
begin

definition held :: "'s \<Rightarrow> ('k \<Rightarrow> bool \<Rightarrow> nat) \<Rightarrow> bool" where
  "held s h \<longleftrightarrow> inv s \<and> (\<forall>k. cnt s k = int (h k True) - int (h k False) \<and> exclusive h k)"

lemma heldD:
  assumes "held s h"
  shows "inv s" "cnt s k = int (h k True) - int (h k False)" "h k True = 0 \<or> h k False = 0"
  using assms by (simp_all add: held_def exclusive_def)

lemma held_try:
  assumes "held s h" "tryl k d s = (ok, s')" "unbounded \<or> h k True + h k False < lim"
  shows "held s' (if ok then h(k := (h k)(d := h k d + 1)) else h)"
proof (cases ok)
  case True
  have c: "cnt s k = int (h k True) - int (h k False)" "exclusive h k" "inv s"
    using assms(1) by (auto simp: held_def)
  then have "\<bar>cnt s k\<bar> = int (h k True + h k False)" by (auto simp: exclusive_def)
  then have "unbounded \<or> \<bar>cnt s k\<bar> < int lim" using assms(3) by linarith
  note t = try_ok [OF c(3) this, of d s'] assms(2)
  have o: "j \<noteq> k \<Longrightarrow> cnt s j = int (h j True) - int (h j False) \<and> exclusive h j" for j
    using assms(1) by (simp add: held_def)
  show ?thesis using t True o c by (cases d) (auto simp: held_def exclusive_def)
next
  case False
  then show ?thesis using try_fail [of s k d s'] assms(1,2) by (auto simp: held_def)
qed

lemma held_drop:
  assumes "held s h" "h k d \<noteq> 0"
  shows "\<exists>s'. unl k d s = Some s' \<and> held s' (h(k := (h k)(d := h k d - 1)))"
proof -
  have c: "cnt s k = int (h k True) - int (h k False)" "exclusive h k" "inv s"
    using assms(1) by (auto simp: held_def)
  then have "0 < cnt s k * dir d" using assms(2) by (cases d) (auto simp: exclusive_def)
  from unl_ok [OF c(3) this] show ?thesis
    using assms c by (cases d) (auto simp: held_def exclusive_def of_nat_diff)
qed

lemma run_held:
  assumes "held s h" "unbounded \<or> (\<forall>k. h k True + h k False + length ops \<le> lim)"
  shows "\<exists>s' h'. ts_run tryl unl ops s h = Some (s', h') \<and> held s' h'"
  using assms
proof (induction ops arbitrary: s h)
  case (Cons op ops)
  have b: "\<not> unbounded \<Longrightarrow> h j True + h j False + Suc (length ops) \<le> lim" for j using Cons.prems(2) by auto
  have next_bound: "unbounded \<or> (\<forall>j. h' j True + h' j False + length ops \<le> lim)"
    if "\<And>j. h' j True + h' j False \<le> Suc (h j True + h j False)" for h'
  proof -
    have "\<not> unbounded \<Longrightarrow> h' j True + h' j False + length ops \<le> lim" for j using b [of j] that [of j] by linarith
    then show ?thesis by blast
  qed
  show ?case
  proof (cases op)
    case (Try k d)
    obtain ok s' where t: "tryl k d s = (ok, s')" by fastforce
    define h' where "h' = (if ok then h(k := (h k)(d := h k d + 1)) else h)"
    have "unbounded \<or> h k True + h k False < lim" using b [of k] by linarith
    from held_try [OF Cons.prems(1) t this] have "held s' h'" unfolding h'_def .
    moreover have "h' j True + h' j False \<le> Suc (h j True + h j False)" for j by (cases d) (simp_all add: h'_def)
    ultimately show ?thesis using Cons.IH [of s' h'] next_bound [of h'] t Try unfolding h'_def by simp
  next
    case (Drop k d)
    show ?thesis
    proof (cases "h k d = 0")
      case True
      then show ?thesis using Cons.IH [OF Cons.prems(1)] next_bound [of h] Drop by simp
    next
      case False
      define h' where "h' = h(k := (h k)(d := h k d - 1))"
      obtain s' where s': "unl k d s = Some s'" "held s' h'"
        using held_drop [OF Cons.prems(1) False] unfolding h'_def by blast
      have "h' j True + h' j False \<le> Suc (h j True + h j False)" for j by (cases d) (auto simp: h'_def)
      then have "\<exists>t g. ts_run tryl unl ops s' h' = Some (t, g) \<and> held t g"
        using Cons.IH [OF s'(2)] next_bound [of h'] by blast
      then show ?thesis using s'(1) False Drop by (simp only: ts_run.simps h'_def option.case if_False)
    qed
  qed
qed auto

end

section \<open>Two-state locks\<close>

text \<open>The lock is its signed 64 bit counter; the flag of an unlock says whether it wakes waiters.\<close>

record two_state_lock_t =
  tv :: u64

definition two_state_lock_init :: two_state_lock_t where
  "two_state_lock_init = \<lparr>tv = 0\<rparr>"

definition bch2_two_state_unlock :: "two_state_lock_t \<Rightarrow> bool \<Rightarrow> bool \<times> two_state_lock_t" where
  "bch2_two_state_unlock lock s =
     (let i = (if s then 1 else - 1);
          v = tv lock - i
      in (v = 0, lock\<lparr>tv := v\<rparr>))"

definition bch2_two_state_trylock :: "two_state_lock_t \<Rightarrow> bool \<Rightarrow> bool \<times> two_state_lock_t" where
  "bch2_two_state_trylock lock s =
     (let i = (if s then 1 else - 1);
          old = tv lock
      in if (if sint i > 0 then sint old < 0 else sint old > 0) then (False, lock)
         else (True, lock\<lparr>tv := old + i\<rparr>))"

text \<open>
  Waiting for a condition that is tried again after every wakeup: \<open>envs\<close> are the changes other
  tasks make between the tries. \<open>None\<close>: still waiting.
\<close>

fun wait_event :: "('s \<Rightarrow> bool \<times> 's) \<Rightarrow> ('s \<Rightarrow> 's) list \<Rightarrow> 's \<Rightarrow> 's option" where
  "wait_event cond envs s =
     (let (ok, s') = cond s in
      if ok then Some s' else case envs of [] \<Rightarrow> None | e # es \<Rightarrow> wait_event cond es (e s'))"

definition bch2_two_state_lock :: "(two_state_lock_t \<Rightarrow> two_state_lock_t) list \<Rightarrow> two_state_lock_t \<Rightarrow> bool \<Rightarrow> two_state_lock_t option" where
  "bch2_two_state_lock envs lock s =
     (let (ok, lock) = bch2_two_state_trylock lock s in
      if ok then Some lock else wait_event (\<lambda>l. bch2_two_state_trylock l s) envs lock)"

lemma sint_add_small:
  fixes a b :: u64
  assumes "- (2 ^ 63) \<le> sint a + sint b" "sint a + sint b < 2 ^ 63"
  shows "sint (a + b) = sint a + sint b"
  using assms by (simp add: sint_word_ariths signed_take_bit_int_eq_self)

lemma sint_sub_small:
  fixes a b :: u64
  assumes "- (2 ^ 63) \<le> sint a - sint b" "sint a - sint b < 2 ^ 63"
  shows "sint (a - b) = sint a - sint b"
  using assms by (simp add: sint_word_ariths signed_take_bit_int_eq_self)

lemma sint_one [simp]: "sint (1 :: u64) = 1" "sint (- 1 :: u64) = - 1"
  by simp_all

definition two_state_cnt :: "two_state_lock_t \<Rightarrow> unit \<Rightarrow> int" where
  "two_state_cnt lock k = sint (tv lock)"

lemma two_state_try_ok:
  assumes "\<bar>sint (tv l)\<bar> < int (2 ^ 63 - 1)" "bch2_two_state_trylock l d = (True, l')"
  shows "0 \<le> sint (tv l) * dir d \<and> sint (tv l') = sint (tv l) + dir d"
  using assms sint_add_small [of "tv l" 1] sint_sub_small [of "tv l" 1]
  by (auto simp: bch2_two_state_trylock_def Let_def split: if_splits)

interpretation ts: two_state "\<lambda>_. True" two_state_cnt "\<lambda>_ d l. bch2_two_state_trylock l d"
  "\<lambda>_ d l. Some (snd (bch2_two_state_unlock l d))" False "2 ^ 63 - 1"
proof (unfold_locales, goal_cases)
  case (1 s k d s')
  then show ?case using two_state_try_ok [of s d s'] by (auto simp: two_state_cnt_def)
next
  case (2 s k d s')
  then show ?case by (auto simp: bch2_two_state_trylock_def Let_def two_state_cnt_def split: if_splits)
next
  case (3 s k d)
  have "- (2 ^ 63) \<le> sint (tv s)" "sint (tv s) < 2 ^ 63" using sint_range_size [of "tv s"] by (simp_all add: word_size)
  then show ?case using 3 sint_add_small [of "tv s" 1] sint_sub_small [of "tv s" 1]
    by (cases d) (auto simp: bch2_two_state_unlock_def Let_def two_state_cnt_def)
qed

text \<open>C32: in every sequence of fewer than \<open>2^63\<close> trylocks, and unlocks of what is held, on a
  two-state lock, the two states are never held at once, and the counter is the number of holds
  with the sign of their state.\<close>

theorem two_state_lock_exclusive:
  assumes "length ops < 2 ^ 63"
  shows "\<exists>l h. ts_run (\<lambda>_ d l. bch2_two_state_trylock l d) (\<lambda>_ d l. Some (snd (bch2_two_state_unlock l d)))
      ops two_state_lock_init (\<lambda>_ _. 0) = Some (l, h) \<and>
    (h () True = 0 \<or> h () False = 0) \<and> sint (tv l) = int (h () True) - int (h () False)"
proof -
  have "ts.held two_state_lock_init (\<lambda>_ _. 0)"
    by (simp add: ts.held_def two_state_cnt_def two_state_lock_init_def exclusive_def)
  then obtain l h where r: "ts_run (\<lambda>_ d l. bch2_two_state_trylock l d) (\<lambda>_ d l. Some (snd (bch2_two_state_unlock l d)))
      ops two_state_lock_init (\<lambda>_ _. 0) = Some (l, h)" "ts.held l h"
    using ts.run_held [of two_state_lock_init "\<lambda>_ _. 0" ops] assms by auto
  then show ?thesis using ts.heldD(2,3) [OF r(2), of "()"] by (auto simp: two_state_cnt_def)
qed

theorem two_state_lock_exclusive_witness:
  "\<exists>l h. ts_run (\<lambda>_ d l. bch2_two_state_trylock l d) (\<lambda>_ d l. Some (snd (bch2_two_state_unlock l d)))
      [Try () True, Try () False, Try () True] two_state_lock_init (\<lambda>_ _. 0) = Some (l, h) \<and>
    (h () True = 0 \<or> h () False = 0) \<and> sint (tv l) = int (h () True) - int (h () False)"
  by (rule two_state_lock_exclusive) simp

end
