(* ===== verification/Bch_Hash.thy ===== *)
theory Bch_Hash
  imports Bch_Prelude
begin

unbundle bit_operations_syntax

text \<open>
  The multiplicative hash of \<^verbatim>\<open>include/linux/hash.h\<close>, which the bucket tables use, with the
  range of its result.
\<close>

definition GOLDEN_RATIO_64 :: u64 where
  "GOLDEN_RATIO_64 = 0x61C8864680B583EB"

definition hash_64 :: "u64 \<Rightarrow> nat \<Rightarrow> u32" where
  "hash_64 val bits = ucast (drop_bit (64 - bits) (val * GOLDEN_RATIO_64))"

lemma hash_64_less:
  assumes "bits \<le> 64"
  shows "unat (hash_64 v bits) < 2 ^ bits"
proof -
  let ?w = "v * GOLDEN_RATIO_64"
  have "unat (hash_64 v bits) \<le> unat ?w div 2 ^ (64 - bits)"
    unfolding hash_64_def unat_ucast_mod unat_drop_bit by (rule mod_less_eq_dividend)
  also have "\<dots> < 2 ^ bits"
  proof -
    have "unat ?w < 2 ^ 64" using unsigned_less [of ?w, where ?'a = nat] by simp
    also have "(2 :: nat) ^ 64 = 2 ^ bits * 2 ^ (64 - bits)" using assms by (simp add: power_add [symmetric])
    finally show ?thesis by (simp add: div_less_iff_less_mult)
  qed
  finally show ?thesis .
qed

end
