(* ===== verification/Nocow.thy ===== *)
theory Nocow
  imports Two_State Bch_Hash
begin

unbundle bit_operations_syntax

text \<open>
  The bucket locks for nocow writes (\<^verbatim>\<open>libbcachefs/nocow_locking.c\<close>, \<^verbatim>\<open>nocow_locking.h\<close>): a
  table of 1024 groups of four entries. An entry is a bucket number and a signed count,
  positive for updates in place and negative for copies. The wait list of a group is the flag
  that an unlock returns. Keys are the 64 bit bucket numbers of \<^verbatim>\<open>alloc_background.h\<close>.
\<close>

section \<open>The table\<close>

definition bucket_to_u64 :: "bpos \<Rightarrow> u64" where
  "bucket_to_u64 bucket = push_bit 48 (bp_inode bucket) OR bp_offset bucket"

definition u64_to_bucket :: "u64 \<Rightarrow> bpos" where
  "u64_to_bucket bucket = SPOS (drop_bit 48 bucket) (bucket AND NOT (push_bit 48 (NOT 0))) 0"

definition BUCKET_NOCOW_LOCKS_BITS :: nat where "BUCKET_NOCOW_LOCKS_BITS = 10"
definition BUCKET_NOCOW_LOCKS :: nat where "BUCKET_NOCOW_LOCKS = 2 ^ BUCKET_NOCOW_LOCKS_BITS"

record nocow_lock_bucket =
  nb :: "u64 list"
  nl :: "u32 list"

type_synonym bucket_nocow_lock_table = "nocow_lock_bucket list"

text \<open>The zeroed table of a new file system.\<close>

definition nocow_locking_init_early :: bucket_nocow_lock_table where
  "nocow_locking_init_early = replicate BUCKET_NOCOW_LOCKS \<lparr>nb = replicate 4 0, nl = replicate 4 0\<rparr>"

definition bucket_nocow_lock :: "u64 \<Rightarrow> nat" where
  "bucket_nocow_lock dev_bucket =
     unat (hash_64 dev_bucket BUCKET_NOCOW_LOCKS_BITS AND of_nat (BUCKET_NOCOW_LOCKS - 1))"

definition sign :: "u32 \<Rightarrow> int" where
  "sign v = (if sint v < 0 then - 1 else if sint v > 0 then 1 else 0)"

text \<open>The first index of a group's entries with a property, as the loops look for it.\<close>

definition first_entry :: "(nat \<Rightarrow> bool) \<Rightarrow> nat option" where
  "first_entry P = find P [0..<4]"

definition bch2_bucket_nocow_is_locked :: "bucket_nocow_lock_table \<Rightarrow> bpos \<Rightarrow> bool" where
  "bch2_bucket_nocow_is_locked t bucket =
     (let dev_bucket = bucket_to_u64 bucket;
          l = t ! bucket_nocow_lock dev_bucket
      in first_entry (\<lambda>i. nb l ! i = dev_bucket \<and> nl l ! i \<noteq> 0) \<noteq> None)"

definition bch2_bucket_nocow_unlock :: "bucket_nocow_lock_table \<Rightarrow> bpos \<Rightarrow> bool \<Rightarrow> (bool \<times> bucket_nocow_lock_table) option" where
  "bch2_bucket_nocow_unlock t bucket flags =
     (let dev_bucket = bucket_to_u64 bucket;
          h = bucket_nocow_lock dev_bucket;
          l = t ! h;
          lock_val = (if flags then 1 else - 1)
      in case first_entry (\<lambda>i. nb l ! i = dev_bucket) of
           None \<Rightarrow> None
         | Some i \<Rightarrow>
             let v = nl l ! i - lock_val in
             if v \<noteq> 0 \<and> sign v \<noteq> sint lock_val then None
             else Some (v = 0, t[h := l\<lparr>nl := (nl l)[i := v]\<rparr>]))"

definition nocow_take_lock :: "nocow_lock_bucket \<Rightarrow> nat \<Rightarrow> u32 \<Rightarrow> bool \<times> nocow_lock_bucket" where
  "nocow_take_lock l i lock_val =
     (let v = nl l ! i in
      if v \<noteq> 0 \<and> sign (v + lock_val) \<noteq> sign v then (False, l)
      else (True, l\<lparr>nl := (nl l)[i := v + lock_val]\<rparr>))"

definition bucket_nocow_trylock_raw :: "nocow_lock_bucket \<Rightarrow> u64 \<Rightarrow> bool \<Rightarrow> bool \<times> nocow_lock_bucket" where
  "bucket_nocow_trylock_raw l dev_bucket flags =
     (let lock_val = (if flags then 1 else - 1) :: u32 in
      case first_entry (\<lambda>i. nb l ! i = dev_bucket) of
        Some i \<Rightarrow>
          let v = nl l ! i in
          if (if sint lock_val > 0 then sint v < 0 else sint v > 0) then (False, l)
          else nocow_take_lock l i lock_val
      | None \<Rightarrow>
          (case first_entry (\<lambda>i. nl l ! i = 0) of
             Some i \<Rightarrow> nocow_take_lock (l\<lparr>nb := (nb l)[i := dev_bucket]\<rparr>) i lock_val
           | None \<Rightarrow> (False, l)))"

definition bch2_bucket_nocow_trylock :: "bucket_nocow_lock_table \<Rightarrow> bpos \<Rightarrow> bool \<Rightarrow> bool \<times> bucket_nocow_lock_table" where
  "bch2_bucket_nocow_trylock t bucket flags =
     (let dev_bucket = bucket_to_u64 bucket;
          h = bucket_nocow_lock dev_bucket;
          (ok, l) = bucket_nocow_trylock_raw (t ! h) dev_bucket flags
      in (ok, t[h := l]))"

text \<open>The blocking lock, with the changes other tasks make to the table between its tries.\<close>

definition bch2_bucket_nocow_lock ::
    "(bucket_nocow_lock_table \<Rightarrow> bucket_nocow_lock_table) list \<Rightarrow> bucket_nocow_lock_table \<Rightarrow> bpos \<Rightarrow> bool
      \<Rightarrow> bucket_nocow_lock_table option" where
  "bch2_bucket_nocow_lock envs t bucket flags =
     (let (ok, t) = bch2_bucket_nocow_trylock t bucket flags in
      if ok then Some t else wait_event (\<lambda>t. bch2_bucket_nocow_trylock t bucket flags) envs t)"

text \<open>\<open>bch2_fs_nocow_locking_exit\<close>: whether its assertion that nothing is locked holds.\<close>

definition nocow_locking_exit_ok :: "bucket_nocow_lock_table \<Rightarrow> bool" where
  "nocow_locking_exit_ok t \<longleftrightarrow> (\<forall>l\<in>set t. \<forall>v\<in>set (nl l). v = 0)"

section \<open>Counts\<close>

text \<open>
  An entry whose bucket number also stands at a smaller index of its group is not locked, so
  the count of a bucket is the sum over its group.
\<close>

definition group_inv :: "nocow_lock_bucket \<Rightarrow> bool" where
  "group_inv l \<longleftrightarrow> length (nb l) = 4 \<and> length (nl l) = 4 \<and>
     (\<forall>i j. i < j \<longrightarrow> j < 4 \<longrightarrow> nb l ! i = nb l ! j \<longrightarrow> nl l ! j = 0)"

definition group_cnt :: "nocow_lock_bucket \<Rightarrow> u64 \<Rightarrow> int" where
  "group_cnt l d = (\<Sum>i<4. if nb l ! i = d then sint (nl l ! i) else 0)"

definition nocow_inv :: "bucket_nocow_lock_table \<Rightarrow> bool" where
  "nocow_inv t \<longleftrightarrow> length t = BUCKET_NOCOW_LOCKS \<and> (\<forall>l\<in>set t. group_inv l)"

definition nocow_cnt :: "bucket_nocow_lock_table \<Rightarrow> u64 \<Rightarrow> int" where
  "nocow_cnt t d = group_cnt (t ! bucket_nocow_lock d) d"

lemma first_entry_Some: "first_entry P = Some i \<longleftrightarrow> i < 4 \<and> P i \<and> (\<forall>j<i. \<not> P j)"
  by (simp add: first_entry_def find_upt_Some)

lemma first_entry_None: "first_entry P = None \<longleftrightarrow> (\<forall>i<4. \<not> P i)"
  by (simp add: first_entry_def find_upt_None)

lemma sum_at:
  fixes f g :: "nat \<Rightarrow> int"
  assumes "i < n" "\<And>j. j < n \<Longrightarrow> j \<noteq> i \<Longrightarrow> g j = f j"
  shows "(\<Sum>j<n. g j) = (\<Sum>j<n. f j) + g i - f i"
proof -
  have "(\<Sum>j<n. g j) = g i + (\<Sum>j\<in>{..<n} - {i}. g j)" "(\<Sum>j<n. f j) = f i + (\<Sum>j\<in>{..<n} - {i}. f j)"
    using assms(1) by (auto intro!: sum.remove)
  moreover have "(\<Sum>j\<in>{..<n} - {i}. g j) = (\<Sum>j\<in>{..<n} - {i}. f j)" by (rule sum.cong) (use assms(2) in auto)
  ultimately show ?thesis by simp
qed

lemma group_cnt_first:
  assumes "group_inv l" "first_entry (\<lambda>i. nb l ! i = d) = Some i"
  shows "group_cnt l d = sint (nl l ! i)"
proof -
  have i: "i < 4" "nb l ! i = d" "\<And>j. j < i \<Longrightarrow> nb l ! j \<noteq> d" using assms(2) by (auto simp: first_entry_Some)
  have "(if nb l ! j = d then sint (nl l ! j) else 0) = 0" if "j < 4" "j \<noteq> i" for j
  proof (cases "j < i")
    case False
    then show ?thesis using that i(2) assms(1) unfolding group_inv_def
      by (metis linorder_neqE_nat sint_0)
  qed (use i in simp)
  then show ?thesis unfolding group_cnt_def
    using sum_at [of i 4 "\<lambda>j. if nb l ! j = d then sint (nl l ! j) else 0" "\<lambda>_. 0"] i by simp
qed

lemma group_cnt_absent: "first_entry (\<lambda>i. nb l ! i = d) = None \<Longrightarrow> group_cnt l d = 0"
  by (simp add: group_cnt_def first_entry_None)

lemma sint32_one [simp]: "sint (1 :: u32) = 1" "sint (- 1 :: u32) = - 1"
  by simp_all

lemma sign_step:
  assumes "v = 0 \<or> sign (v + (if f then 1 else - 1)) = sign v"
  shows "sint (v + (if f then 1 else - 1)) = sint v + dir f"
proof -
  have r: "- (2 ^ 31) \<le> sint v" "sint v < 2 ^ 31" using sint_range_size [of v] by (simp_all add: word_size)
  show ?thesis
  proof (cases f)
    case True
    then show ?thesis using assms r
      by (cases "sint v = 2 ^ 31 - 1") (auto simp: sign_def sint_word_ariths signed_take_bit_int_eq_self)
  next
    case False
    then show ?thesis using assms r
      by (cases "sint v = - (2 ^ 31)") (auto simp: sign_def sint_word_ariths signed_take_bit_int_eq_self)
  qed
qed

lemma group_cnt_update:
  assumes "length (nb l) = 4" "length (nl l) = 4" "i < 4" "sint v = sint (nl l ! i) + c"
    "nb l ! i = d \<or> nl l ! i = 0"
  shows "group_cnt (l\<lparr>nb := (nb l)[i := d], nl := (nl l)[i := v]\<rparr>) =
    (group_cnt l)(d := group_cnt l d + c)"
proof
  fix k
  show "group_cnt (l\<lparr>nb := (nb l)[i := d], nl := (nl l)[i := v]\<rparr>) k = ((group_cnt l)(d := group_cnt l d + c)) k"
    unfolding group_cnt_def using assms
    by (subst sum_at [of i 4 _ "\<lambda>j. if nb l ! j = k then sint (nl l ! j) else 0"]) auto
qed

lemma group_inv_update:
  assumes "group_inv l" "i < 4" "\<forall>j<i. nb l ! j \<noteq> d" "nb l ! i = d \<or> (\<forall>j<4. nb l ! j \<noteq> d)"
  shows "group_inv (l\<lparr>nb := (nb l)[i := d], nl := (nl l)[i := v]\<rparr>)"
  using assms unfolding group_inv_def by (auto simp: nth_list_update)

lemma group_try:
  assumes "group_inv l" "bucket_nocow_trylock_raw l d f = (ok, l')"
  shows "group_inv l' \<and> (if ok then 0 \<le> group_cnt l d * dir f \<and> group_cnt l' = (group_cnt l)(d := group_cnt l d + dir f)
    else group_cnt l' = group_cnt l)"
proof -
  let ?lv = "(if f then 1 else - 1) :: u32"
  have len: "length (nb l) = 4" "length (nl l) = 4" using assms(1) by (simp_all add: group_inv_def)
  show ?thesis
  proof (cases "first_entry (\<lambda>i. nb l ! i = d)")
    case (Some i)
    have i: "i < 4" "nb l ! i = d" "\<forall>j<i. nb l ! j \<noteq> d" using Some by (auto simp: first_entry_Some)
    note c = group_cnt_first [OF assms(1) Some]
    have n: "l\<lparr>nb := (nb l)[i := d], nl := x\<rparr> = l\<lparr>nl := x\<rparr>" for x using i(2) list_update_id [of "nb l" i] by simp
    show ?thesis
      using assms Some c sign_step [of "nl l ! i" f] i
        group_cnt_update [OF len i(1), of "nl l ! i + ?lv" "dir f" d, unfolded n]
        group_inv_update [OF assms(1) i(1), of d "nl l ! i + ?lv", unfolded n]
      by (cases f) (auto simp: bucket_nocow_trylock_raw_def nocow_take_lock_def Let_def split: if_splits)
  next
    case None
    note z = group_cnt_absent [OF None]
    show ?thesis
    proof (cases "first_entry (\<lambda>i. nl l ! i = 0)")
      case (Some i)
      then have i: "i < 4" "nl l ! i = 0" by (auto simp: first_entry_Some)
      have "ok" "l' = l\<lparr>nb := (nb l)[i := d], nl := (nl l)[i := ?lv]\<rparr>"
        using assms(2) None Some i by (auto simp: bucket_nocow_trylock_raw_def nocow_take_lock_def Let_def)
      then show ?thesis
        using z i len None group_cnt_update [OF len i(1), of ?lv "dir f" d] group_inv_update [OF assms(1) i(1), of d ?lv]
        by (auto simp: first_entry_None)
    next
      case none: None
      then show ?thesis using assms None by (auto simp: bucket_nocow_trylock_raw_def)
    qed
  qed
qed

lemma bucket_nocow_lock_less: "bucket_nocow_lock d < BUCKET_NOCOW_LOCKS"
proof -
  have "bucket_nocow_lock d = unat (hash_64 d 10) mod 2 ^ 10"
    unfolding bucket_nocow_lock_def BUCKET_NOCOW_LOCKS_def BUCKET_NOCOW_LOCKS_BITS_def
    by (subst unat_and_mask [symmetric]) (simp add: mask_eq_decr_exp)
  then show ?thesis by (simp add: BUCKET_NOCOW_LOCKS_def BUCKET_NOCOW_LOCKS_BITS_def)
qed

lemma bucket_u64_id [simp]: "bucket_to_u64 (u64_to_bucket k) = k"
proof -
  have "push_bit 48 (drop_bit 48 k) OR (k AND mask 48) = k"
    by (rule bit_eqI) (auto simp: bit_or_iff bit_push_bit_iff bit_drop_bit_eq bit_and_iff bit_mask_iff)
  then show ?thesis by (simp only: bucket_to_u64_def u64_to_bucket_def bpos.sel not_push_bit_not_0)
qed

lemma nocow_step_sign:
  assumes "0 \<le> sint v * dir f"
  shows "v = 0 \<or> sign (v + (if f then 1 else - 1)) = sign v \<longleftrightarrow> sint v \<noteq> (if f then 2 ^ 31 - 1 else - (2 ^ 31))"
proof -
  have r: "- (2 ^ 31) \<le> sint v" "sint v < 2 ^ 31" using sint_range_size [of v] by (simp_all add: word_size)
  have z: "v = 0 \<longleftrightarrow> sint v = 0" by (metis sint_0 signed_word_eqI)
  show ?thesis
  proof (cases f)
    case True
    then show ?thesis using assms r z
      by (cases "sint v = 2 ^ 31 - 1") (auto simp: sign_def sint_word_ariths signed_take_bit_int_eq_self)
  next
    case False
    then show ?thesis using assms r z
      by (cases "sint v = - (2 ^ 31)") (auto simp: sign_def sint_word_ariths signed_take_bit_int_eq_self)
  qed
qed

lemma sint32_eq_0: "sint (v :: u32) = 0 \<longleftrightarrow> v = 0"
  by (metis sint_0 signed_word_eqI)

lemma sign_unstep:
  fixes v :: u32
  assumes "0 < sint v * dir f"
  shows "sint (v - (if f then 1 else - 1)) = sint v - dir f"
proof -
  have "- (2 ^ 31) \<le> sint v" "sint v < 2 ^ 31" using sint_range_size [of v] by (simp_all add: word_size)
  then show ?thesis using assms by (cases f) (auto simp: sint_word_ariths signed_take_bit_int_eq_self)
qed

lemma nocow_cnt_group:
  assumes "nocow_inv t" "h = bucket_nocow_lock d" "group_cnt l = (group_cnt (t ! h))(d := c)" "group_inv l"
  shows "nocow_inv (t[h := l])" "nocow_cnt (t[h := l]) = (nocow_cnt t)(d := c)"
proof -
  have h: "h < length t" using assms(1,2) bucket_nocow_lock_less by (simp add: nocow_inv_def)
  show "nocow_inv (t[h := l])"
    using assms(1,4) h by (auto simp: nocow_inv_def dest!: subsetD [OF set_update_subset_insert])
  show "nocow_cnt (t[h := l]) = (nocow_cnt t)(d := c)"
  proof
    fix k
    show "nocow_cnt (t[h := l]) k = ((nocow_cnt t)(d := c)) k"
      using assms(2,3) h by (cases "bucket_nocow_lock k = h") (auto simp: nocow_cnt_def)
  qed
qed

lemma group_at: "nocow_inv t \<Longrightarrow> group_inv (t ! bucket_nocow_lock d)"
  using bucket_nocow_lock_less [of d] by (simp add: nocow_inv_def)

lemma nocow_unlock:
  assumes "nocow_inv t" "0 < nocow_cnt t d * dir f"
  shows "\<exists>w t'. bch2_bucket_nocow_unlock t (u64_to_bucket d) f = Some (w, t') \<and> nocow_inv t' \<and>
    nocow_cnt t' = (nocow_cnt t)(d := nocow_cnt t d - dir f)"
proof -
  define h where "h = bucket_nocow_lock d"
  define l where "l = t ! h"
  let ?lv = "(if f then 1 else - 1) :: u32"
  have g: "group_inv l" using group_at [OF assms(1)] by (simp add: l_def h_def)
  have c: "nocow_cnt t d = group_cnt l d" by (simp add: nocow_cnt_def l_def h_def)
  then obtain i where f: "first_entry (\<lambda>i. nb l ! i = d) = Some i"
    using assms(2) group_cnt_absent [of l d] by (cases "first_entry (\<lambda>i. nb l ! i = d)") auto
  have i: "i < 4" "nb l ! i = d" "\<forall>j<i. nb l ! j \<noteq> d" using f by (auto simp: first_entry_Some)
  have len: "length (nb l) = 4" "length (nl l) = 4" using g by (simp_all add: group_inv_def)
  define v where "v = nl l ! i - ?lv"
  have n: "l\<lparr>nb := (nb l)[i := d], nl := x\<rparr> = l\<lparr>nl := x\<rparr>" for x using i(2) list_update_id [of "nb l" i] by simp
  have v: "sint v = sint (nl l ! i) - dir f" "0 < sint (nl l ! i) * dir f"
    using assms(2) sign_unstep [of "nl l ! i" f] by (simp_all add: v_def c group_cnt_first [OF g f])
  have "\<not> (v \<noteq> 0 \<and> sign v \<noteq> sint ?lv)"
  proof -
    have "v = 0 \<longleftrightarrow> sint v = 0" by (simp add: sint32_eq_0)
    then show ?thesis using v by (cases f) (auto simp: sign_def)
  qed
  then have "bch2_bucket_nocow_unlock t (u64_to_bucket d) f = Some (v = 0, t[h := l\<lparr>nl := (nl l)[i := v]\<rparr>])"
    using f by (simp add: bch2_bucket_nocow_unlock_def Let_def h_def [symmetric] l_def [symmetric] v_def)
  moreover have "group_cnt (l\<lparr>nl := (nl l)[i := v]\<rparr>) = (group_cnt (t ! h))(d := nocow_cnt t d - dir f)"
    using group_cnt_update [OF len i(1), of v "- dir f" d, unfolded n] v(1) i(2) by (simp add: c l_def)
  moreover have "group_inv (l\<lparr>nl := (nl l)[i := v]\<rparr>)"
    using group_inv_update [OF g i(1), of d v, unfolded n] i by simp
  ultimately show ?thesis using nocow_cnt_group [OF assms(1) h_def] by blast
qed

interpretation nocow: two_state nocow_inv nocow_cnt
  "\<lambda>d f t. bch2_bucket_nocow_trylock t (u64_to_bucket d) f"
  "\<lambda>d f t. map_option snd (bch2_bucket_nocow_unlock t (u64_to_bucket d) f)" True 0
proof (unfold_locales, goal_cases)
  case (1 t d f t')
  obtain l where "bucket_nocow_trylock_raw (t ! bucket_nocow_lock d) d f = (True, l)" "t' = t[bucket_nocow_lock d := l]"
    using 1(3) by (auto simp: bch2_bucket_nocow_trylock_def Let_def split: prod.splits)
  then show ?case using group_try [OF group_at [OF 1(1), of d], of d f True l] nocow_cnt_group [OF 1(1) refl, of l d]
    by (simp add: nocow_cnt_def)
next
  case (2 t d f t')
  obtain l where "bucket_nocow_trylock_raw (t ! bucket_nocow_lock d) d f = (False, l)" "t' = t[bucket_nocow_lock d := l]"
    using 2(2) by (auto simp: bch2_bucket_nocow_trylock_def Let_def split: prod.splits)
  then show ?case
    using group_try [OF group_at [OF 2(1), of d], of d f False l] nocow_cnt_group [OF 2(1) refl, of l d "nocow_cnt t d"]
    by (simp add: nocow_cnt_def fun_upd_idem)
next
  case (3 t d f)
  then show ?case using nocow_unlock [of t d f] by auto
qed

section \<open>What holds for its users\<close>

lemma nocow_is_locked:
  assumes "nocow_inv t"
  shows "bch2_bucket_nocow_is_locked t (u64_to_bucket d) \<longleftrightarrow> nocow_cnt t d \<noteq> 0"
proof -
  let ?l = "t ! bucket_nocow_lock d"
  have g: "group_inv ?l" using assms by (rule group_at)
  show ?thesis
  proof (cases "first_entry (\<lambda>i. nb ?l ! i = d)")
    case None
    then show ?thesis
      by (auto simp: bch2_bucket_nocow_is_locked_def nocow_cnt_def group_cnt_absent Let_def first_entry_None)
  next
    case (Some i)
    then have i: "i < 4" "nb ?l ! i = d" "\<And>j. j < i \<Longrightarrow> nb ?l ! j \<noteq> d" by (auto simp: first_entry_Some)
    have "nl ?l ! j = 0" if "j < 4" "nb ?l ! j = d" "j \<noteq> i" for j
      using that i g unfolding group_inv_def by (metis linorder_neqE_nat)
    then have "(\<exists>j<4. nb ?l ! j = d \<and> nl ?l ! j \<noteq> 0) \<longleftrightarrow> nl ?l ! i \<noteq> 0" using i by blast
    then show ?thesis
      using group_cnt_first [OF g Some]
      by (simp add: bch2_bucket_nocow_is_locked_def nocow_cnt_def Let_def first_entry_None sint32_eq_0)
  qed
qed

lemma nocow_init_held: "nocow.held nocow_locking_init_early (\<lambda>_ _. 0)"
proof -
  let ?l = "\<lparr>nb = replicate 4 0, nl = replicate 4 0\<rparr> :: nocow_lock_bucket"
  have "group_inv ?l" "group_cnt ?l d = 0" for d by (auto simp: group_inv_def group_cnt_def intro!: sum.neutral)
  then show ?thesis
    using bucket_nocow_lock_less
    by (simp add: nocow.held_def nocow_inv_def nocow_cnt_def nocow_locking_init_early_def exclusive_def)
qed

text \<open>C15: from the empty table no sequence of trylocks, and of unlocks of what is held, reaches a
  \<open>BUG()\<close>; a bucket is never held for update and for copy at once; and
  \<open>bch2_bucket_nocow_is_locked\<close> tells exactly whether it is held.\<close>

theorem nocow_locks_exclusive:
  "\<exists>t h. ts_run (\<lambda>d f t. bch2_bucket_nocow_trylock t (u64_to_bucket d) f)
      (\<lambda>d f t. map_option snd (bch2_bucket_nocow_unlock t (u64_to_bucket d) f))
      ops nocow_locking_init_early (\<lambda>_ _. 0) = Some (t, h) \<and>
    (\<forall>d. (h d True = 0 \<or> h d False = 0) \<and>
      (bch2_bucket_nocow_is_locked t (u64_to_bucket d) \<longleftrightarrow> 0 < h d True + h d False))"
proof -
  obtain t h where r: "ts_run (\<lambda>d f t. bch2_bucket_nocow_trylock t (u64_to_bucket d) f)
      (\<lambda>d f t. map_option snd (bch2_bucket_nocow_unlock t (u64_to_bucket d) f))
      ops nocow_locking_init_early (\<lambda>_ _. 0) = Some (t, h)" "nocow.held t h"
    using nocow.run_held [OF nocow_init_held, of ops] by auto
  have "(h d True = 0 \<or> h d False = 0) \<and>
      (bch2_bucket_nocow_is_locked t (u64_to_bucket d) \<longleftrightarrow> 0 < h d True + h d False)" for d
    using nocow.heldD(1) [OF r(2)] nocow.heldD(2,3) [OF r(2), of d] nocow_is_locked [of t d] by auto
  then show ?thesis using r(1) by blast
qed

text \<open>C33: a trylock fails only for a reason: the bucket is held in the other state, its count is at
  the end of the range of \<open>int\<close>, or the four entries of its group are held for other buckets.\<close>

theorem nocow_trylock_fails_iff:
  assumes "nocow_inv t"
  shows "fst (bch2_bucket_nocow_trylock t (u64_to_bucket d) f) \<longleftrightarrow>
    0 \<le> nocow_cnt t d * dir f \<and> nocow_cnt t d \<noteq> (if f then 2 ^ 31 - 1 else - (2 ^ 31)) \<and>
    \<not> (\<forall>i<4. nb (t ! bucket_nocow_lock d) ! i \<noteq> d \<and> nl (t ! bucket_nocow_lock d) ! i \<noteq> 0)"
proof -
  let ?l = "t ! bucket_nocow_lock d"
  have g: "group_inv ?l" using assms by (rule group_at)
  have e: "fst (bch2_bucket_nocow_trylock t (u64_to_bucket d) f) = fst (bucket_nocow_trylock_raw ?l d f)"
    by (simp add: bch2_bucket_nocow_trylock_def Let_def split: prod.splits)
  show ?thesis
  proof (cases "first_entry (\<lambda>i. nb ?l ! i = d)")
    case (Some i)
    have i: "i < 4" "nb ?l ! i = d" using Some by (auto simp: first_entry_Some)
    define v where "v = nl ?l ! i"
    have c: "nocow_cnt t d = sint v" using group_cnt_first [OF g Some] by (simp add: nocow_cnt_def v_def)
    have r: "- (2 ^ 31) \<le> sint v" "sint v < 2 ^ 31" using sint_range_size [of v] by (simp_all add: word_size)
    have "fst (bucket_nocow_trylock_raw ?l d f) \<longleftrightarrow> 0 \<le> sint v * dir f \<and> sint v \<noteq> (if f then 2 ^ 31 - 1 else - (2 ^ 31))"
      using Some nocow_step_sign [of v f] by (cases f) (auto simp: bucket_nocow_trylock_raw_def nocow_take_lock_def Let_def v_def)
    then show ?thesis using e c i by auto
  next
    case None
    note z = group_cnt_absent [OF None]
    show ?thesis
      using e z None by (cases "first_entry (\<lambda>i. nl ?l ! i = 0)")
        (auto simp: nocow_cnt_def bucket_nocow_trylock_raw_def nocow_take_lock_def Let_def first_entry_None first_entry_Some)
  qed
qed

theorem nocow_trylock_fails_iff_witness:
  "nocow_inv nocow_locking_init_early \<and> fst (bch2_bucket_nocow_trylock nocow_locking_init_early (u64_to_bucket 7) True)"
proof -
  have i: "nocow_inv nocow_locking_init_early" using nocow.heldD(1) [OF nocow_init_held] .
  have "nocow_cnt nocow_locking_init_early 7 = 0" using nocow.heldD(2) [OF nocow_init_held, of 7] by simp
  moreover have "nl (nocow_locking_init_early ! bucket_nocow_lock 7) ! 0 = 0"
    using bucket_nocow_lock_less [of 7] by (simp add: nocow_locking_init_early_def)
  ultimately show ?thesis using nocow_trylock_fails_iff [OF i, of 7 True] i by force
qed

end
