(* ===== verification/Fifo.thy ===== *)
theory Fifo
  imports Bch_Prelude "HOL-Library.Monad_Syntax"
begin

unbundle bit_operations_syntax

text \<open>
  The ring buffers of \<^verbatim>\<open>libbcachefs/fifo.h\<close>: two free-running 64 bit counters, a capacity and
  a mask. The counters wrap; an index is a counter masked. The macros are the operations of a
  bounded double-ended queue, which the locale \<open>bounded_deque\<close> states and the interpretation
  at the end proves of them.
\<close>

section \<open>The ring buffer\<close>

record 'a fifo =
  ffront :: u64
  fback :: u64
  fsize :: u64
  fmask :: u64
  fdata :: "'a list"

definition roundup_pow_of_two :: "u64 \<Rightarrow> u64" where
  "roundup_pow_of_two n = push_bit (fls64 (n - 1)) 1"

text \<open>The number of elements the buffer is allocated for.\<close>

definition fifo_buf_size :: "'a fifo \<Rightarrow> u64" where
  "fifo_buf_size f = (if fsize f \<noteq> 0 then roundup_pow_of_two (fsize f) else 0)"

text \<open>\<open>alloc\<close> is the allocator: the contents of fresh memory, or \<open>None\<close>.\<close>

definition init_fifo :: "(nat \<Rightarrow> 'a list option) \<Rightarrow> u64 \<Rightarrow> 'a fifo option" where
  "init_fifo alloc sz =
     (let f = \<lparr>ffront = 0, fback = 0, fsize = sz,
               fmask = (if sz \<noteq> 0 then roundup_pow_of_two sz - 1 else 0), fdata = []\<rparr>
      in map_option (\<lambda>m. f\<lparr>fdata := m\<rparr>) (alloc (unat (fifo_buf_size f))))"

definition fifo_used :: "'a fifo \<Rightarrow> u64" where
  "fifo_used f = fback f - ffront f"

definition fifo_free :: "'a fifo \<Rightarrow> u64" where
  "fifo_free f = fsize f - fifo_used f"

definition fifo_empty :: "'a fifo \<Rightarrow> bool" where
  "fifo_empty f \<longleftrightarrow> ffront f = fback f"

definition fifo_full :: "'a fifo \<Rightarrow> bool" where
  "fifo_full f \<longleftrightarrow> fifo_used f = fsize f"

definition slot :: "'a fifo \<Rightarrow> u64 \<Rightarrow> nat" where
  "slot f i = unat (i AND fmask f)"

definition fifo_peek_front :: "'a fifo \<Rightarrow> 'a" where
  "fifo_peek_front f = fdata f ! slot f (ffront f)"

definition fifo_peek_back :: "'a fifo \<Rightarrow> 'a" where
  "fifo_peek_back f = fdata f ! slot f (fback f - 1)"

definition fifo_idx_entry :: "'a fifo \<Rightarrow> u64 \<Rightarrow> 'a" where
  "fifo_idx_entry f i = fdata f ! slot f (ffront f + i)"

text \<open>\<open>p\<close> is the pointer, as an offset from \<^verbatim>\<open>data\<close>.\<close>

definition fifo_entry_idx :: "'a fifo \<Rightarrow> u64 \<Rightarrow> u64" where
  "fifo_entry_idx f p = (p - of_nat (slot f (ffront f))) AND fmask f"

definition fifo_entry_idx_abs :: "'a fifo \<Rightarrow> u64 \<Rightarrow> u64" where
  "fifo_entry_idx_abs f p =
     ((if unat p \<ge> slot f (ffront f) then ffront f else fback f) AND NOT (fmask f)) + p"

definition fifo_push_back :: "'a fifo \<Rightarrow> 'a \<Rightarrow> bool \<times> 'a fifo" where
  "fifo_push_back f x =
     (if fifo_full f then (False, f)
      else (True, f\<lparr>fdata := (fdata f)[slot f (fback f) := x], fback := fback f + 1\<rparr>))"

definition fifo_push_front :: "'a fifo \<Rightarrow> 'a \<Rightarrow> bool \<times> 'a fifo" where
  "fifo_push_front f x =
     (if fifo_full f then (False, f)
      else let i = ffront f - 1 in (True, f\<lparr>ffront := i, fdata := (fdata f)[slot f i := x]\<rparr>))"

definition fifo_pop_front :: "'a fifo \<Rightarrow> 'a option \<times> 'a fifo" where
  "fifo_pop_front f =
     (if fifo_empty f then (None, f)
      else (Some (fdata f ! slot f (ffront f)), f\<lparr>ffront := ffront f + 1\<rparr>))"

definition fifo_pop_back :: "'a fifo \<Rightarrow> 'a option \<times> 'a fifo" where
  "fifo_pop_back f =
     (if fifo_empty f then (None, f)
      else let i = fback f - 1 in (Some (fdata f ! slot f i), f\<lparr>fback := i\<rparr>))"

partial_function (option) fifo_move :: "'a fifo \<Rightarrow> 'a fifo \<Rightarrow> ('a fifo \<times> 'a fifo) option" where
  "fifo_move dest src =
     (if fifo_full dest then Some (dest, src)
      else case fifo_pop_front src of
             (None, src) \<Rightarrow> Some (dest, src)
           | (Some t, src) \<Rightarrow> fifo_move (snd (fifo_push_back dest t)) src)"

partial_function (option) fifo_for_each :: "'a fifo \<Rightarrow> u64 \<Rightarrow> 'a list option" where
  "fifo_for_each f iter =
     (if iter \<noteq> fback f
      then do { rest \<leftarrow> fifo_for_each f (iter + 1); Some (fdata f ! slot f iter # rest) }
      else Some [])"

section \<open>Bounded deques\<close>

text \<open>
  The contract: an abstraction to lists that is kept within a capacity, and what each operation
  does to it. Moving between two queues is derived.
\<close>

locale bounded_deque =
  fixes inv :: "'q \<Rightarrow> bool" and abs :: "'q \<Rightarrow> 'a list" and cap :: "'q \<Rightarrow> nat"
    and push_back push_front :: "'q \<Rightarrow> 'a \<Rightarrow> bool \<times> 'q" and pop_front pop_back :: "'q \<Rightarrow> 'a option \<times> 'q"
  assumes bounded: "inv q \<Longrightarrow> length (abs q) \<le> cap q"
    and push_back_full: "inv q \<Longrightarrow> length (abs q) = cap q \<Longrightarrow> push_back q x = (False, q)"
    and push_back_ok: "inv q \<Longrightarrow> length (abs q) < cap q \<Longrightarrow>
      \<exists>q'. push_back q x = (True, q') \<and> inv q' \<and> cap q' = cap q \<and> abs q' = abs q @ [x]"
    and push_front_full: "inv q \<Longrightarrow> length (abs q) = cap q \<Longrightarrow> push_front q x = (False, q)"
    and push_front_ok: "inv q \<Longrightarrow> length (abs q) < cap q \<Longrightarrow>
      \<exists>q'. push_front q x = (True, q') \<and> inv q' \<and> cap q' = cap q \<and> abs q' = x # abs q"
    and pop_front_empty: "inv q \<Longrightarrow> abs q = [] \<Longrightarrow> pop_front q = (None, q)"
    and pop_front_ok: "inv q \<Longrightarrow> abs q = x # xs \<Longrightarrow>
      \<exists>q'. pop_front q = (Some x, q') \<and> inv q' \<and> cap q' = cap q \<and> abs q' = xs"
    and pop_back_empty: "inv q \<Longrightarrow> abs q = [] \<Longrightarrow> pop_back q = (None, q)"
    and pop_back_ok: "inv q \<Longrightarrow> abs q = xs @ [x] \<Longrightarrow>
      \<exists>q'. pop_back q = (Some x, q') \<and> inv q' \<and> cap q' = cap q \<and> abs q' = xs"
begin

lemma fifo_order:
  assumes "inv q" "length (abs q) < cap q"
  shows "\<exists>q' x q''. push_back q y = (True, q') \<and> pop_front q' = (Some x, q'') \<and> abs q @ [y] = x # abs q''"
proof -
  obtain q' where q': "push_back q y = (True, q')" "inv q'" "abs q' = abs q @ [y]"
    using push_back_ok [OF assms] by blast
  obtain x xs where xs: "abs q @ [y] = x # xs" by (cases "abs q @ [y]") auto
  then obtain q'' where "pop_front q' = (Some x, q'')" "abs q'' = xs"
    using pop_front_ok [OF q'(2), of x xs] q'(3) by auto
  then show ?thesis using q' xs by auto
qed

lemma lifo_order:
  assumes "inv q" "length (abs q) < cap q"
  shows "\<exists>q' q''. push_back q y = (True, q') \<and> pop_back q' = (Some y, q'') \<and> abs q'' = abs q"
proof -
  obtain q' where q': "push_back q y = (True, q')" "inv q'" "abs q' = abs q @ [y]"
    using push_back_ok [OF assms] by blast
  then obtain q'' where "pop_back q' = (Some y, q'')" "abs q'' = abs q" using pop_back_ok [of q' "abs q" y] by auto
  then show ?thesis using q' by auto
qed

end

section \<open>The abstraction\<close>

definition fifo_list :: "'a fifo \<Rightarrow> 'a list" where
  "fifo_list f = map (\<lambda>i. fdata f ! slot f (ffront f + of_nat i)) [0..<unat (fifo_used f)]"

text \<open>\<open>k\<close> is the number of index bits.\<close>

definition fifo_inv_at :: "nat \<Rightarrow> 'a fifo \<Rightarrow> bool" where
  "fifo_inv_at k f \<longleftrightarrow> k < 64 \<and> fmask f = mask k \<and> length (fdata f) = 2 ^ k \<and> unat (fsize f) \<le> 2 ^ k \<and>
    unat (fifo_used f) \<le> unat (fsize f)"

definition fifo_inv :: "'a fifo \<Rightarrow> bool" where
  "fifo_inv f \<longleftrightarrow> (\<exists>k. fifo_inv_at k f) \<or> fsize f = 0 \<and> fifo_used f = 0"

lemma length_fifo_list: "length (fifo_list f) = unat (fifo_used f)"
  by (simp add: fifo_list_def)

lemma slot_eq:
  assumes "fmask f = mask k" "k < 64"
  shows "slot f (a + of_nat i) = (unat a + i) mod 2 ^ k"
proof -
  have "slot f (a + of_nat i) = unat (a + of_nat i) mod 2 ^ k"
    unfolding slot_def assms(1) by (rule unat_and_mask)
  also have "unat (a + of_nat i) = (unat a + i) mod 2 ^ 64"
    by (simp add: unat_word_ariths unat_of_nat mod_simps)
  also have "(unat a + i) mod 2 ^ 64 mod 2 ^ k = (unat a + i) mod 2 ^ k"
    using assms(2) by (intro mod_mod_cancel le_imp_power_dvd) simp
  finally show ?thesis .
qed

lemma mod_add_inj:
  assumes "(a + i) mod m = (a + j) mod m" "i < m" "j < m"
  shows "i = (j::nat)"
proof -
  have "i = j" if "i \<le> j" "(a + i) mod m = (a + j) mod m" "j < m" for i j
  proof -
    have "m dvd (a + j) - (a + i)" using that mod_eq_dvd_iff_nat [of "a + i" "a + j" m] by simp
    then show ?thesis using that by (auto dest: dvd_imp_le)
  qed
  then show ?thesis using assms by (metis nat_le_linear)
qed

lemma slot_inj:
  assumes "fifo_inv_at k f" "slot f (a + of_nat i) = slot f (a + of_nat j)" "i < 2 ^ k" "j < 2 ^ k"
  shows "i = j"
  using assms slot_eq [of f k a] by (auto simp: fifo_inv_at_def intro: mod_add_inj)

lemma slot_less: "fifo_inv_at k f \<Longrightarrow> slot f a < length (fdata f)"
  using slot_eq [of f k a 0] by (simp add: fifo_inv_at_def)

lemma slot_upd [simp]:
  "slot (f\<lparr>fdata := d\<rparr>) = slot f" "slot (f\<lparr>fback := b\<rparr>) = slot f" "slot (f\<lparr>ffront := b\<rparr>) = slot f"
  by (simp_all add: slot_def fun_eq_iff)

lemma fback_eq: "fback f = ffront f + of_nat (unat (fifo_used f))"
  by (simp add: fifo_used_def)

lemma used_Suc: "unat (fifo_used f) < unat (fsize f) \<Longrightarrow> unat (fifo_used f + 1) = Suc (unat (fifo_used f))"
proof -
  assume "unat (fifo_used f) < unat (fsize f)"
  then have "fifo_used f \<noteq> - 1" using unat_less [of "fsize f"] by (auto simp: unat_minus_1_nat)
  then show ?thesis by (simp add: unat_plus_1_eq word_plus_1_eq_0)
qed

lemma fifo_full_iff: "fifo_full f \<longleftrightarrow> length (fifo_list f) = unat (fsize f)"
  by (simp add: fifo_full_def length_fifo_list word_unat_eq_iff)

lemma fifo_empty_iff: "fifo_empty f \<longleftrightarrow> fifo_list f = []"
  using length_fifo_list [of f] by (auto simp: fifo_empty_def fifo_used_def unat_eq_zero simp flip: length_0_conv)

lemma push_back_list:
  fixes x :: 'a
  assumes inv: "fifo_inv_at k f" and room: "unat (fifo_used f) < unat (fsize f)"
  defines "g \<equiv> f\<lparr>fdata := (fdata f)[slot f (fback f) := x], fback := fback f + 1\<rparr>"
  shows "fifo_inv_at k g" "fifo_list g = fifo_list f @ [x]"
proof -
  let ?u = "unat (fifo_used f)"
  have u: "fifo_used g = fifo_used f + 1" by (simp add: g_def fifo_used_def)
  have u': "unat (fifo_used g) = Suc ?u" unfolding u using room by (rule used_Suc)
  have lt: "?u < 2 ^ k" using inv room by (simp add: fifo_inv_at_def)
  show "fifo_inv_at k g" using inv room u' by (simp add: fifo_inv_at_def) (simp add: g_def)
  have "fdata g ! slot g (ffront g + of_nat i) = fdata f ! slot f (ffront f + of_nat i)" if "i < ?u" for i
    using that lt slot_inj [OF inv, of "ffront f" i ?u, folded fback_eq]
    by (auto simp: g_def intro!: nth_list_update_neq)
  moreover have "fdata g ! slot g (ffront g + of_nat ?u) = x"
    using slot_less [OF inv] fback_eq [of f] by (simp add: g_def)
  ultimately show "fifo_list g = fifo_list f @ [x]" by (simp add: fifo_list_def u')
qed

lemma push_front_list:
  fixes x :: 'a
  assumes inv: "fifo_inv_at k f" and room: "unat (fifo_used f) < unat (fsize f)"
  defines "g \<equiv> f\<lparr>ffront := ffront f - 1, fdata := (fdata f)[slot f (ffront f - 1) := x]\<rparr>"
  shows "fifo_inv_at k g" "fifo_list g = x # fifo_list f"
proof -
  let ?u = "unat (fifo_used f)"
  have u: "fifo_used g = fifo_used f + 1" by (simp add: g_def fifo_used_def)
  have u': "unat (fifo_used g) = Suc ?u" unfolding u using room by (rule used_Suc)
  have lt: "?u < 2 ^ k" using inv room by (simp add: fifo_inv_at_def)
  show "fifo_inv_at k g" using inv room u' by (simp add: fifo_inv_at_def) (simp add: g_def)
  have "fdata g ! slot g (ffront g + of_nat (Suc i)) = fdata f ! slot f (ffront f + of_nat i)" if "i < ?u" for i
    using that lt slot_inj [OF inv, of "ffront f - 1" "Suc i" 0] by (auto simp: g_def intro!: nth_list_update_neq)
  moreover have "fdata g ! slot g (ffront g + of_nat 0) = x"
    using slot_less [OF inv] by (simp add: g_def)
  ultimately show "fifo_list g = x # fifo_list f"
    by (simp add: fifo_list_def u' upt_conv_Cons map_Suc_upt [symmetric] del: upt_Suc)
qed

lemma pop_front_list:
  assumes inv: "fifo_inv_at k f" and l: "fifo_list f = x # xs"
  shows "fdata f ! slot f (ffront f) = x" "fifo_inv_at k (f\<lparr>ffront := ffront f + 1\<rparr>)"
    "fifo_list (f\<lparr>ffront := ffront f + 1\<rparr>) = xs"
proof -
  let ?g = "f\<lparr>ffront := ffront f + 1\<rparr>"
  have u: "unat (fifo_used f) = Suc (length xs)" using length_fifo_list [of f] l by simp
  have "fifo_used ?g = fifo_used f - 1" by (simp add: fifo_used_def)
  then have u': "unat (fifo_used ?g) = length xs" using u unat_minus_one [of "fifo_used f"] by (cases "fifo_used f = 0") simp_all
  have "fifo_list f = fdata f ! slot f (ffront f + of_nat 0) # fifo_list ?g"
    by (simp add: fifo_list_def u u' upt_conv_Cons map_Suc_upt [symmetric] add.assoc del: upt_Suc)
  then show "fdata f ! slot f (ffront f) = x" "fifo_list ?g = xs" using l by simp_all
  show "fifo_inv_at k ?g" using inv u u' by (simp add: fifo_inv_at_def)
qed

lemma pop_back_list:
  assumes inv: "fifo_inv_at k f" and l: "fifo_list f = xs @ [x]"
  shows "fdata f ! slot f (fback f - 1) = x" "fifo_inv_at k (f\<lparr>fback := fback f - 1\<rparr>)"
    "fifo_list (f\<lparr>fback := fback f - 1\<rparr>) = xs"
proof -
  let ?g = "f\<lparr>fback := fback f - 1\<rparr>"
  have u: "unat (fifo_used f) = Suc (length xs)" using length_fifo_list [of f] l by simp
  have "fifo_used ?g = fifo_used f - 1" by (simp add: fifo_used_def)
  then have u': "unat (fifo_used ?g) = length xs" using u unat_minus_one [of "fifo_used f"] by (cases "fifo_used f = 0") simp_all
  have b: "ffront f + of_nat (length xs) = fback f - 1" using fback_eq [of f] u by simp
  have "fifo_list f = fifo_list ?g @ [fdata f ! slot f (ffront f + of_nat (length xs))]"
    by (simp add: fifo_list_def u u')
  then have "fifo_list f = fifo_list ?g @ [fdata f ! slot f (fback f - 1)]" by (simp only: b)
  then show "fdata f ! slot f (fback f - 1) = x" "fifo_list ?g = xs" using l by simp_all
  show "fifo_inv_at k ?g" using inv u u' by (simp add: fifo_inv_at_def)
qed

lemma fifo_inv_nonzero: "fifo_inv f \<Longrightarrow> fifo_list f \<noteq> [] \<or> fsize f \<noteq> 0 \<Longrightarrow> \<exists>k. fifo_inv_at k f"
  using length_fifo_list [of f] by (auto simp: fifo_inv_def)

interpretation ring: bounded_deque fifo_inv fifo_list "\<lambda>f. unat (fsize f)"
  fifo_push_back fifo_push_front fifo_pop_front fifo_pop_back
proof unfold_locales
  fix q :: "'a fifo" and x and xs
  assume inv: "fifo_inv q"
  then show "length (fifo_list q) \<le> unat (fsize q)" by (auto simp: fifo_inv_def fifo_inv_at_def length_fifo_list)
  show "fifo_push_back q x = (False, q)" "fifo_push_front q x = (False, q)" if "length (fifo_list q) = unat (fsize q)"
    using that by (simp_all add: fifo_push_back_def fifo_push_front_def fifo_full_iff)
  show "fifo_pop_front q = (None, q)" "fifo_pop_back q = (None, q)" if "fifo_list q = []"
    using that by (simp_all add: fifo_pop_front_def fifo_pop_back_def fifo_empty_iff)
  show "\<exists>q'. fifo_push_back q x = (True, q') \<and> fifo_inv q' \<and> unat (fsize q') = unat (fsize q) \<and> fifo_list q' = fifo_list q @ [x]"
    if room: "length (fifo_list q) < unat (fsize q)"
  proof -
    obtain k where k: "fifo_inv_at k q" using fifo_inv_nonzero [OF inv] room by (metis not_less_zero unat_0)
    from push_back_list [OF k, of x] room show ?thesis
      by (auto simp: fifo_push_back_def fifo_full_iff length_fifo_list fifo_inv_def)
  qed
  show "\<exists>q'. fifo_push_front q x = (True, q') \<and> fifo_inv q' \<and> unat (fsize q') = unat (fsize q) \<and> fifo_list q' = x # fifo_list q"
    if room: "length (fifo_list q) < unat (fsize q)"
  proof -
    obtain k where k: "fifo_inv_at k q" using fifo_inv_nonzero [OF inv] room by (metis not_less_zero unat_0)
    from push_front_list [OF k, of x] room show ?thesis
      by (auto simp: fifo_push_front_def fifo_full_iff length_fifo_list fifo_inv_def Let_def)
  qed
  show "\<exists>q'. fifo_pop_front q = (Some x, q') \<and> fifo_inv q' \<and> unat (fsize q') = unat (fsize q) \<and> fifo_list q' = xs"
    if l: "fifo_list q = x # xs"
  proof -
    obtain k where k: "fifo_inv_at k q" using fifo_inv_nonzero [OF inv] l by auto
    from pop_front_list [OF k l] l show ?thesis
      by (auto simp: fifo_pop_front_def fifo_empty_iff fifo_inv_def)
  qed
  show "\<exists>q'. fifo_pop_back q = (Some x, q') \<and> fifo_inv q' \<and> unat (fsize q') = unat (fsize q) \<and> fifo_list q' = xs"
    if l: "fifo_list q = xs @ [x]"
  proof -
    obtain k where k: "fifo_inv_at k q" using fifo_inv_nonzero [OF inv] l by auto
    from pop_back_list [OF k l] l show ?thesis
      by (auto simp: fifo_pop_back_def fifo_empty_iff fifo_inv_def Let_def)
  qed
qed

section \<open>The contract\<close>

lemma init_fifo_inv:
  assumes "init_fifo alloc sz = Some f" "\<And>n m. alloc n = Some m \<Longrightarrow> length m = n" "unat sz \<le> 2 ^ 63"
  shows "fifo_inv f" "fifo_list f = []"
proof -
  have f: "ffront f = 0" "fback f = 0" "fsize f = sz" "fmask f = (if sz \<noteq> 0 then roundup_pow_of_two sz - 1 else 0)"
      "length (fdata f) = unat (if sz \<noteq> 0 then roundup_pow_of_two sz else 0)"
    using assms(1) by (auto simp: init_fifo_def Let_def fifo_buf_size_def dest: assms(2))
  then have u: "fifo_used f = 0" by (simp add: fifo_used_def)
  then show "fifo_list f = []" by (simp add: fifo_list_def)
  show "fifo_inv f"
  proof (cases "sz = 0")
    case True
    then show ?thesis using f u by (simp add: fifo_inv_def)
  next
    case False
    define k where "k = fls64 (sz - 1)"
    have s1: "unat (sz - 1) = unat sz - 1" using False by (simp add: unat_minus_one)
    have "0 < unat sz" using False by (simp add: unat_gt_0)
    then have "unat (sz - 1) < 2 ^ 63" using s1 assms(3) by linarith
    then have "k \<le> 63" unfolding k_def fls64_le_iff .
    then have k: "k < 64" by simp
    have "unat (sz - 1) < 2 ^ k" using fls64_le_iff [of "sz - 1" k] by (simp add: k_def)
    then have "unat sz \<le> 2 ^ k" using s1 \<open>0 < unat sz\<close> by linarith
    moreover have "unat (push_bit k 1 :: u64) = 2 ^ k"
      using k power_strict_increasing [of k 64 "2::nat"] by (subst unat_push_bit_less) simp_all
    moreover have "push_bit k 1 - 1 = (mask k :: u64)" by (simp add: mask_eq_exp_minus_1 push_bit_of_1)
    ultimately have "fifo_inv_at k f" using f u k False
      by (simp only: fifo_inv_at_def roundup_pow_of_two_def k_def [symmetric] if_True unat_0 not_False_eq_True) simp
    then show ?thesis by (auto simp: fifo_inv_def)
  qed
qed



lemma move_lists:
  assumes "fifo_inv d" "fifo_inv s"
  shows "\<exists>d' s'. fifo_move d s = Some (d', s') \<and> fifo_inv d' \<and> fifo_inv s' \<and>
    fifo_list d' = fifo_list d @ take (unat (fsize d) - length (fifo_list d)) (fifo_list s) \<and>
    fifo_list s' = drop (unat (fsize d) - length (fifo_list d)) (fifo_list s)"
  using assms
proof (induction "fifo_list s" arbitrary: d s)
  case Nil
  then show ?case
    using ring.pop_front_empty [of s] by (subst fifo_move.simps) auto
next
  case (Cons x xs)
  show ?case
  proof (cases "length (fifo_list d) = unat (fsize d)")
    case True
    then show ?thesis using Cons by (subst fifo_move.simps) (simp add: fifo_full_iff)
  next
    case False
    then have lt: "length (fifo_list d) < unat (fsize d)" using ring.bounded [OF Cons.prems(1)] by simp
    obtain s1 where s1: "fifo_pop_front s = (Some x, s1)" "fifo_inv s1" "fifo_list s1 = xs"
      using ring.pop_front_ok [OF Cons.prems(2)] Cons.hyps(2) by metis
    obtain d1 where d1: "fifo_push_back d x = (True, d1)" "fifo_inv d1" "unat (fsize d1) = unat (fsize d)"
        "fifo_list d1 = fifo_list d @ [x]"
      using ring.push_back_ok [OF Cons.prems(1) lt, of x] by blast
    have step: "fifo_move d s = fifo_move d1 s1" using False s1(1) d1(1) by (subst fifo_move.simps) (simp add: fifo_full_iff)
    have n: "unat (fsize d) - length (fifo_list d) = Suc (unat (fsize d) - Suc (length (fifo_list d)))" using lt by simp
    show ?thesis
      using Cons.hyps(1) [OF s1(3) [symmetric] d1(2) s1(2)] d1(3,4) s1(3) Cons.hyps(2) [symmetric]
      unfolding step n by simp
  qed
qed

lemma for_each_list:
  "j \<le> unat (fifo_used f) \<Longrightarrow> fifo_for_each f (ffront f + of_nat j) = Some (drop j (fifo_list f))"
proof (induction "unat (fifo_used f) - j" arbitrary: j)
  case 0
  then have "j = unat (fifo_used f)" by simp
  then have "ffront f + of_nat j = fback f" using fback_eq [of f] by (simp only:)
  then show ?case using 0 length_fifo_list [of f] by (subst fifo_for_each.simps) simp
next
  case (Suc n)
  then have j: "j < unat (fifo_used f)" by simp
  have "ffront f + of_nat j \<noteq> fback f"
  proof
    assume "ffront f + of_nat j = fback f"
    then have "fifo_used f = of_nat j" by (simp add: fifo_used_def algebra_simps)
    moreover have "j < 2 ^ 64" using j unat_less [of "fifo_used f"] by simp
    ultimately show False using j by (simp add: unat_of_nat)
  qed
  moreover have "fifo_for_each f (ffront f + of_nat j + 1) = Some (drop (Suc j) (fifo_list f))"
    using Suc.hyps(1) [of "Suc j"] Suc.hyps(2) j by (simp add: add.assoc add.commute [of 1])
  moreover have "drop j (fifo_list f) = fdata f ! slot f (ffront f + of_nat j) # drop (Suc j) (fifo_list f)"
    using j by (subst Cons_nth_drop_Suc [symmetric]) (simp_all add: fifo_list_def)
  ultimately show ?case by (subst fifo_for_each.simps) simp
qed

text \<open>
  C30. Iterating a fifo visits its elements in order and ends. \<open>fifo_move\<close> ends; it moves as many
  elements as fit from the front of the source to the back of the destination, in order, and
  loses none.
\<close>

theorem fifo_move_correct:
  assumes "fifo_inv d" "fifo_inv s"
  defines "n \<equiv> unat (fsize d) - length (fifo_list d)"
  shows "fifo_for_each s (ffront s) = Some (fifo_list s) \<and>
    (\<exists>d' s'. fifo_move d s = Some (d', s') \<and> fifo_inv d' \<and> fifo_inv s' \<and>
      fifo_list d' = fifo_list d @ take n (fifo_list s) \<and> fifo_list s' = drop n (fifo_list s))"
  using move_lists [OF assms(1,2)] for_each_list [of 0 s] by (simp add: n_def)

theorem fifo_move_correct_witness:
  "\<exists>d' s'. fifo_move \<lparr>ffront = - 1, fback = 0, fsize = 2, fmask = 1, fdata = [0, 1 :: nat]\<rparr>
      \<lparr>ffront = 0, fback = 2, fsize = 2, fmask = 1, fdata = [2, 3]\<rparr> = Some (d', s') \<and>
    fifo_list d' = [1, 2] \<and> fifo_list s' = [3]"
proof -
  let ?d = "\<lparr>ffront = - 1, fback = 0, fsize = 2, fmask = 1, fdata = [0, 1 :: nat]\<rparr>"
  let ?s = "\<lparr>ffront = 0, fback = 2, fsize = 2, fmask = 1, fdata = [2, 3 :: nat]\<rparr>"
  have "fifo_inv_at 1 ?d" "fifo_inv_at 1 ?s" by (simp_all add: fifo_inv_at_def fifo_used_def mask_eq_exp_minus_1)
  then have "fifo_inv ?d" "fifo_inv ?s" unfolding fifo_inv_def by blast+
  moreover have "fifo_list ?d = [1]" "fifo_list ?s = [2, 3]"
    by (simp_all add: fifo_list_def fifo_used_def slot_def upt_rec)
  ultimately show ?thesis using fifo_move_correct [of ?d ?s] by auto
qed

end
