(* ===== verification/Buckets_Waiting.thy ===== *)
theory Buckets_Waiting
  imports Fifo Bch_Hash
begin

unbundle bit_operations_syntax

text \<open>
  The table of buckets that must not be reused before a journal sequence number is flushed
  (\<^verbatim>\<open>libbcachefs/buckets_waiting_for_journal.c\<close>): a cuckoo hash table with three hash functions.
  An entry with a sequence number up to \<open>flushed_seq\<close> is a free slot.

  Parameters stand for code outside the repository: \<open>alloc n\<close> says whether \<^verbatim>\<open>kvmalloc\<close> has
  memory for \<open>2^n\<close> entries, and \<open>seeds\<close> are the results of \<^verbatim>\<open>get_random_bytes\<close>, three words for
  each attempt. Rehashing goes on until an attempt works out; \<open>Pending\<close> means that the given
  seeds were not enough, and \<open>BUG\<close> that an assertion failed.
\<close>

section \<open>The table\<close>

record bucket_hashed =
  dev_bucket :: u64
  journal_seq :: u64

record bw_table =
  tbits :: nat
  hash_seeds :: "u64 list"
  td :: "bucket_hashed list"

definition bucket_hash :: "bw_table \<Rightarrow> nat \<Rightarrow> u64 \<Rightarrow> nat" where
  "bucket_hash t hash_seed_idx d = unat (hash_64 (d XOR hash_seeds t ! hash_seed_idx) (tbits t))"

definition bucket_table_init :: "u64 list \<Rightarrow> nat \<Rightarrow> bw_table" where
  "bucket_table_init rnd bits = \<lparr>tbits = bits, hash_seeds = take 3 rnd, td = replicate (2 ^ bits) \<lparr>dev_bucket = 0, journal_seq = 0\<rparr>\<rparr>"

definition dev_bucket_of :: "u32 \<Rightarrow> u64 \<Rightarrow> u64" where
  "dev_bucket_of dev bucket = push_bit 56 (ucast dev) OR bucket"

definition bch2_bucket_journal_seq_ready :: "bw_table \<Rightarrow> u32 \<Rightarrow> u64 \<Rightarrow> u64" where
  "bch2_bucket_journal_seq_ready t dev bucket =
     (let d = dev_bucket_of dev bucket in
      case find (\<lambda>i. dev_bucket (td t ! bucket_hash t i d) = d) [0..<3] of
        Some i \<Rightarrow> journal_seq (td t ! bucket_hash t i d)
      | None \<Rightarrow> 0)"

text \<open>The inner loop of \<open>bucket_table_insert\<close>: the slot to write (\<open>Inl\<close>), or the victim (\<open>Inr\<close>).\<close>

fun insert_scan :: "bw_table \<Rightarrow> bucket_hashed \<Rightarrow> u64 \<Rightarrow> nat option \<Rightarrow> nat list \<Rightarrow> nat option \<Rightarrow> nat + nat option" where
  "insert_scan t new flushed_seq last_evicted [] victim = Inr victim"
| "insert_scan t new flushed_seq last_evicted (i # js) victim =
     (let old = bucket_hash t i (dev_bucket new) in
      if dev_bucket (td t ! old) = dev_bucket new \<or> journal_seq (td t ! old) \<le> flushed_seq then Inl old
      else insert_scan t new flushed_seq last_evicted js (if last_evicted \<noteq> Some old then Some old else victim))"

text \<open>The outer loop: whether the insert worked, the table, and the entry left over.\<close>

primrec insert_loop :: "nat \<Rightarrow> bw_table \<Rightarrow> bucket_hashed \<Rightarrow> u64 \<Rightarrow> nat option \<Rightarrow> bool \<times> bw_table \<times> bucket_hashed" where
  "insert_loop 0 t new flushed_seq last_evicted = (False, t, new)"
| "insert_loop (Suc tries) t new flushed_seq last_evicted =
     (case insert_scan t new flushed_seq last_evicted [0..<3] None of
        Inl old \<Rightarrow> (True, t\<lparr>td := (td t)[old := new]\<rparr>, new)
      | Inr None \<Rightarrow> (False, t, new)
      | Inr (Some victim) \<Rightarrow>
          insert_loop tries (t\<lparr>td := (td t)[victim := new]\<rparr>) (td t ! victim) flushed_seq (Some victim))"

definition bucket_table_insert :: "bw_table \<Rightarrow> bucket_hashed \<Rightarrow> u64 \<Rightarrow> bool \<times> bw_table \<times> bucket_hashed" where
  "bucket_table_insert t new flushed_seq = insert_loop 10 t new flushed_seq None"

datatype 'a outcome = BUG | Pending | Done 'a

text \<open>Moving the live entries of the old table: whether all inserts worked.\<close>

primrec rehash_entries :: "bw_table \<Rightarrow> bucket_hashed list \<Rightarrow> u64 \<Rightarrow> bool \<times> bw_table" where
  "rehash_entries n [] flushed_seq = (True, n)"
| "rehash_entries n (e # es) flushed_seq =
     (if journal_seq e \<le> flushed_seq then rehash_entries n es flushed_seq
      else
        let (ok, n, tmp) = bucket_table_insert n e flushed_seq in
        if ok then rehash_entries n es flushed_seq else (False, n))"

text \<open>The attempts from the label \<open>retry_rehash\<close> on.\<close>

fun rehash :: "(nat \<Rightarrow> bool) \<Rightarrow> bw_table \<Rightarrow> bucket_hashed \<Rightarrow> u64 \<Rightarrow> nat \<Rightarrow> nat \<Rightarrow> u64 list list \<Rightarrow> (bch_err + bw_table) outcome" where
  "rehash alloc t new flushed_seq new_bits nr_this_size [] = Pending"
| "rehash alloc t new flushed_seq new_bits nr_this_size (rnd # seeds) =
     (let (new_bits, nr_this_size) = (if nr_this_size = 3 then (new_bits + 1, 0) else (new_bits, nr_this_size)) in
      if \<not> alloc new_bits then Done (Inl BCH_ERR_ENOMEM_buckets_waiting_for_journal_set)
      else
        let n = bucket_table_init rnd new_bits;
            (ok, n, tmp) = bucket_table_insert n new flushed_seq
        in if \<not> ok then BUG
           else
             let (ok, n) = rehash_entries n (td t) flushed_seq in
             if ok then Done (Inr n)
             else rehash alloc t new flushed_seq new_bits (nr_this_size + 1) seeds)"

definition bw_new_bits :: "bw_table \<Rightarrow> u64 \<Rightarrow> nat" where
  "bw_new_bits t flushed_seq =
     (let nr_elements = 1 + of_nat (length (filter (\<lambda>e. journal_seq e > flushed_seq) (td t)))
      in fls64 (roundup_pow_of_two (nr_elements * 3)) - 1)"

text \<open>The result and the table \<^verbatim>\<open>b->t\<close>.\<close>

definition bch2_set_bucket_needs_journal_commit ::
    "(nat \<Rightarrow> bool) \<Rightarrow> u64 list list \<Rightarrow> bw_table \<Rightarrow> u64 \<Rightarrow> u32 \<Rightarrow> u64 \<Rightarrow> u64 \<Rightarrow> (bch_err option \<times> bw_table) outcome" where
  "bch2_set_bucket_needs_journal_commit alloc seeds t flushed_seq dev bucket seq =
     (let new = \<lparr>dev_bucket = dev_bucket_of dev bucket, journal_seq = seq\<rparr>;
          (ok, t, new) = bucket_table_insert t new flushed_seq
      in if ok then Done (None, t)
         else case rehash alloc t new flushed_seq (bw_new_bits t flushed_seq) 0 seeds of
           BUG \<Rightarrow> BUG
         | Pending \<Rightarrow> Pending
         | Done (Inl err) \<Rightarrow> Done (Some err, t)
         | Done (Inr n) \<Rightarrow> Done (None, n))"

definition INITIAL_TABLE_BITS :: nat where "INITIAL_TABLE_BITS = 3"

definition bch2_fs_buckets_waiting_for_journal_init :: "(nat \<Rightarrow> bool) \<Rightarrow> u64 list \<Rightarrow> bch_err + bw_table" where
  "bch2_fs_buckets_waiting_for_journal_init alloc rnd =
     (if \<not> alloc INITIAL_TABLE_BITS then Inl BCH_ERR_ENOMEM_buckets_waiting_for_journal_init
      else Inr (bucket_table_init rnd INITIAL_TABLE_BITS))"

section \<open>What the table represents\<close>

text \<open>The slot a lookup of \<open>d\<close> ends at, and the live entries.\<close>

definition slot_of :: "bw_table \<Rightarrow> u64 \<Rightarrow> nat option" where
  "slot_of t d = map_option (\<lambda>i. bucket_hash t i d) (find (\<lambda>i. dev_bucket (td t ! bucket_hash t i d) = d) [0..<3])"

abbreviation live :: "u64 \<Rightarrow> bw_table \<Rightarrow> nat \<Rightarrow> bool" where
  "live f t i \<equiv> i < length (td t) \<and> f < journal_seq (td t ! i)"

definition shape_ok :: "bw_table \<Rightarrow> bool" where
  "shape_ok t \<longleftrightarrow> tbits t \<le> 64 \<and> length (td t) = 2 ^ tbits t"

text \<open>A lookup of the bucket of a live entry ends at that entry.\<close>

definition table_ok :: "u64 \<Rightarrow> bw_table \<Rightarrow> bool" where
  "table_ok f t \<longleftrightarrow> shape_ok t \<and> (\<forall>i. live f t i \<longrightarrow> slot_of t (dev_bucket (td t ! i)) = Some i)"

definition waiting_map :: "u64 \<Rightarrow> bw_table \<Rightarrow> u64 \<Rightarrow> u64 option" where
  "waiting_map f t d =
     (case slot_of t d of None \<Rightarrow> None | Some i \<Rightarrow> if f < journal_seq (td t ! i) then Some (journal_seq (td t ! i)) else None)"

lemma bucket_hash_less: "shape_ok t \<Longrightarrow> bucket_hash t i d < length (td t)"
  unfolding bucket_hash_def shape_ok_def using hash_64_less by metis

lemma slot_of_Some:
  "slot_of t d = Some s \<longleftrightarrow> (\<exists>i<3. bucket_hash t i d = s \<and> dev_bucket (td t ! s) = d \<and>
    (\<forall>j<i. dev_bucket (td t ! bucket_hash t j d) \<noteq> d))"
  by (auto simp: slot_of_def find_upt_Some)

lemma slot_of_dev: "slot_of t d = Some s \<Longrightarrow> dev_bucket (td t ! s) = d"
  by (auto simp: slot_of_Some)

definition lives :: "u64 \<Rightarrow> bw_table \<Rightarrow> bucket_hashed set" where
  "lives f t = {td t ! i | i. live f t i}"

lemma live_unique:
  "table_ok f t \<Longrightarrow> live f t i \<Longrightarrow> live f t j \<Longrightarrow> dev_bucket (td t ! i) = dev_bucket (td t ! j) \<Longrightarrow> i = j"
  unfolding table_ok_def by (metis option.inject)

lemma slot_of_less: "shape_ok t \<Longrightarrow> slot_of t d = Some s \<Longrightarrow> s < length (td t)"
  using bucket_hash_less by (auto simp: slot_of_Some)

lemma waiting_map_iff:
  assumes "table_ok f t"
  shows "waiting_map f t d = Some s \<longleftrightarrow> \<lparr>dev_bucket = d, journal_seq = s\<rparr> \<in> lives f t"
proof
  assume "waiting_map f t d = Some s"
  then obtain i where i: "slot_of t d = Some i" "f < journal_seq (td t ! i)" "s = journal_seq (td t ! i)"
    by (auto simp: waiting_map_def split: option.splits if_splits)
  have "live f t i" using i assms slot_of_less by (auto simp: table_ok_def)
  moreover have "td t ! i = \<lparr>dev_bucket = d, journal_seq = s\<rparr>" using i slot_of_dev [OF i(1)] by simp
  ultimately show "\<lparr>dev_bucket = d, journal_seq = s\<rparr> \<in> lives f t" by (force simp: lives_def)
next
  assume "\<lparr>dev_bucket = d, journal_seq = s\<rparr> \<in> lives f t"
  then obtain i where i: "live f t i" "\<lparr>dev_bucket = d, journal_seq = s\<rparr> = td t ! i" unfolding lives_def by blast
  have "slot_of t (dev_bucket (td t ! i)) = Some i" using assms i(1) unfolding table_ok_def by blast
  then show "waiting_map f t d = Some s" using i(1) by (simp add: waiting_map_def flip: i(2))
qed

lemma scan_result:
  assumes "insert_scan t new f le [0..<3] None = r"
  defines "hit \<equiv> \<lambda>k. dev_bucket (td t ! bucket_hash t k (dev_bucket new)) = dev_bucket new \<or>
    journal_seq (td t ! bucket_hash t k (dev_bucket new)) \<le> f"
  shows "case r of
      Inl old \<Rightarrow> \<exists>k<3. old = bucket_hash t k (dev_bucket new) \<and> hit k \<and> (\<forall>j<k. \<not> hit j)
    | Inr None \<Rightarrow> True
    | Inr (Some v) \<Rightarrow> (\<exists>k<3. v = bucket_hash t k (dev_bucket new)) \<and> (\<forall>j<3. \<not> hit j)"
proof -
  have u: "[0..<3] = [0, 1, 2 :: nat]" by (simp add: upt_rec)
  have a: "(\<forall>j<3::nat. P j) \<longleftrightarrow> P 0 \<and> P 1 \<and> P 2" "(\<forall>j<2::nat. P j) \<longleftrightarrow> P 0 \<and> P 1" for P
    by (auto simp: numeral_3_eq_3 numeral_2_eq_2 less_Suc_eq)
  have e: "(\<exists>k<3::nat. P k) \<longleftrightarrow> P 0 \<or> P 1 \<or> P 2" for P by (auto simp: numeral_3_eq_3 numeral_2_eq_2 less_Suc_eq)
  show ?thesis
    using assms(1) unfolding u by (auto simp: Let_def a e hit_def split: if_splits)
qed

text \<open>Writing an entry whose bucket has no other live entry into one of its slots.\<close>

lemma place:
  assumes ok: "table_ok f t" and new: "f < journal_seq new"
    and k: "k < 3" "v = bucket_hash t k (dev_bucket new)"
    and before: "\<And>j. j < k \<Longrightarrow> dev_bucket (td t ! bucket_hash t j (dev_bucket new)) \<noteq> dev_bucket new \<or> bucket_hash t j (dev_bucket new) = v"
    and fresh: "\<And>i. live f t i \<Longrightarrow> i \<noteq> v \<Longrightarrow> dev_bucket (td t ! i) \<noteq> dev_bucket new"
  defines "t' \<equiv> t\<lparr>td := (td t)[v := new]\<rparr>"
  shows "table_ok f t'" "lives f t' = insert new (lives f t - (if live f t v then {td t ! v} else {}))"
    "\<And>i. live f t' i \<longleftrightarrow> i = v \<or> live f t i \<and> i \<noteq> v"
proof -
  have sh: "shape_ok t" "shape_ok t'" using ok by (simp_all add: table_ok_def shape_ok_def t'_def)
  have v: "v < length (td t)" using bucket_hash_less [OF sh(1)] k by simp
  have bh: "bucket_hash t' = bucket_hash t" by (intro ext) (simp add: bucket_hash_def t'_def)
  have nth: "td t' ! i = (if i = v then new else td t ! i)" for i using v by (simp add: t'_def)
  show lv: "live f t' i \<longleftrightarrow> i = v \<or> live f t i \<and> i \<noteq> v" for i using v new by (auto simp: t'_def)
  have "slot_of t' (dev_bucket (td t' ! i)) = Some i" if "live f t' i" for i
  proof (cases "i = v")
    case True
    obtain m where m: "m \<le> k" "bucket_hash t m (dev_bucket new) = v" "\<forall>j<m. bucket_hash t j (dev_bucket new) \<noteq> v"
      using exists_least_iff [of "\<lambda>m. bucket_hash t m (dev_bucket new) = v"] k(2) by (metis leI)
    then have "dev_bucket (td t' ! bucket_hash t' j (dev_bucket new)) \<noteq> dev_bucket new" if "j < m" for j
      using before [of j] that by (simp add: nth bh)
    then show ?thesis using True m k(1) by (auto simp: slot_of_Some nth bh intro!: exI [of _ m])
  next
    case False
    then have l: "live f t i" using that lv by blast
    then have "slot_of t (dev_bucket (td t ! i)) = Some i" using ok by (simp add: table_ok_def)
    moreover have "dev_bucket new \<noteq> dev_bucket (td t ! i)" using fresh [OF l False] by simp
    ultimately show ?thesis using False by (auto simp: slot_of_Some nth bh)
  qed
  then show "table_ok f t'" using sh by (simp add: table_ok_def)
  have "td t ! i \<noteq> td t ! v" if "live f t i" "i \<noteq> v" "live f t v" for i
    using live_unique [OF ok that(1) that(3)] that(2) by auto
  then have "{td t ! i | i. live f t i \<and> i \<noteq> v} = lives f t - (if live f t v then {td t ! v} else {})"
    by (auto simp: lives_def)
  moreover have "lives f t' = insert new {td t ! i | i. live f t i \<and> i \<noteq> v}"
    unfolding lives_def using lv nth by force
  ultimately show "lives f t' = insert new (lives f t - (if live f t v then {td t ! v} else {}))" by simp
qed

text \<open>What an insert keeps: nothing but \<open>new\<close> enters, nothing but the entry left over leaves.\<close>

definition fresh :: "u64 \<Rightarrow> bw_table \<Rightarrow> bucket_hashed \<Rightarrow> bool" where
  "fresh f t e \<longleftrightarrow> f < journal_seq e \<and> dev_bucket e \<notin> dev_bucket ` lives f t"

lemma freshD: "fresh f t e \<Longrightarrow> live f t i \<Longrightarrow> dev_bucket (td t ! i) \<noteq> dev_bucket e"
  unfolding fresh_def lives_def by (metis (mono_tags, lifting) image_eqI mem_Collect_eq)

lemma insert_loop_correct:
  assumes "table_ok f t" "fresh f t new" "insert_loop tries t new f le = (ok, t', new')"
  shows "table_ok f t' \<and> (if ok then lives f t' = insert new (lives f t)
    else fresh f t' new' \<and> insert new' (lives f t') = insert new (lives f t))"
  using assms
proof (induction tries arbitrary: t new le)
  case (Suc tries)
  note new = Suc.prems(2)
  have seq: "f < journal_seq new" using new by (simp add: fresh_def)
  let ?r = "insert_scan t new f le [0..<3] None"
  note scan = scan_result [of t new f le, OF refl]
  consider (hit) old where "?r = Inl old" | (full) "?r = Inr None" | (evict) v where "?r = Inr (Some v)"
    by (metis option.exhaust sum.exhaust)
  then show ?case
  proof cases
    case hit
    then obtain k where k: "k < 3" "old = bucket_hash t k (dev_bucket new)"
        "\<And>j. j < k \<Longrightarrow> dev_bucket (td t ! bucket_hash t j (dev_bucket new)) \<noteq> dev_bucket new"
        "dev_bucket (td t ! old) = dev_bucket new \<or> journal_seq (td t ! old) \<le> f"
      using scan by auto
    have dead: "\<not> live f t old" using k(4) freshD [OF new, of old] by auto
    have "t' = t\<lparr>td := (td t)[old := new]\<rparr>" "ok" using Suc.prems(3) hit by auto
    then show ?thesis
      using place(1,2) [OF Suc.prems(1) seq k(1,2)] k(3) freshD [OF new] dead by simp
  next
    case full
    then show ?thesis using Suc.prems by simp
  next
    case evict
    then obtain k where k: "k < 3" "v = bucket_hash t k (dev_bucket new)"
        "\<And>j. j < 3 \<Longrightarrow> dev_bucket (td t ! bucket_hash t j (dev_bucket new)) \<noteq> dev_bucket new"
        "f < journal_seq (td t ! v)"
      using scan by force
    let ?t = "t\<lparr>td := (td t)[v := new]\<rparr>"
    have lv: "live f t v" using k bucket_hash_less Suc.prems(1) by (simp add: table_ok_def)
    have p: "table_ok f ?t" "lives f ?t = insert new (lives f t - {td t ! v})"
      using place(1,2) [OF Suc.prems(1) seq k(1,2)] k(1,3) freshD [OF new] lv by simp_all
    have "dev_bucket (td t ! v) \<notin> dev_bucket ` lives f ?t"
      using p(2) live_unique [OF Suc.prems(1) lv] freshD [OF new lv] by (auto simp: lives_def)
    then have fr: "fresh f ?t (td t ! v)" using k(4) by (simp add: fresh_def)
    have e: "insert (td t ! v) (lives f ?t) = insert new (lives f t)"
      using p(2) lv by (auto simp: lives_def)
    have "insert_loop tries ?t (td t ! v) f (Some v) = (ok, t', new')" using Suc.prems(3) evict by simp
    from Suc.IH [OF p(1) fr this] show ?thesis unfolding e .
  qed
qed simp

lemma insert_correct:
  "table_ok f t \<Longrightarrow> fresh f t new \<Longrightarrow> bucket_table_insert t new f = (ok, t', new') \<Longrightarrow>
    table_ok f t' \<and> (if ok then lives f t' = insert new (lives f t)
      else fresh f t' new' \<and> insert new' (lives f t') = insert new (lives f t))"
  unfolding bucket_table_insert_def by (rule insert_loop_correct)

lemma init_ok: "bits \<le> 64 \<Longrightarrow> table_ok f (bucket_table_init rnd bits) \<and> lives f (bucket_table_init rnd bits) = {}"
  by (auto simp: table_ok_def shape_ok_def lives_def bucket_table_init_def)

text \<open>The first insert into a new table finds a free slot at once.\<close>

lemma insert_init:
  assumes "bits \<le> 64"
  shows "fst (bucket_table_insert (bucket_table_init rnd bits) new f)"
proof -
  let ?t = "bucket_table_init rnd bits"
  have "shape_ok ?t" using init_ok [OF assms, of f rnd] by (simp add: table_ok_def)
  from bucket_hash_less [OF this, of 0 "dev_bucket new"]
  have "journal_seq (td ?t ! bucket_hash ?t 0 (dev_bucket new)) = 0" by (simp add: bucket_table_init_def)
  moreover have "[0..<3] = [0, 1, 2 :: nat]" "(10 :: nat) = Suc 9" by (simp_all add: upt_rec)
  ultimately show ?thesis by (simp only: bucket_table_insert_def insert_loop.simps insert_scan.simps Let_def) simp
qed

lemma distinct_map_filterI:
  assumes "\<And>i j. i < length xs \<Longrightarrow> j < length xs \<Longrightarrow> P (xs ! i) \<Longrightarrow> P (xs ! j) \<Longrightarrow> g (xs ! i) = g (xs ! j) \<Longrightarrow> i = j"
  shows "distinct (map g (filter P xs))"
  using assms
proof (induction xs)
  case (Cons x xs)
  have "distinct (map g (filter P xs))" using Cons.prems [of "Suc _" "Suc _"] by (intro Cons.IH) fastforce
  moreover have "g y \<noteq> g x" if "P x" "y \<in> set xs" "P y" for y
    using that Cons.prems [of 0 "Suc _"] by (fastforce simp: in_set_conv_nth)
  ultimately show ?case by auto metis
qed simp

lemma lives_set: "lives f t = {e \<in> set (td t). f < journal_seq e}"
  by (auto simp: lives_def in_set_conv_nth)

lemma rehash_entries_correct:
  assumes "table_ok f n" "distinct (map dev_bucket (filter (\<lambda>e. f < journal_seq e) es))"
    "\<And>e. e \<in> set es \<Longrightarrow> f < journal_seq e \<Longrightarrow> fresh f n e" "rehash_entries n es f = (True, n')"
  shows "table_ok f n' \<and> lives f n' = lives f n \<union> {e \<in> set es. f < journal_seq e}"
  using assms
proof (induction es arbitrary: n)
  case (Cons e es)
  show ?case
  proof (cases "f < journal_seq e")
    case True
    obtain n1 x where n1: "bucket_table_insert n e f = (True, n1, x)" "rehash_entries n1 es f = (True, n')"
      using Cons.prems(4) True by (auto split: prod.splits if_splits)
    have i: "table_ok f n1" "lives f n1 = insert e (lives f n)"
      using insert_correct [OF Cons.prems(1) _ n1(1)] Cons.prems(3) [of e] True by simp_all
    have "fresh f n1 y" if "y \<in> set es" "f < journal_seq y" for y
    proof -
      have "dev_bucket y \<noteq> dev_bucket e" using Cons.prems(2) True that by (auto simp: rev_image_eqI)
      then show ?thesis using Cons.prems(3) [of y] that i(2) by (auto simp: fresh_def)
    qed
    then show ?thesis using Cons.IH [OF i(1)] Cons.prems(2) n1(2) True i(2) by auto
  next
    case False
    then have "rehash_entries n es f = (True, n')" using Cons.prems(4) by (simp add: not_less)
    then show ?thesis using Cons.IH [OF Cons.prems(1)] Cons.prems(2,3) False by auto
  qed
qed simp

lemma rehash_correct:
  assumes "table_ok f t" "fresh f t new" "\<forall>n. alloc n \<longrightarrow> n \<le> 64"
  shows "case rehash alloc t new f bits nr seeds of
      BUG \<Rightarrow> False
    | Pending \<Rightarrow> (\<forall>rnd\<in>set seeds. \<exists>b. \<not> fst (rehash_entries (fst (snd (bucket_table_insert (bucket_table_init rnd b) new f))) (td t) f))
    | Done (Inl err) \<Rightarrow> err = BCH_ERR_ENOMEM_buckets_waiting_for_journal_set \<and> (\<exists>b\<ge>bits. \<not> alloc b)
    | Done (Inr n) \<Rightarrow> table_ok f n \<and> lives f n = insert new (lives f t)"
proof (induction seeds arbitrary: bits nr)
  case (Cons rnd seeds)
  define b where "b = (if nr = 3 then bits + 1 else bits)"
  define k where "k = (if nr = 3 then 0 else nr)"
  show ?case
  proof (cases "alloc b")
    case True
    let ?i = "bucket_table_init rnd b"
    have i: "table_ok f ?i" "lives f ?i = {}" using init_ok assms(3) True by blast+
    obtain n x where n: "bucket_table_insert ?i new f = (True, n, x)"
      using insert_init [of b rnd new f] assms(3) True by (metis eq_fst_iff)
    have "fresh f ?i new" using assms(2) i by (simp add: fresh_def)
    then have nn: "table_ok f n" "lives f n = {new}" using insert_correct [OF i(1) _ n] i(2) by simp_all
    obtain ok n' where n': "rehash_entries n (td t) f = (ok, n')" by fastforce
    have r: "rehash alloc t new f bits nr (rnd # seeds) = (if ok then Done (Inr n') else rehash alloc t new f b (k + 1) seeds)"
      using True n n' by (cases "nr = 3") (simp_all add: b_def k_def Let_def)
    show ?thesis
    proof (cases ok)
      case True
      have "distinct (map dev_bucket (filter (\<lambda>e. f < journal_seq e) (td t)))"
        by (rule distinct_map_filterI) (use live_unique [OF assms(1)] in blast)
      moreover have "fresh f n e" if "e \<in> set (td t)" "f < journal_seq e" for e
      proof -
        have "dev_bucket e \<in> dev_bucket ` lives f t" using that by (simp add: lives_set)
        then show ?thesis using assms(2) that nn(2) by (auto simp: fresh_def)
      qed
      ultimately have "table_ok f n' \<and> lives f n' = lives f n \<union> {e \<in> set (td t). f < journal_seq e}"
        using n' True by (intro rehash_entries_correct [OF nn(1)]) auto
      then show ?thesis using r True nn(2) by (simp add: lives_set)
    next
      case False
      have "\<not> fst (rehash_entries (fst (snd (bucket_table_insert ?i new f))) (td t) f)" using n n' False by simp
      moreover have "bits \<le> b" by (simp add: b_def)
      ultimately show ?thesis using Cons.IH [of b "k + 1"] r False
        by (auto split: outcome.splits sum.splits intro: le_trans)
    qed
  next
    case False
    moreover have "bits \<le> b" by (simp add: b_def)
    ultimately have "\<exists>c\<ge>bits. \<not> alloc c" by blast
    then show ?thesis using False by (cases "nr = 3") (simp_all add: b_def)
  qed
qed simp

lemma option_ext: "(\<And>s. a = Some s \<longleftrightarrow> b = Some s) \<Longrightarrow> a = b"
  by (cases a; cases b) auto

lemma waiting_map_insert:
  assumes "table_ok f t" "table_ok f t'" "lives f t' = insert e (lives f t)" "fresh f t e"
  shows "waiting_map f t' = (waiting_map f t)(dev_bucket e \<mapsto> journal_seq e)"
proof
  fix d
  show "waiting_map f t' d = ((waiting_map f t)(dev_bucket e \<mapsto> journal_seq e)) d"
  proof (cases "d = dev_bucket e")
    case True
    have "\<lparr>dev_bucket = d, journal_seq = journal_seq e\<rparr> \<in> lives f t'" using assms(3) True by simp
    then show ?thesis using waiting_map_iff [OF assms(2)] True by simp
  next
    case False
    then have "waiting_map f t' d = Some s \<longleftrightarrow> waiting_map f t d = Some s" for s
      using waiting_map_iff [OF assms(1), of d s] waiting_map_iff [OF assms(2), of d s] assms(3) by auto
    then have "waiting_map f t' d = waiting_map f t d" by (rule option_ext)
    then show ?thesis using False by simp
  qed
qed

lemma fresh_iff: "table_ok f t \<Longrightarrow> fresh f t e \<longleftrightarrow> f < journal_seq e \<and> waiting_map f t (dev_bucket e) = None"
proof -
  assume ok: "table_ok f t"
  have "dev_bucket e \<in> dev_bucket ` lives f t \<longleftrightarrow> waiting_map f t (dev_bucket e) \<noteq> None"
  proof
    assume "dev_bucket e \<in> dev_bucket ` lives f t"
    then obtain x where "x \<in> lives f t" "dev_bucket x = dev_bucket e" by auto
    then show "waiting_map f t (dev_bucket e) \<noteq> None"
      using waiting_map_iff [OF ok, of "dev_bucket e" "journal_seq x"] by (cases x) simp
  next
    assume "waiting_map f t (dev_bucket e) \<noteq> None"
    then obtain q where "waiting_map f t (dev_bucket e) = Some q" by blast
    then have "\<lparr>dev_bucket = dev_bucket e, journal_seq = q\<rparr> \<in> lives f t" using waiting_map_iff [OF ok] by blast
    then show "dev_bucket e \<in> dev_bucket ` lives f t" by (rule rev_image_eqI) simp
  qed
  then show ?thesis by (auto simp: fresh_def)
qed

lemma waiting_lost:
  assumes "table_ok f t" "fresh f t new" "table_ok f t1" "fresh f t1 e" "insert e (lives f t1) = insert new (lives f t)"
  shows "waiting_map f t1 = ((waiting_map f t)(dev_bucket new \<mapsto> journal_seq new))(dev_bucket e := None)"
proof
  fix d
  have new: "waiting_map f t (dev_bucket new) = None" and e: "waiting_map f t1 (dev_bucket e) = None"
    using assms(2,4) fresh_iff assms(1,3) by blast+
  have m: "waiting_map f t1 d = Some s \<longleftrightarrow> ((waiting_map f t)(dev_bucket new \<mapsto> journal_seq new)) d = Some s"
    if "d \<noteq> dev_bucket e" for s
  proof -
    let ?x = "\<lparr>dev_bucket = d, journal_seq = s\<rparr>"
    have "?x \<in> insert e (lives f t1) \<longleftrightarrow> ?x \<in> insert new (lives f t)" using assms(5) by simp
    then have "?x \<in> lives f t1 \<longleftrightarrow> ?x = new \<or> ?x \<in> lives f t" using that by auto
    then show ?thesis
      using waiting_map_iff [OF assms(3), of d s] waiting_map_iff [OF assms(1), of d s] new
      by (cases new) (auto simp: fun_upd_apply)
  qed
  show "waiting_map f t1 d = (((waiting_map f t)(dev_bucket new \<mapsto> journal_seq new))(dev_bucket e := None)) d"
  proof (cases "d = dev_bucket e")
    case False
    have "waiting_map f t1 d = ((waiting_map f t)(dev_bucket new \<mapsto> journal_seq new)) d"
      by (rule option_ext) (rule m [OF False])
    then show ?thesis using False by simp
  qed (simp add: e)
qed

section \<open>Properties\<close>

lemma bucket_set_commit:
  assumes "table_ok f t" "f < seq" "waiting_map f t (dev_bucket_of dev bucket) = None" "\<forall>n. alloc n \<longrightarrow> n \<le> 64"
  shows "case bch2_set_bucket_needs_journal_commit alloc seeds t f dev bucket seq of
      BUG \<Rightarrow> False
    | Pending \<Rightarrow> (\<exists>(t' :: bw_table) e. \<forall>rnd\<in>set seeds. \<exists>b. \<not> fst (rehash_entries (fst (snd (bucket_table_insert (bucket_table_init rnd b) e f))) (td t') f))
    | Done (None, t') \<Rightarrow> table_ok f t' \<and> waiting_map f t' = (waiting_map f t)(dev_bucket_of dev bucket \<mapsto> seq)
    | Done (Some err, t') \<Rightarrow> err = BCH_ERR_ENOMEM_buckets_waiting_for_journal_set \<and> table_ok f t' \<and>
        (\<exists>d. waiting_map f t' = ((waiting_map f t)(dev_bucket_of dev bucket \<mapsto> seq))(d := None))"
proof -
  define new where "new = \<lparr>dev_bucket = dev_bucket_of dev bucket, journal_seq = seq\<rparr>"
  have fr: "fresh f t new" using assms(2,3) fresh_iff [OF assms(1)] by (simp add: new_def)
  obtain ok t1 e where i: "bucket_table_insert t new f = (ok, t1, e)" by (metis prod_cases3)
  note c = insert_correct [OF assms(1) fr i]
  show ?thesis
  proof (cases ok)
    case True
    then have "table_ok f t1" "waiting_map f t1 = (waiting_map f t)(dev_bucket_of dev bucket \<mapsto> seq)"
      using c waiting_map_insert [OF assms(1) _ _ fr, of t1] by (simp_all add: new_def)
    then show ?thesis using i True by (simp add: bch2_set_bucket_needs_journal_commit_def new_def Let_def)
  next
    case False
    then have t1: "table_ok f t1" "fresh f t1 e" "insert e (lives f t1) = insert new (lives f t)" using c by simp_all
    note r = rehash_correct [OF t1(1,2), where alloc = alloc and bits = "bw_new_bits t1 f" and nr = 0 and seeds = seeds, OF assms(4)]
    have grown: "waiting_map f n = (waiting_map f t)(dev_bucket_of dev bucket \<mapsto> seq)"
        if "table_ok f n" "lives f n = insert e (lives f t1)" for n
      using waiting_map_insert [OF assms(1) that(1) _ fr] that(2) t1(3) by (simp add: new_def)
    have lost: "waiting_map f t1 = ((waiting_map f t)(dev_bucket_of dev bucket \<mapsto> seq))(dev_bucket e := None)"
      using waiting_lost [OF assms(1) fr t1] by (simp add: new_def)
    have pend: "\<exists>(t' :: bw_table) e. \<forall>rnd\<in>set seeds. \<exists>b. \<not> fst (rehash_entries (fst (snd (bucket_table_insert (bucket_table_init rnd b) e f))) (td t') f)"
        if "rehash alloc t1 e f (bw_new_bits t1 f) 0 seeds = Pending"
      using r that by (intro exI [of _ t1] exI [of _ e]) simp
    show ?thesis
      using r i False t1 grown lost pend
      by (auto simp: bch2_set_bucket_needs_journal_commit_def new_def Let_def split: outcome.splits sum.splits)
  qed
qed


text \<open>
  The life of a table: sequence numbers are flushed in order, and buckets that do not wait are
  recorded. \<open>m\<close> maps the waiting buckets to the sequence numbers they wait for.
\<close>

inductive bw_reach :: "(nat \<Rightarrow> bool) \<Rightarrow> u64 \<Rightarrow> bw_table \<Rightarrow> (u64 \<Rightarrow> u64 option) \<Rightarrow> bool" for alloc where
  init: "bch2_fs_buckets_waiting_for_journal_init alloc rnd = Inr t \<Longrightarrow> bw_reach alloc f t (\<lambda>_. None)"
| flush: "bw_reach alloc f t m \<Longrightarrow> f \<le> f' \<Longrightarrow>
    bw_reach alloc f' t (\<lambda>d. case m d of None \<Rightarrow> None | Some s \<Rightarrow> if f' < s then Some s else None)"
| recorded: "bw_reach alloc f t m \<Longrightarrow> f < seq \<Longrightarrow> m (dev_bucket_of dev bucket) = None \<Longrightarrow>
    bch2_set_bucket_needs_journal_commit alloc seeds t f dev bucket seq = Done (None, t') \<Longrightarrow>
    bw_reach alloc f t' (m(dev_bucket_of dev bucket \<mapsto> seq))"

lemma bw_reach_ok:
  assumes "bw_reach alloc f t m" "\<forall>n. alloc n \<longrightarrow> n \<le> 64"
  shows "table_ok f t \<and> waiting_map f t = m"
  using assms(1)
proof induction
  case (init rnd t f)
  then have "t = bucket_table_init rnd 3"
    by (auto simp: bch2_fs_buckets_waiting_for_journal_init_def INITIAL_TABLE_BITS_def split: if_splits)
  then have ok: "table_ok f t" "lives f t = {}" using init_ok [of 3 f rnd] by simp_all
  have "waiting_map f t d = None" for d using waiting_map_iff [OF ok(1)] ok(2) by (metis empty_iff not_None_eq)
  then show ?case using ok by auto
next
  case (flush f t m f')
  then have "f < x" if "f' < x" for x using that by simp
  then have "waiting_map f' t = (\<lambda>d. case waiting_map f t d of None \<Rightarrow> None | Some s \<Rightarrow> if f' < s then Some s else None)"
    by (intro ext) (auto simp: waiting_map_def split: option.splits)
  moreover have "table_ok f' t" using flush by (auto simp: table_ok_def dest: le_less_trans)
  ultimately show ?case using flush by simp
next
  case (recorded f t m seq dev bucket seeds t')
  then show ?case
    using bucket_set_commit [of f t seq dev bucket alloc seeds] assms(2) by simp
qed



text \<open>
  The hypothesis that the bucket is not waiting already is needed: recording a bucket again
  before its earlier entry is flushed can leave both entries in the table, and when the later
  one is displaced it can be lost.
\<close>

lemma bucket_waiting_stale:
  "let ins = (\<lambda>t (f, d, s). fst (snd (bucket_table_insert t \<lparr>dev_bucket = d, journal_seq = s\<rparr> f)));
       t = foldl ins (bucket_table_init [0, 1, 2] 3) [(0, 11, 1), (0, 2, 2), (0, 3, 3), (1, 1, 4), (1, 3, 5), (1, 11, 6)]
   in bch2_bucket_journal_seq_ready t 0 3 = 3"
  by code_simp


end
