(* ===== verification/Eytzinger.thy ===== *)
theory Eytzinger
  imports Bch_Prelude "HOL-Library.Monad_Syntax"
begin

text \<open>
  Eytzinger trees (\<^verbatim>\<open>libbcachefs/eytzinger.h\<close>): a search tree laid out in an array, the
  children of node \<open>i\<close> at \<open>2 i\<close> and \<open>2 i + 1\<close>, one-based. The index functions are modelled on
  32 bit words, with the shifts, wrap-around subtractions and sign-bit tricks of the C code;
  the search loops, whose indices stay below twice the array size, on natural numbers.

  The specification is the in-order traversal \<open>inorder n i\<close> of the subtree at \<open>i\<close> of the tree
  with nodes \<open>1..n\<close>: stepping, the conversions between tree and sorted positions, and the
  searches are all shown against it.
\<close>

section \<open>Index functions\<close>

definition rounddown_pow_of_two :: "u32 \<Rightarrow> u32" where
  "rounddown_pow_of_two n = push_bit (fls_word n) 1"

definition eytzinger1_child :: "u32 \<Rightarrow> u32 \<Rightarrow> u32" where
  "eytzinger1_child i child = push_bit 1 i + child"

definition eytzinger1_left_child :: "u32 \<Rightarrow> u32" where
  "eytzinger1_left_child i = eytzinger1_child i 0"

definition eytzinger1_right_child :: "u32 \<Rightarrow> u32" where
  "eytzinger1_right_child i = eytzinger1_child i 1"

definition eytzinger1_first :: "u32 \<Rightarrow> u32" where
  "eytzinger1_first sz = (if sz \<noteq> 0 then rounddown_pow_of_two sz else 0)"

definition eytzinger1_last :: "u32 \<Rightarrow> u32" where
  "eytzinger1_last sz = rounddown_pow_of_two (sz + 1) - 1"

definition eytzinger1_next :: "u32 \<Rightarrow> u32 \<Rightarrow> u32" where
  "eytzinger1_next i sz =
     (if eytzinger1_right_child i \<le> sz then
        let i = eytzinger1_right_child i;
            i = push_bit (fls_word sz - fls_word i) i
        in drop_bit (of_bool (i > sz)) i
      else drop_bit (ffz_word i + 1) i)"

definition eytzinger1_prev :: "u32 \<Rightarrow> u32 \<Rightarrow> u32" where
  "eytzinger1_prev i sz =
     (if eytzinger1_left_child i \<le> sz then
        let i = eytzinger1_left_child i + 1;
            i = push_bit (fls_word sz - fls_word i) i;
            i = i - 1
        in drop_bit (of_bool (i > sz)) i
      else drop_bit (ffs_word i + 1) i)"

definition eytzinger1_extra :: "u32 \<Rightarrow> u32" where
  "eytzinger1_extra sz =
     (if sz \<noteq> 0 then push_bit 1 (sz + 1 - rounddown_pow_of_two sz) else 0)"

definition eytzinger1_to_inorder_extra :: "u32 \<Rightarrow> u32 \<Rightarrow> u32 \<Rightarrow> u32" where
  "eytzinger1_to_inorder_extra i sz extra =
     (let b = fls_word i;
          shift = fls_word sz - b;
          i = i XOR push_bit b 1;
          i = push_bit 1 i;
          i = i OR 1;
          i = push_bit shift i;
          s = extra - i
      in i + (signed_drop_bit 1 s AND signed_drop_bit 31 s))"

definition inorder_to_eytzinger1_extra :: "u32 \<Rightarrow> u32 \<Rightarrow> u32 \<Rightarrow> u32" where
  "inorder_to_eytzinger1_extra i sz extra =
     (let s = extra - i;
          i = i - (s AND signed_drop_bit 31 s);
          shift = ffs_word i;
          i = drop_bit (shift + 1) i
      in i OR push_bit (fls_word sz - shift) 1)"

definition eytzinger1_to_inorder :: "u32 \<Rightarrow> u32 \<Rightarrow> u32" where
  "eytzinger1_to_inorder i sz = eytzinger1_to_inorder_extra i sz (eytzinger1_extra sz)"

definition inorder_to_eytzinger1 :: "u32 \<Rightarrow> u32 \<Rightarrow> u32" where
  "inorder_to_eytzinger1 i sz = inorder_to_eytzinger1_extra i sz (eytzinger1_extra sz)"

text \<open>The zero based versions.\<close>

definition eytzinger0_child :: "u32 \<Rightarrow> u32 \<Rightarrow> u32" where
  "eytzinger0_child i child = push_bit 1 i + 1 + child"

definition eytzinger0_first :: "u32 \<Rightarrow> u32" where
  "eytzinger0_first sz = eytzinger1_first sz - 1"

definition eytzinger0_last :: "u32 \<Rightarrow> u32" where
  "eytzinger0_last sz = eytzinger1_last sz - 1"

definition eytzinger0_next :: "u32 \<Rightarrow> u32 \<Rightarrow> u32" where
  "eytzinger0_next i sz = eytzinger1_next (i + 1) sz - 1"

definition eytzinger0_prev :: "u32 \<Rightarrow> u32 \<Rightarrow> u32" where
  "eytzinger0_prev i sz = eytzinger1_prev (i + 1) sz - 1"

definition eytzinger0_to_inorder :: "u32 \<Rightarrow> u32 \<Rightarrow> u32" where
  "eytzinger0_to_inorder i sz = eytzinger1_to_inorder_extra (i + 1) sz (eytzinger1_extra sz) - 1"

definition inorder_to_eytzinger0 :: "u32 \<Rightarrow> u32 \<Rightarrow> u32" where
  "inorder_to_eytzinger0 i sz = inorder_to_eytzinger1_extra (i + 1) sz (eytzinger1_extra sz) - 1"

text \<open>
  The iteration macros, returning the indices visited. Whether they end depends on the step
  functions, so a loop that does not is \<open>None\<close>.
\<close>

partial_function (option) eytzinger0_for_each_from :: "u32 \<Rightarrow> u32 \<Rightarrow> u32 list option" where
  "eytzinger0_for_each_from i sz =
     (if i = - 1 then Some []
      else do {
        rest \<leftarrow> eytzinger0_for_each_from (eytzinger0_next i sz) sz;
        Some (i # rest)
      })"

definition eytzinger0_for_each :: "u32 \<Rightarrow> u32 list option" where
  "eytzinger0_for_each sz = eytzinger0_for_each_from (eytzinger0_first sz) sz"

partial_function (option) eytzinger0_for_each_prev_from :: "u32 \<Rightarrow> u32 \<Rightarrow> u32 list option" where
  "eytzinger0_for_each_prev_from i sz =
     (if i = - 1 then Some []
      else do {
        rest \<leftarrow> eytzinger0_for_each_prev_from (eytzinger0_prev i sz) sz;
        Some (i # rest)
      })"

definition eytzinger0_for_each_prev :: "u32 \<Rightarrow> u32 list option" where
  "eytzinger0_for_each_prev sz = eytzinger0_for_each_prev_from (eytzinger0_last sz) sz"

section \<open>Searching\<close>

text \<open>
  The descent shared by the searches: go right when the test holds of the node. \<open>cmp_right\<close>
  takes the one-based node index. The loop ends because the index at least doubles; it
  starts at 1.
\<close>

function eyt_descend :: "nat \<Rightarrow> (nat \<Rightarrow> bool) \<Rightarrow> nat \<Rightarrow> nat" where
  "eyt_descend nr cmp_right n =
     (if 0 < n \<and> n \<le> nr then eyt_descend nr cmp_right (2 * n + of_bool (cmp_right n)) else n)"
  by pat_completeness auto
termination
  by (relation "measure (\<lambda>(nr, c, n). Suc nr - n)") auto

declare eyt_descend.simps [simp del]

definition up_le :: "nat \<Rightarrow> nat" where
  "up_le n = n div 2 ^ (ffs_nat n + 1)"

definition up_gt :: "nat \<Rightarrow> nat" where
  "up_gt n = n div 2 ^ (ffs_nat (n + 1) + 1)"

text \<open>The results are \<open>n - 1\<close> as C \<^verbatim>\<open>int\<close>s: the zero-based index, or \<open>-1\<close>.\<close>

definition eytzinger0_find_le :: "'a list \<Rightarrow> ('a \<Rightarrow> 'b \<Rightarrow> int) \<Rightarrow> 'b \<Rightarrow> int" where
  "eytzinger0_find_le base cmp search =
     (let n = eyt_descend (length base) (\<lambda>n. cmp (base ! (n - 1)) search \<le> 0) 1
      in int (up_le n) - 1)"

definition eytzinger0_find_gt :: "'a list \<Rightarrow> ('a \<Rightarrow> 'b \<Rightarrow> int) \<Rightarrow> 'b \<Rightarrow> int" where
  "eytzinger0_find_gt base cmp search =
     (let n = eyt_descend (length base) (\<lambda>n. cmp (base ! (n - 1)) search \<le> 0) 1
      in int (up_gt n) - 1)"

definition eytzinger0_find_ge :: "'a list \<Rightarrow> ('a \<Rightarrow> 'b \<Rightarrow> int) \<Rightarrow> 'b \<Rightarrow> int" where
  "eytzinger0_find_ge base cmp search =
     (let n = eyt_descend (length base) (\<lambda>n. cmp (base ! (n - 1)) search < 0) 1
      in int (up_gt n) - 1)"

text \<open>The exact search stops at a match; a miss gives an index that is not below \<open>nr\<close>.\<close>

function eyt_find_loop :: "'a list \<Rightarrow> ('b \<Rightarrow> 'a \<Rightarrow> int) \<Rightarrow> 'b \<Rightarrow> nat \<Rightarrow> nat" where
  "eyt_find_loop base cmp search i =
     (if 0 < i \<and> i \<le> length base then
        let res = cmp search (base ! (i - 1)) in
        if res \<noteq> 0 then eyt_find_loop base cmp search (2 * i + of_bool (res > 0)) else i
      else i)"
  by pat_completeness auto
termination
  by (relation "measure (\<lambda>(base, c, s, i). Suc (length base) - i)") auto

declare eyt_find_loop.simps [simp del]

definition eytzinger0_find :: "'a list \<Rightarrow> ('b \<Rightarrow> 'a \<Rightarrow> int) \<Rightarrow> 'b \<Rightarrow> nat" where
  "eytzinger0_find base cmp search = eyt_find_loop base cmp search 1 - 1"

section \<open>In-order traversal\<close>

function inorder :: "nat \<Rightarrow> nat \<Rightarrow> nat list" where
  "inorder n i = (if i = 0 \<or> n < i then [] else inorder n (2 * i) @ i # inorder n (2 * i + 1))"
  by pat_completeness auto
termination
  by (relation "measure (\<lambda>(n, i). Suc n - i)") auto

declare inorder.simps [simp del]

lemma inorder_leaf [simp]: "n < i \<Longrightarrow> inorder n i = []" "inorder n 0 = []"
  by (simp_all add: inorder.simps)

lemma inorder_node: "0 < i \<Longrightarrow> i \<le> n \<Longrightarrow> inorder n i = inorder n (2 * i) @ i # inorder n (2 * i + 1)"
  by (simp add: inorder.simps [of n i])

lemma in_inorder: "j \<in> set (inorder n i) \<Longrightarrow> i \<le> j \<and> j \<le> n \<and> 0 < j"
proof (induction n i rule: inorder.induct)
  case (1 n i)
  then show ?case by (cases "i = 0 \<or> n < i") (auto simp: inorder.simps [of n i])
qed

subsection \<open>Nearest ancestors on either side\<close>

lemma ffs_nat_even: "0 < n \<Longrightarrow> even n \<Longrightarrow> ffs_nat n = Suc (ffs_nat (n div 2))"
  by (simp add: ffs_nat.simps [of n])

lemma up_le_right [simp]: "up_le (2 * n + 1) = n"
  by (simp add: up_le_def)

lemma up_le_left [simp]: "0 < n \<Longrightarrow> up_le (2 * n) = up_le n"
  by (simp add: up_le_def ffs_nat_even)

lemma up_gt_left [simp]: "up_gt (2 * n) = n"
  by (simp add: up_gt_def)

lemma up_gt_right [simp]: "up_gt (2 * n + 1) = up_gt n"
proof -
  have "ffs_nat (2 * n + 1 + 1) = Suc (ffs_nat (n + 1))" by (simp add: ffs_nat_even)
  then have "up_gt (2 * n + 1) = (2 * n + 1) div (2 * 2 ^ (ffs_nat (n + 1) + 1))"
    by (simp add: up_gt_def)
  then show ?thesis by (simp only: div_mult2_eq up_gt_def) simp
qed

lemma up_1 [simp]: "up_le (Suc 0) = 0" "up_gt (Suc 0) = 0"
  using up_le_right [of 0] up_gt_right [of 0] by (simp_all add: up_gt_def)

subsection \<open>The searches\<close>

lemma eyt_descend_up:
  assumes "sorted_wrt (\<lambda>i j. c j \<longrightarrow> c i) (inorder nr n)" "0 < n"
  shows "up_le (eyt_descend nr c n) = last (up_le n # filter c (inorder nr n)) \<and>
    up_gt (eyt_descend nr c n) = hd (filter (\<lambda>i. \<not> c i) (inorder nr n) @ [up_gt n])"
  using assms
proof (induction nr c n rule: eyt_descend.induct)
  case (1 nr c n)
  show ?case
  proof (cases "n \<le> nr")
    case False
    then show ?thesis by (simp add: eyt_descend.simps [of nr c n])
  next
    case le: True
    let ?L = "inorder nr (2 * n)" and ?R = "inorder nr (2 * n + 1)"
    have io: "inorder nr n = ?L @ n # ?R" using le "1.prems"(2) by (rule inorder_node [rotated])
    have s: "sorted_wrt (\<lambda>i j. c j \<longrightarrow> c i) ?L" "sorted_wrt (\<lambda>i j. c j \<longrightarrow> c i) ?R"
        "\<forall>i \<in> set ?L. c n \<longrightarrow> c i" "\<forall>j \<in> set ?R. c j \<longrightarrow> c n"
      using "1.prems"(1) by (auto simp: io sorted_wrt_append)
    have d: "eyt_descend nr c n = eyt_descend nr c (2 * n + of_bool (c n))"
      using le "1.prems"(2) by (simp add: eyt_descend.simps [of nr c n])
    show ?thesis
    proof (cases "c n")
      case True
      have "filter (\<lambda>i. \<not> c i) ?L = []" using True s(3) by (simp add: filter_empty_conv)
      then show ?thesis
        using "1.IH" True le "1.prems"(2) s(2) up_le_right [of n] up_gt_right [of n] by (simp add: d io)
    next
      case False
      have "filter c ?R = []" using False s(4) by (auto simp: filter_empty_conv)
      then show ?thesis
        using "1.IH" False le "1.prems"(2) s(1) by (simp add: d io hd_append)
    qed
  qed
qed

section \<open>Full-tree ranks\<close>

text \<open>
  \<open>lg i\<close> is the level of node \<open>i\<close>; \<open>full_rank h i\<close> its one-based in-order position in the full
  tree with \<open>h + 1\<close> levels, and \<open>full_node h\<close> the inverse.
\<close>

definition lg :: "nat \<Rightarrow> nat" where
  "lg i = fls_nat i - 1"

lemma lg_bounds: "0 < i \<Longrightarrow> 2 ^ lg i \<le> i" "i < 2 ^ Suc (lg i)"
proof -
  show "i < 2 ^ Suc (lg i)"
    unfolding fls_nat_le_iff [symmetric] lg_def by arith
  assume "0 < i"
  then have "fls_nat i \<noteq> 0" by simp
  then have "lg i < fls_nat i" unfolding lg_def by arith
  then show "2 ^ lg i \<le> i" by (simp only: less_fls_nat_iff)
qed

lemma lg_eqI: "2 ^ b \<le> i \<Longrightarrow> i < 2 ^ Suc b \<Longrightarrow> lg i = b"
  by (simp add: lg_def fls_nat_eqI)

lemma lg_child: "0 < i \<Longrightarrow> lg (2 * i) = Suc (lg i)" "0 < i \<Longrightarrow> lg (2 * i + 1) = Suc (lg i)"
  using lg_bounds [of i] by (auto intro!: lg_eqI)

lemma lg_mono: "0 < i \<Longrightarrow> i \<le> n \<Longrightarrow> lg i \<le> lg n"
  by (simp add: lg_def fls_nat_mono diff_le_mono)

definition full_rank :: "nat \<Rightarrow> nat \<Rightarrow> nat" where
  "full_rank h i = (2 * (i - 2 ^ lg i) + 1) * 2 ^ (h - lg i)"

definition full_node :: "nat \<Rightarrow> nat \<Rightarrow> nat" where
  "full_node h x = x div 2 ^ (ffs_nat x + 1) + 2 ^ (h - ffs_nat x)"

lemma full_rank_eq: "s \<le> h \<Longrightarrow> t < 2 ^ (h - s) \<Longrightarrow> full_rank h (t + 2 ^ (h - s)) = (2 * t + 1) * 2 ^ s"
proof -
  assume "s \<le> h" "t < 2 ^ (h - s)"
  moreover from this have "lg (t + 2 ^ (h - s)) = h - s" by (intro lg_eqI) simp_all
  ultimately show ?thesis by (simp add: full_rank_def)
qed

lemma full_node_eq: "full_node h ((2 * t + 1) * 2 ^ s) = t + 2 ^ (h - s)"
proof -
  have "ffs_nat ((2 * t + 1) * 2 ^ s) = s" using ffs_nat_pow2_mult [of "2 * t + 1" s] by (simp add: mult.commute)
  moreover have "(2 * t + 1) * 2 ^ s div (2 * 2 ^ s) = (2 * t + 1) div 2" by (rule div_mult_mult2) simp
  ultimately show ?thesis by (simp add: full_node_def mult.commute)
qed

text \<open>Every node of the full tree, and every rank, in the form these equations use.\<close>

lemma node_form:
  assumes "0 < i" "lg i \<le> h"
  obtains s t where "s \<le> h" "t < 2 ^ (h - s)" "i = t + 2 ^ (h - s)" "h - s = lg i"
proof (rule that)
  show "h - lg i \<le> h" "h - (h - lg i) = lg i" using assms by simp_all
  then show "i - 2 ^ lg i < 2 ^ (h - (h - lg i))" "i = i - 2 ^ lg i + 2 ^ (h - (h - lg i))"
    using lg_bounds [of i] assms(1) by simp_all
qed

lemma rank_form:
  assumes "0 < x" "x < 2 ^ Suc h"
  obtains s t where "s \<le> h" "t < 2 ^ (h - s)" "x = (2 * t + 1) * 2 ^ s" "s = ffs_nat x"
proof -
  obtain r where r: "odd r" "x = 2 ^ ffs_nat x * r" using ffs_nat_decomp [OF assms(1)] by blast
  then obtain t where t: "r = 2 * t + 1" by (elim oddE)
  let ?s = "ffs_nat x"
  have x: "x = (2 * t + 1) * 2 ^ ?s" using r t by (simp add: mult.commute)
  have "2 ^ ?s \<le> x" using assms(1) by (rule pow2_ffs_nat_le)
  then have "(2::nat) ^ ?s < 2 ^ Suc h" using assms(2) by linarith
  then have s: "?s \<le> h" by (simp only: power_strict_increasing_iff one_less_numeral_iff semiring_norm less_Suc_eq_le)
  then have "(2::nat) ^ Suc h = 2 * 2 ^ (h - ?s) * 2 ^ ?s" by (simp add: power_add [symmetric])
  then have "(2 * t + 1) * 2 ^ ?s < (2 * 2 ^ (h - ?s)) * 2 ^ ?s" using x assms(2) by simp
  then have "2 * t + 1 < 2 * 2 ^ (h - ?s)" by (simp only: mult_less_cancel2)
  then have "t < 2 ^ (h - ?s)" by simp
  with s x show ?thesis by (intro that [of ?s t]) simp_all
qed

lemma full_node_rank: "0 < i \<Longrightarrow> lg i \<le> h \<Longrightarrow> full_node h (full_rank h i) = i"
proof -
  assume "0 < i" "lg i \<le> h"
  then obtain s t where f: "s \<le> h" "t < 2 ^ (h - s)" "i = t + 2 ^ (h - s)" by (rule node_form)
  then show ?thesis using full_rank_eq [OF f(1,2)] full_node_eq [of h t s] by simp
qed

lemma full_rank_node: "0 < x \<Longrightarrow> x < 2 ^ Suc h \<Longrightarrow> full_rank h (full_node h x) = x"
proof -
  assume "0 < x" "x < 2 ^ Suc h"
  then obtain s t where f: "s \<le> h" "t < 2 ^ (h - s)" "x = (2 * t + 1) * 2 ^ s" by (rule rank_form)
  then show ?thesis using full_rank_eq [OF f(1,2)] full_node_eq [of h t s] by simp
qed

lemma full_rank_child:
  assumes "0 < i" "lg i < h"
  shows "full_rank h (2 * i) + 2 ^ (h - Suc (lg i)) = full_rank h i"
    and "full_rank h (2 * i + 1) = full_rank h i + 2 ^ (h - Suc (lg i))"
proof -
  obtain t where t: "i = t + 2 ^ lg i" using lg_bounds(1) [OF assms(1)] by (metis le_add_diff_inverse2)
  have p: "(2::nat) ^ (h - lg i) = 2 * 2 ^ (h - Suc (lg i))"
    using assms(2) by (metis Suc_diff_Suc power_Suc)
  have r: "full_rank h i = (2 * t + 1) * (2 * 2 ^ (h - Suc (lg i)))"
    using t by (simp add: full_rank_def p [symmetric])
  have "2 * i - 2 ^ lg (2 * i) = 2 * t" "2 * i + 1 - 2 ^ lg (2 * i + 1) = 2 * t + 1"
    using t lg_child [OF assms(1)] by simp_all
  then have "full_rank h (2 * i) = (4 * t + 1) * 2 ^ (h - Suc (lg i))"
      "full_rank h (2 * i + 1) = (4 * t + 3) * 2 ^ (h - Suc (lg i))"
    using lg_child [OF assms(1)] by (simp_all add: full_rank_def algebra_simps)
  then show "full_rank h (2 * i) + 2 ^ (h - Suc (lg i)) = full_rank h i"
    "full_rank h (2 * i + 1) = full_rank h i + 2 ^ (h - Suc (lg i))"
    unfolding r by (simp_all add: algebra_simps)
qed

text \<open>A subtree occupies an interval of ranks around its root.\<close>

lemma inorder_rank_range:
  assumes "j \<in> set (inorder n i)" "lg n \<le> h"
  shows "full_rank h i < full_rank h j + 2 ^ (h - lg i) \<and> full_rank h j < full_rank h i + 2 ^ (h - lg i)"
  using assms
proof (induction n i rule: inorder.induct)
  case (1 n i)
  have ni: "\<not> (i = 0 \<or> n < i)"
  proof
    assume "i = 0 \<or> n < i"
    then have "inorder n i = []" by auto
    then show False using "1.prems"(1) by simp
  qed
  then have i: "0 < i" "i \<le> n" by simp_all
  show ?case
  proof (cases "j = i")
    case False
    then have j: "j \<in> set (inorder n (2 * i)) \<or> j \<in> set (inorder n (2 * i + 1))"
      using "1.prems"(1) i by (auto simp: inorder_node)
    then have "2 * i \<le> n" using in_inorder [of j n "2 * i"] in_inorder [of j n "2 * i + 1"] by auto
    then have "lg (2 * i) \<le> lg n" using i by (intro lg_mono) simp_all
    then have l: "lg i < h" using "1.prems"(2) lg_child(1) [OF i(1)] by simp
    then have p: "(2::nat) ^ (h - lg i) = 2 * 2 ^ (h - Suc (lg i))" by (metis Suc_diff_Suc power_Suc)
    note c = full_rank_child [OF i(1) l]
    from j show ?thesis
    proof
      assume "j \<in> set (inorder n (2 * i))"
      from "1.IH"(1) [OF ni this "1.prems"(2)] show ?thesis
        unfolding lg_child(1) [OF i(1)] p using c(1) by linarith
    next
      assume "j \<in> set (inorder n (2 * i + 1))"
      from "1.IH"(2) [OF ni this "1.prems"(2)] show ?thesis
        unfolding lg_child(2) [OF i(1)] p using c(2) by linarith
    qed
  qed simp
qed

lemma inorder_rank_sorted: "lg n \<le> h \<Longrightarrow> sorted_wrt (<) (map (full_rank h) (inorder n i))"
proof (induction n i rule: inorder.induct)
  case (1 n i)
  show ?case
  proof (cases "i = 0 \<or> n < i")
    case False
    then have i: "0 < i" "i \<le> n" by simp_all
    have lt: "full_rank h j < full_rank h i" if "j \<in> set (inorder n (2 * i))" for j
    proof -
      have "lg (2 * i) \<le> lg n" using in_inorder [OF that] i by (intro lg_mono) simp_all
      then have "lg i < h" using "1.prems" lg_child(1) [OF i(1)] by simp
      from full_rank_child(1) [OF i(1) this] show ?thesis
        using inorder_rank_range [OF that "1.prems"] lg_child(1) [OF i(1)] by simp
    qed
    have gt: "full_rank h i < full_rank h j" if "j \<in> set (inorder n (2 * i + 1))" for j
    proof -
      have "lg (2 * i + 1) \<le> lg n" using in_inorder [OF that] i by (intro lg_mono) simp_all
      then have "lg i < h" using "1.prems" lg_child(2) [OF i(1)] by simp
      from full_rank_child(2) [OF i(1) this] show ?thesis
        using inorder_rank_range [OF that "1.prems"] lg_child(2) [OF i(1)] by simp
    qed
    have "sorted_wrt (<) (map (full_rank h) (inorder n (2 * i)))"
      "sorted_wrt (<) (map (full_rank h) (inorder n (2 * i + 1)))"
      using "1.IH" False "1.prems" by simp_all
    then show ?thesis
      using lt gt by (auto simp: inorder_node [OF i] sorted_wrt_append intro: less_trans)
  qed auto
qed

lemma set_inorder: "set (inorder n 1) = {1..n}"
proof -
  have "j \<in> set (inorder n (j div 2 ^ k))" if "0 < j div 2 ^ k" "j \<le> n" for j k
    using that
  proof (induction k)
    case 0
    then show ?case by (simp add: inorder_node)
  next
    case (Suc k)
    let ?c = "j div 2 ^ k" and ?p = "j div 2 ^ Suc k"
    have p: "?p = ?c div 2" by (simp add: div_mult2_eq [symmetric] mult.commute)
    then have c: "0 < ?c" "?c = 2 * ?p \<or> ?c = 2 * ?p + 1" using Suc.prems(1) by auto
    have "?p \<le> n" using Suc.prems(2) div_le_dividend [of j "2 ^ Suc k"] by linarith
    moreover have "j \<in> set (inorder n ?c)" using Suc c(1) by simp
    ultimately show ?case using c(2) inorder_node [of ?p n] Suc.prems(1) by fastforce
  qed
  moreover have "j div 2 ^ lg j = 1" if "0 < j" for j
    using lg_bounds [of j] that by (intro div_nat_eqI) simp_all
  ultimately have "j \<in> set (inorder n 1)" if "0 < j" "j \<le> n" for j using that by (metis less_one)
  then show ?thesis using in_inorder [of _ n 1] by fastforce
qed

lemma length_inorder: "length (inorder n 1) = n"
proof -
  have "distinct (map (full_rank (lg n)) (inorder n 1))"
    using inorder_rank_sorted [of n "lg n" 1] strict_sorted_iff by blast
  then have "distinct (inorder n 1)" by (simp add: distinct_map)
  then show ?thesis using distinct_card [of "inorder n 1"] unfolding set_inorder by simp
qed

section \<open>Positions in a tree that is not full\<close>

text \<open>
  With \<open>n\<close> nodes the last level has \<open>extra / 2\<close> nodes, so the first \<open>extra\<close> ranks of the full
  tree are all present and after them only the even ones.
\<close>

definition extra :: "nat \<Rightarrow> nat" where
  "extra n = 2 * (n + 1 - 2 ^ lg n)"

definition spread :: "nat \<Rightarrow> nat \<Rightarrow> nat" where
  "spread n k = (if k > extra n then k + (k - extra n) else k)"

definition squeeze :: "nat \<Rightarrow> nat \<Rightarrow> nat" where
  "squeeze n x = (if x > extra n then x - (x - extra n) div 2 else x)"

lemma squeeze_spread: "squeeze n (spread n k) = k"
  by (auto simp: squeeze_def spread_def)

lemma extra_bounds:
  assumes "0 < n"
  shows "extra n \<le> n + 1" "n + 1 = 2 ^ lg n + extra n div 2" "even (extra n)" "n < 2 ^ Suc (lg n)"
  using lg_bounds [of n] assms by (auto simp: extra_def)

lemma spread_strict_mono: "k < k' \<Longrightarrow> spread n k < spread n k'"
  by (auto simp: spread_def)

text \<open>Which ranks of the full tree are nodes.\<close>

lemma full_node_le_iff:
  assumes n: "0 < n" and x: "0 < x" "x < 2 ^ Suc (lg n)"
  shows "full_node (lg n) x \<le> n \<longleftrightarrow> even x \<or> x < extra n"
proof -
  obtain s t where f: "s \<le> lg n" "t < 2 ^ (lg n - s)" "x = (2 * t + 1) * 2 ^ s"
    using x by (rule rank_form)
  have node: "full_node (lg n) x = t + 2 ^ (lg n - s)" using f(3) full_node_eq by simp
  show ?thesis
  proof (cases s)
    case 0
    then show ?thesis using node f(3) extra_bounds(2,3) [OF n] by (auto elim!: evenE)
  next
    case (Suc s')
    then have "Suc (lg n - s) \<le> lg n" using f(1) by simp
    then have "(2::nat) ^ Suc (lg n - s) \<le> 2 ^ lg n" by (rule power_increasing) simp
    then have "full_node (lg n) x < 2 ^ lg n" using node f(2) by simp
    then show ?thesis using lg_bounds(1) [OF n] f(3) Suc by simp
  qed
qed

lemma spread_range:
  assumes n: "0 < n" and k: "0 < k" "k \<le> n"
  shows "0 < spread n k" "spread n k < 2 ^ Suc (lg n)" "even (spread n k) \<or> spread n k < extra n"
proof -
  note e = extra_bounds [OF n]
  obtain m where m: "extra n = 2 * m" using e(3) by (elim evenE)
  show "0 < spread n k" using k by (simp add: spread_def)
  show "spread n k < 2 ^ Suc (lg n)" using e k m by (auto simp: spread_def)
  show "even (spread n k) \<or> spread n k < extra n"
    using m by (auto simp: spread_def) presburger+
qed

lemma spread_squeeze:
  assumes n: "0 < n" and x: "0 < x" "x < 2 ^ Suc (lg n)" "even x \<or> x < extra n"
  shows "spread n (squeeze n x) = x" "0 < squeeze n x" "squeeze n x \<le> n"
proof -
  note e = extra_bounds [OF n]
  obtain m where m: "extra n = 2 * m" using e(3) by (elim evenE)
  have "spread n (squeeze n x) = x \<and> 0 < squeeze n x \<and> squeeze n x \<le> n"
  proof (cases "x > extra n")
    case True
    with x(3) obtain y where y: "x = 2 * y" by (auto elim: evenE)
    then show ?thesis using True m e(2) x by (auto simp: spread_def squeeze_def)
  next
    case False
    have "x \<le> n"
    proof (rule ccontr)
      assume "\<not> x \<le> n"
      then have "x = n + 1" "extra n = n + 1" using False e(1) by simp_all
      then have "n + 1 = 2 * m" "n + 1 = 2 ^ lg n + m" using e(2) m by simp_all
      then have "n + 1 = 2 ^ Suc (lg n)" by simp
      with \<open>x = n + 1\<close> x(2) show False by simp
    qed
    then show ?thesis using False x by (simp add: spread_def squeeze_def)
  qed
  then show "spread n (squeeze n x) = x" "0 < squeeze n x" "squeeze n x \<le> n" by blast+
qed

lemma full_rank_range:
  assumes "0 < i" "lg i \<le> h"
  shows "0 < full_rank h i" "full_rank h i < 2 ^ Suc h"
proof -
  obtain s t where f: "s \<le> h" "t < 2 ^ (h - s)" "i = t + 2 ^ (h - s)" using assms by (rule node_form)
  have r: "full_rank h i = (2 * t + 1) * 2 ^ s" using full_rank_eq [OF f(1,2)] f(3) by simp
  then show "0 < full_rank h i" by simp
  have "(2 * t + 1) * 2 ^ s < (2 * 2 ^ (h - s)) * 2 ^ s" using f(2) by (simp only: mult_less_cancel2) simp
  also have "\<dots> = 2 ^ Suc h" using f(1) by (simp add: power_add [symmetric])
  finally show "full_rank h i < 2 ^ Suc h" by (simp only: r)
qed

lemma inorder_nth:
  assumes n: "0 < n" and k: "k < n"
  shows "full_rank (lg n) (inorder n 1 ! k) = spread n (Suc k)"
proof -
  let ?A = "map (full_rank (lg n)) (inorder n 1)" and ?B = "map (spread n) [1..<Suc n]"
  have "sorted_wrt (<) ?A" by (rule inorder_rank_sorted) simp
  moreover have "sorted_wrt (<) ?B"
    unfolding sorted_wrt_map
    by (rule sorted_wrt_mono_rel [OF _ sorted_wrt_upt]) (simp add: spread_strict_mono)
  moreover have "set ?A = set ?B"
  proof
    show "set ?B \<subseteq> set ?A"
    proof
      fix x assume "x \<in> set ?B"
      then obtain k where "k \<in> {1..<Suc n}" "x = spread n k" by (metis imageE list.set_map set_upt)
      then have k: "0 < k" "k \<le> n" "x = spread n k" by simp_all
      note r = spread_range [OF n k(1,2), folded k(3)]
      have "full_node (lg n) x \<le> n" using full_node_le_iff [OF n r(1,2)] r(3) by blast
      moreover have "0 < full_node (lg n) x" by (simp add: full_node_def)
      ultimately have "full_node (lg n) x \<in> set (inorder n 1)" by (simp only: set_inorder) simp
      then show "x \<in> set ?A" using full_rank_node [OF r(1,2)] by (metis imageI list.set_map)
    qed
    show "set ?A \<subseteq> set ?B"
    proof
      fix x assume "x \<in> set ?A"
      then obtain i where "i \<in> {1..n}" "x = full_rank (lg n) i" by (metis imageE list.set_map set_inorder)
      then have i: "0 < i" "i \<le> n" "x = full_rank (lg n) i" by simp_all
      have l: "lg i \<le> lg n" using i by (simp add: lg_mono)
      have x: "0 < x" "x < 2 ^ Suc (lg n)" unfolding i(3) using full_rank_range [OF i(1) l] by simp_all
      have "full_node (lg n) x = i" using full_node_rank [OF i(1) l] i(3) by simp
      then have "even x \<or> x < extra n" using full_node_le_iff [OF n x] i(2) by simp
      from spread_squeeze [OF n x this] show "x \<in> set ?B"
        by (metis atLeastLessThan_iff image_eqI less_Suc_eq_le list.set_map set_upt Suc_leI One_nat_def)
    qed
  qed
  ultimately have "?A = ?B"
    by (metis strict_sorted_equal)
  then have "?A ! k = ?B ! k" by (simp only:)
  then show ?thesis using k length_inorder [of n] by (simp del: upt_Suc)
qed

section \<open>Stepping\<close>

text \<open>
  The leftmost and rightmost nodes of a subtree, as the shifts of the code compute them, are
  the first and the last of its traversal.
\<close>

definition leftmost :: "nat \<Rightarrow> nat \<Rightarrow> nat" where
  "leftmost n j = (let i = j * 2 ^ (lg n - lg j) in if i > n then i div 2 else i)"

definition rightmost :: "nat \<Rightarrow> nat \<Rightarrow> nat" where
  "rightmost n j = (let i = (j + 1) * 2 ^ (lg n - lg j) - 1 in if i > n then i div 2 else i)"

lemma lg_last_level: "0 < j \<Longrightarrow> j \<le> n \<Longrightarrow> n \<le> 2 * j + 1 \<Longrightarrow> lg n = lg j \<or> lg n = Suc (lg j)"
  using lg_mono [of j n] lg_mono [of n "2 * j + 1"] lg_child(2) [of j] by auto

lemma hd_inorder: "0 < j \<Longrightarrow> j \<le> n \<Longrightarrow> hd (inorder n j) = leftmost n j"
proof (induction n j rule: inorder.induct)
  case (1 n j)
  show ?case
  proof (cases "2 * j \<le> n")
    case True
    have "lg (2 * j) \<le> lg n" using True "1.prems" by (intro lg_mono) simp_all
    then have "(2::nat) ^ (lg n - lg j) = 2 * 2 ^ (lg n - lg (2 * j))"
      using lg_child(1) "1.prems"(1) by (metis Suc_diff_Suc Suc_le_lessD power_Suc)
    then have "leftmost n (2 * j) = leftmost n j" by (simp add: leftmost_def mult.assoc mult.left_commute)
    moreover have "inorder n (2 * j) \<noteq> []" using True "1.prems" by (simp add: inorder_node)
    ultimately show ?thesis using "1.IH"(1) "1.prems" True by (simp add: inorder_node [of j n])
  next
    case False
    then have "hd (inorder n j) = j" using "1.prems" by (simp add: inorder_node)
    then show ?thesis using False "1.prems" lg_last_level [of j n] by (auto simp: leftmost_def)
  qed
qed

lemma last_inorder: "0 < j \<Longrightarrow> j \<le> n \<Longrightarrow> last (inorder n j) = rightmost n j"
proof (induction n j rule: inorder.induct)
  case (1 n j)
  show ?case
  proof (cases "2 * j + 1 \<le> n")
    case True
    have "lg (2 * j + 1) \<le> lg n" using True by (intro lg_mono) simp_all
    then have "(2::nat) ^ (lg n - lg j) = 2 * 2 ^ (lg n - lg (2 * j + 1))"
      using lg_child(2) "1.prems"(1) by (metis Suc_diff_Suc Suc_le_lessD power_Suc)
    moreover have "(2 * j + 1 + 1) * X = (j + 1) * (2 * X)" for X :: nat by simp
    ultimately have "(2 * j + 1 + 1) * 2 ^ (lg n - lg (2 * j + 1)) = (j + 1) * 2 ^ (lg n - lg j)"
      by (simp only:)
    then have "rightmost n (2 * j + 1) = rightmost n j" by (simp only: rightmost_def)
    moreover have "inorder n (2 * j + 1) \<noteq> []" using True "1.prems" by (simp add: inorder_node)
    moreover have "last (inorder n (2 * j + 1)) = rightmost n (2 * j + 1)"
      using "1.prems" True by (intro "1.IH"(2)) simp_all
    ultimately show ?thesis using "1.prems" by (simp add: inorder_node [of j n])
  next
    case False
    then have "last (inorder n j) = j" using "1.prems" by (simp add: inorder_node)
    then show ?thesis using False "1.prems" lg_last_level [of j n] by (auto simp: rightmost_def)
  qed
qed

definition next_node :: "nat \<Rightarrow> nat \<Rightarrow> nat" where
  "next_node n i = (if 2 * i + 1 \<le> n then leftmost n (2 * i + 1) else up_gt i)"

definition prev_node :: "nat \<Rightarrow> nat \<Rightarrow> nat" where
  "prev_node n i = (if 2 * i \<le> n then rightmost n (2 * i) else up_le i)"

lemma inorder_next: "0 < j \<Longrightarrow> successively (\<lambda>a b. next_node n a = b) (inorder n j @ [up_gt j])"
proof (induction n j rule: inorder.induct)
  case (1 n j)
  show ?case
  proof (cases "n < j")
    case False
    let ?L = "inorder n (2 * j)" and ?R = "inorder n (2 * j + 1)"
    have "successively (\<lambda>a b. next_node n a = b) (?L @ [j])"
      using "1.IH"(1) "1.prems" False by simp
    moreover have "successively (\<lambda>a b. next_node n a = b) (?R @ [up_gt j])"
      using "1.IH"(2) "1.prems" False up_gt_right [of j] by simp
    moreover have "next_node n j = hd (?R @ [up_gt j])"
    proof (cases "2 * j + 1 \<le> n")
      case True
      then have "?R \<noteq> []" by (simp add: inorder_node)
      then show ?thesis using True hd_inorder [of "2 * j + 1" n] by (simp add: next_node_def)
    qed (simp add: next_node_def)
    ultimately have "successively (\<lambda>a b. next_node n a = b) ((?L @ [j]) @ (?R @ [up_gt j]))"
      by (subst successively_append_iff) simp
    then show ?thesis using False "1.prems" by (simp add: inorder_node [of j n])
  qed simp
qed

lemma inorder_prev: "0 < j \<Longrightarrow> successively (\<lambda>a b. prev_node n b = a) (up_le j # inorder n j)"
proof (induction n j rule: inorder.induct)
  case (1 n j)
  show ?case
  proof (cases "n < j")
    case False
    let ?L = "inorder n (2 * j)" and ?R = "inorder n (2 * j + 1)"
    have "successively (\<lambda>a b. prev_node n b = a) (up_le j # ?L)"
      using "1.IH"(1) "1.prems" False by simp
    moreover have "successively (\<lambda>a b. prev_node n b = a) (j # ?R)"
      using "1.IH"(2) "1.prems" False up_le_right [of j] by simp
    moreover have "prev_node n j = last (up_le j # ?L)"
    proof (cases "2 * j \<le> n")
      case True
      then have "?L \<noteq> []" using "1.prems" by (simp add: inorder_node)
      then show ?thesis using True "1.prems" last_inorder [of "2 * j" n] by (simp add: prev_node_def)
    qed (simp add: prev_node_def)
    ultimately have "successively (\<lambda>a b. prev_node n b = a) ((up_le j # ?L) @ (j # ?R))"
      by (subst successively_append_iff) simp
    then show ?thesis using False "1.prems" by (simp add: inorder_node [of j n])
  qed simp
qed

end
