(* ===== verification/Eytzinger_Index.thy ===== *)
theory Eytzinger_Index
  imports Eytzinger "HOL-Library.Multiset"
begin

unbundle bit_operations_syntax

text \<open>
  The 32 bit index functions of \<^verbatim>\<open>libbcachefs/eytzinger.h\<close> against the in-order traversal, for
  trees of fewer than \<open>2\<^sup>3\<^sup>1\<close> nodes: the range in which neither the shifts nor the sign-bit
  tricks overflow.
\<close>

section \<open>Words\<close>

lemma fls_word_lg [simp]: "fls_word w = lg (unat w)"
  by (simp add: fls_word_def lg_def)

lemma lg_less: "n < 2 ^ k \<Longrightarrow> 0 < n \<Longrightarrow> lg n < k"
  using fls_nat_le_iff [of n k] fls_nat_eq_0_iff [of n] unfolding lg_def by arith

lemma unat_push_1: "b < 32 \<Longrightarrow> unat (push_bit b 1 :: u32) = 2 ^ b"
proof -
  assume "b < 32"
  then have "(2::nat) ^ b < 2 ^ 32" by (intro power_strict_increasing) simp_all
  then show ?thesis by (subst unat_push_bit_less) simp_all
qed

lemma unat_rounddown: "0 < unat n \<Longrightarrow> unat (rounddown_pow_of_two n) = 2 ^ lg (unat n)"
  unfolding rounddown_pow_of_two_def fls_word_lg
  using lg_less [of "unat n" 32] unat_less [of n] by (intro unat_push_1) simp

lemma unat_add_small: "unat a + unat b < 2 ^ 32 \<Longrightarrow> unat (a + b :: u32) = unat a + unat b"
  by (simp add: unat_word_ariths)

lemma unat_sub_small: "unat b \<le> unat a \<Longrightarrow> unat (a - b :: u32) = unat a - unat b"
  by (simp add: unat_sub word_le_nat_alt)

lemma unat_double: "unat i < 2 ^ 31 \<Longrightarrow> unat (push_bit 1 i :: u32) = 2 * unat i"
  by (subst unat_push_bit_less) simp_all

lemma unat_children:
  assumes "unat i < 2 ^ 31"
  shows "unat (eytzinger1_left_child i) = 2 * unat i" "unat (eytzinger1_right_child i) = 2 * unat i + 1"
proof -
  note d = unat_double [OF assms]
  show "unat (eytzinger1_left_child i) = 2 * unat i"
    unfolding eytzinger1_left_child_def eytzinger1_child_def by (simp only: d add_0_right)
  show "unat (eytzinger1_right_child i) = 2 * unat i + 1"
    unfolding eytzinger1_right_child_def eytzinger1_child_def
    using assms by (subst unat_add_small) (simp_all only: d unat_1, simp)
qed

lemma signed_take_bit_small: "- (2 ^ 31) \<le> k \<Longrightarrow> k < 2 ^ 31 \<Longrightarrow> signed_take_bit 31 k = (k::int)"
  by (rule signed_take_bit_int_eq_self)

lemma int_less_31: "n < 2 ^ 31 \<Longrightarrow> int n < 2 ^ 31"
  by simp

lemma length_32: "LENGTH(32) - 1 = 31" "LENGTH(32) - Suc 0 = 31"
  by simp_all

lemma sint_small: "unat c < 2 ^ 31 \<Longrightarrow> sint (c :: u32) = int (unat c)"
proof -
  assume "unat c < 2 ^ 31"
  then have "int (unat c) < 2 ^ 31" by (rule int_less_31)
  then have "uint c < 2 ^ 31" by (simp only: of_nat_unat)
  moreover have "0 \<le> uint c" by simp
  then have "- (2 ^ 31) \<le> uint c" by (rule order_trans [rotated]) simp
  ultimately have "signed_take_bit 31 (uint c) = uint c" by (intro signed_take_bit_small)
  then show ?thesis by (simp only: sint_uint length_32 of_nat_unat)
qed

lemma sint_diff_small:
  assumes "unat a < 2 ^ 31" "unat b < 2 ^ 31"
  shows "sint (a - b :: u32) = int (unat a) - int (unat b)"
proof -
  have "sint (a - b) = signed_take_bit 31 (int (unat a) - int (unat b))"
    by (simp only: sint_word_ariths length_32 sint_small [OF assms(1)] sint_small [OF assms(2)])
  also have "\<dots> = int (unat a) - int (unat b)"
    by (rule signed_take_bit_small) (use assms [THEN int_less_31] in linarith)+
  finally show ?thesis .
qed

lemma and_sign: "a AND signed_drop_bit 31 s = (if sint s < 0 then a else 0)" for a s :: u32
proof -
  have "sint (signed_drop_bit 31 s) = sint s div 2 ^ 31"
    by (simp add: sint_signed_drop_bit_eq drop_bit_eq_div)
  moreover have "sint s < 2 ^ 31" "- (2 ^ 31) \<le> sint s"
    using sint_lt [of s] sint_ge [of s] by simp_all
  ultimately have "sint (signed_drop_bit 31 s) = sint (if sint s < 0 then - 1 else 0 :: u32)" by auto
  then have "signed_drop_bit 31 s = (if sint s < 0 then - 1 else 0)" by (simp only: signed_word_eqI)
  then show ?thesis by simp
qed

lemma sint_diff_31:
  assumes "unat a \<le> 2 ^ 31" "0 < unat b" "unat b < 2 ^ 31"
  shows "sint (a - b :: u32) = int (unat a) - int (unat b)"
proof (cases "unat b \<le> unat a")
  case True
  then have u: "unat (a - b) = unat a - unat b" by (rule unat_sub_small)
  then have "unat (a - b) < 2 ^ 31" using assms by linarith
  then show ?thesis using u True by (simp only: sint_small of_nat_diff)
next
  case False
  then show ?thesis using assms by (intro sint_diff_small) linarith+
qed

section \<open>Stepping\<close>

lemma lg_1: "lg 1 = 0"
  by (rule lg_eqI) simp_all

lemma unat_first: "0 < unat sz \<Longrightarrow> unat (eytzinger1_first sz) = hd (inorder (unat sz) 1)"
  using lg_bounds [of "unat sz"] hd_inorder [of 1 "unat sz"] unat_rounddown [of sz]
  by (auto simp: eytzinger1_first_def leftmost_def lg_1 simp flip: One_nat_def)

lemma unat_leftmost:
  fixes j sz :: u32
  assumes "0 < unat j" "unat j \<le> unat sz" "unat sz < 2 ^ 31"
  shows "unat (let i = push_bit (fls_word sz - fls_word j) j in drop_bit (of_bool (i > sz)) i) =
    leftmost (unat sz) (unat j)"
proof -
  let ?m = "unat j * 2 ^ (lg (unat sz) - lg (unat j))"
  have l: "lg (unat j) \<le> lg (unat sz)" "lg (unat sz) < 31" using assms lg_less [of "unat sz" 31] by (auto intro: lg_mono)
  have "?m < 2 ^ Suc (lg (unat j)) * 2 ^ (lg (unat sz) - lg (unat j))"
    using lg_bounds(2) [of "unat j"] by (simp only: mult_less_cancel2) simp
  also have "\<dots> = 2 ^ Suc (lg (unat sz))" using l(1) by (simp add: power_add [symmetric])
  also have "\<dots> \<le> 2 ^ 32" using l(2) by (intro power_increasing) simp_all
  finally have "?m < 2 ^ LENGTH(32)" by simp
  then have "unat (push_bit (fls_word sz - fls_word j) j) = ?m" unfolding fls_word_lg by (rule unat_push_bit_less)
  then show ?thesis by (simp add: Let_def leftmost_def unat_drop_bit word_less_nat_alt del: fls_word_lg)
qed

lemma unat_rightmost:
  fixes j sz :: u32
  assumes "0 < unat j" "unat j \<le> unat sz" "unat sz < 2 ^ 31" "even (unat j)"
  shows "unat (let i = j + 1; i = push_bit (fls_word sz - fls_word i) i; i = i - 1 in drop_bit (of_bool (i > sz)) i) =
    rightmost (unat sz) (unat j)"
proof -
  have j1: "unat (j + 1) = unat j + 1" using assms by (subst unat_add_small) simp_all
  obtain k where k: "unat j = 2 * k" "0 < k" using assms(1,4) by (auto elim: evenE)
  then have lgj: "lg (unat j + 1) = lg (unat j)" using lg_child [of k] by simp
  let ?m = "(unat j + 1) * 2 ^ (lg (unat sz) - lg (unat j))"
  have l: "lg (unat j) \<le> lg (unat sz)" "lg (unat sz) < 31" using assms lg_less [of "unat sz" 31] by (auto intro: lg_mono)
  have "?m < 2 ^ Suc (lg (unat j)) * 2 ^ (lg (unat sz) - lg (unat j))"
    using lg_bounds(2) [of "unat j + 1"] unfolding lgj by (simp only: mult_less_cancel2) simp
  also have "\<dots> = 2 ^ Suc (lg (unat sz))" using l(1) by (simp add: power_add [symmetric])
  also have "\<dots> \<le> 2 ^ 32" using l(2) by (intro power_increasing) simp_all
  finally have "?m < 2 ^ LENGTH(32)" by simp
  then have "unat (push_bit (fls_word sz - fls_word (j + 1)) (j + 1)) = ?m"
    unfolding fls_word_lg j1 lgj using unat_push_bit_less [of "j + 1"] j1 by simp
  moreover have "0 < ?m" by simp
  ultimately have "unat (push_bit (fls_word sz - fls_word (j + 1)) (j + 1) - 1) = ?m - 1"
    by (subst unat_sub_small) (simp_all only: unat_1 Suc_leI One_nat_def)
  then show ?thesis by (simp add: Let_def rightmost_def unat_drop_bit word_less_nat_alt del: fls_word_lg)
qed

lemma low_bits: "n = 2 ^ Suc k * q + (2 ^ k - 1) \<Longrightarrow> n mod 2 ^ Suc k = 2 ^ k - (1::nat)"
proof -
  have "2 ^ k - (1::nat) < 2 ^ Suc k" by (simp add: less_imp_diff_less)
  then show "n = 2 ^ Suc k * q + (2 ^ k - 1) \<Longrightarrow> ?thesis" by (simp only: mod_mult_self4 mod_less)
qed

lemma unat_ups:
  fixes i :: u32
  assumes "0 < unat i" "unat i < 2 ^ 31"
  shows "unat (drop_bit (ffz_word i + 1) i) = up_gt (unat i)" "unat (drop_bit (ffs_word i + 1) i) = up_le (unat i)"
proof -
  let ?k = "ffs_nat (unat i + 1)"
  obtain r where r: "odd r" "unat i + 1 = 2 ^ ?k * r" using ffs_nat_decomp [of "unat i + 1"] by auto
  then obtain q where q: "r = 2 * q + 1" by (auto elim: oddE)
  have "0 < (2::nat) ^ ?k" by simp
  then have "unat i = 2 ^ Suc ?k * q + (2 ^ ?k - 1)" using r(2) unfolding q by (simp add: algebra_simps)
  then have "unat i mod 2 ^ Suc ?k = 2 ^ ?k - 1" by (rule low_bits)
  moreover have "2 ^ ?k < (2::nat) ^ 32" using pow2_ffs_nat_le [of "unat i + 1"] assms(2) by simp
  then have "?k < 32" by (simp only: power_strict_increasing_iff)
  ultimately have "ffz_word i = ?k" by (intro ffz_word_eqI) simp_all
  then show "unat (drop_bit (ffz_word i + 1) i) = up_gt (unat i)" by (simp add: unat_drop_bit up_gt_def)
  show "unat (drop_bit (ffs_word i + 1) i) = up_le (unat i)"
    by (simp add: unat_drop_bit up_le_def ffs_word_def)
qed

lemma unat_next:
  assumes "0 < unat i" "unat i \<le> unat sz" "unat sz < 2 ^ 31"
  shows "unat (eytzinger1_next i sz) = next_node (unat sz) (unat i)"
proof -
  have i: "unat i < 2 ^ 31" using assms by simp
  note c = unat_children(2) [OF i]
  show ?thesis
  proof (cases "2 * unat i + 1 \<le> unat sz")
    case True
    then have "unat (eytzinger1_next i sz) = leftmost (unat sz) (unat (eytzinger1_right_child i))"
      unfolding eytzinger1_next_def word_le_nat_alt c if_P [OF True] Let_def
      using unat_leftmost [of "eytzinger1_right_child i" sz] assms(3) c by (simp only: Let_def)
    then show ?thesis using True by (simp add: next_node_def c)
  next
    case False
    then show ?thesis using unat_ups(1) [OF assms(1) i] by (simp add: eytzinger1_next_def word_le_nat_alt c next_node_def)
  qed
qed

lemma unat_prev:
  assumes "0 < unat i" "unat i \<le> unat sz" "unat sz < 2 ^ 31"
  shows "unat (eytzinger1_prev i sz) = prev_node (unat sz) (unat i)"
proof -
  have i: "unat i < 2 ^ 31" using assms by simp
  note c = unat_children(1) [OF i]
  show ?thesis
  proof (cases "2 * unat i \<le> unat sz")
    case True
    then have "unat (eytzinger1_prev i sz) = rightmost (unat sz) (unat (eytzinger1_left_child i))"
      unfolding eytzinger1_prev_def word_le_nat_alt c if_P [OF True] Let_def
      using unat_rightmost [of "eytzinger1_left_child i" sz] assms c by (simp add: Let_def del: fls_word_lg)
    then show ?thesis using True by (simp add: prev_node_def c)
  next
    case False
    then show ?thesis using unat_ups(2) [OF assms(1) i] by (simp add: eytzinger1_prev_def word_le_nat_alt c prev_node_def)
  qed
qed

lemma unat_last: "0 < unat sz \<Longrightarrow> unat sz < 2 ^ 31 \<Longrightarrow> unat (eytzinger1_last sz) = last (inorder (unat sz) 1)"
proof -
  let ?n = "unat sz"
  assume n: "0 < ?n" "?n < 2 ^ 31"
  then have 1: "unat (sz + 1) = ?n + 1" by (subst unat_add_small) simp_all
  have "0 < (2::nat) ^ lg (?n + 1)" by simp
  then have e: "unat (eytzinger1_last sz) = 2 ^ lg (?n + 1) - 1"
    unfolding eytzinger1_last_def using unat_rounddown [of "sz + 1"] 1 by (subst unat_sub_small) simp_all
  have "2 ^ lg (?n + 1) - 1 = rightmost ?n 1"
  proof (cases "?n + 1 = 2 ^ Suc (lg ?n)")
    case True
    then have "lg (?n + 1) = Suc (lg ?n)" by (intro lg_eqI) simp_all
    moreover have "\<not> 2 * 2 ^ lg ?n - 1 > ?n" using True by simp
    ultimately show ?thesis by (simp add: rightmost_def lg_1 Let_def flip: One_nat_def)
  next
    case False
    then have "lg (?n + 1) = lg ?n" using lg_bounds [of ?n] n by (intro lg_eqI) simp_all
    moreover have "2 * 2 ^ lg ?n - 1 > ?n" using False lg_bounds(2) [of ?n] by simp
    moreover have "(2 * 2 ^ lg ?n - 1) div 2 = 2 ^ lg ?n - (1::nat)" by linarith
    ultimately show ?thesis by (simp add: rightmost_def lg_1 Let_def flip: One_nat_def)
  qed
  then show ?thesis using e last_inorder [of 1 ?n] n by simp
qed

section \<open>Conversions\<close>

lemma unat_extra:
  assumes "0 < unat sz" "unat sz < 2 ^ 31"
  shows "unat (eytzinger1_extra sz) = extra (unat sz)"
proof -
  have 1: "unat (sz + 1) = unat sz + 1" using assms by (subst unat_add_small) simp_all
  have l: "2 ^ lg (unat sz) \<le> unat sz" using assms lg_bounds by blast
  then have 2: "unat (sz + 1 - rounddown_pow_of_two sz) = unat sz + 1 - 2 ^ lg (unat sz)"
    using unat_rounddown [OF assms(1)] 1 by (subst unat_sub_small) simp_all
  have "0 < (2::nat) ^ lg (unat sz)" by simp
  then have "unat sz + 1 - 2 ^ lg (unat sz) \<le> unat sz" by linarith
  then have "unat (sz + 1 - rounddown_pow_of_two sz) < 2 ^ 31" unfolding 2 using assms(2) by linarith
  then have "unat (push_bit 1 (sz + 1 - rounddown_pow_of_two sz)) = extra (unat sz)"
    unfolding extra_def by (simp only: unat_double 2)
  then show ?thesis using assms(1) by (auto simp only: eytzinger1_extra_def unat_0 split: if_splits)
qed

lemma clear_top_bit:
  fixes i :: u32
  assumes "0 < unat i"
  shows "unat (i XOR push_bit (fls_word i) 1) = unat i - 2 ^ lg (unat i)"
proof -
  let ?t = "push_bit (fls_word i) 1 :: u32"
  have l: "lg (unat i) < 32" using lg_less [of "unat i" 32] unat_less [of i] assms by simp
  have t: "unat ?t = 2 ^ lg (unat i)" unfolding fls_word_lg using l by (rule unat_push_1)
  have r: "unat (i - ?t) = unat i - 2 ^ lg (unat i)"
    using lg_bounds(1) [OF assms] t by (subst unat_sub_small) simp_all
  have "?t AND (i - ?t) = 0"
    using lg_bounds [of "unat i"] assms by (intro and_low_high [of _ "lg (unat i)"]) (simp_all only: t r, simp_all)
  then have "?t + (i - ?t) = ?t XOR (i - ?t)" by (rule disjunctive_add_eq_xor)
  then have "i = ?t XOR (i - ?t)" using add_diff_cancel_left' [of ?t i] by (metis add_diff_eq)
  then have "i XOR ?t = i - ?t" by (metis xor.assoc xor.commute xor_self_eq xor.right_neutral)
  then show ?thesis using r by (simp only:)
qed

lemma unat_to_full_rank:
  fixes i sz :: u32
  assumes "0 < unat i" "unat i \<le> unat sz" "unat sz < 2 ^ 31"
  shows "unat (push_bit (fls_word sz - fls_word i) (push_bit 1 (i XOR push_bit (fls_word i) 1) OR 1)) =
    full_rank (lg (unat sz)) (unat i)"
proof -
  let ?r = "unat i - 2 ^ lg (unat i)"
  have "?r < 2 ^ 31" using assms by simp
  then have "unat (push_bit 1 (i XOR push_bit (fls_word i) 1)) = 2 * ?r"
    using unat_double clear_top_bit [OF assms(1)] by metis
  then have 1: "unat (push_bit 1 (i XOR push_bit (fls_word i) 1) OR 1) = 2 * ?r + 1"
    by (subst or_low_high(2) [of _ 1]) simp_all
  have l: "lg (unat i) \<le> lg (unat sz)" "lg (unat sz) < 31" using assms lg_less [of "unat sz" 31] by (auto intro: lg_mono)
  have f: "(2 * ?r + 1) * 2 ^ (lg (unat sz) - lg (unat i)) = full_rank (lg (unat sz)) (unat i)"
    by (simp only: full_rank_def)
  have "full_rank (lg (unat sz)) (unat i) < 2 ^ Suc (lg (unat sz))" using assms(1) l(1) by (rule full_rank_range)
  also have "\<dots> \<le> 2 ^ 32" using l(2) by (intro power_increasing) simp_all
  finally have "full_rank (lg (unat sz)) (unat i) < 2 ^ LENGTH(32)" by simp
  then show ?thesis using unat_push_bit_less 1 f by (metis fls_word_lg)
qed

lemma unat_to_inorder:
  fixes i sz :: u32
  assumes "0 < unat i" "unat i \<le> unat sz" "unat sz < 2 ^ 31"
  shows "unat (eytzinger1_to_inorder i sz) = squeeze (unat sz) (full_rank (lg (unat sz)) (unat i))"
proof -
  define x where "x = push_bit (fls_word sz - fls_word i) (push_bit 1 (i XOR push_bit (fls_word i) 1) OR 1)"
  define e where "e = eytzinger1_extra sz"
  have n: "0 < unat sz" using assms by simp
  have x: "unat x = full_rank (lg (unat sz)) (unat i)" unfolding x_def using assms by (rule unat_to_full_rank)
  have e: "unat e = extra (unat sz)" unfolding e_def using n assms(3) by (rule unat_extra)
  have l: "lg (unat i) \<le> lg (unat sz)" "lg (unat sz) < 31" using assms lg_less [of "unat sz" 31] by (auto intro: lg_mono)
  have def: "eytzinger1_to_inorder i sz = x + (signed_drop_bit 1 (e - x) AND signed_drop_bit 31 (e - x))"
    by (simp only: eytzinger1_to_inorder_def eytzinger1_to_inorder_extra_def x_def e_def Let_def)
  have "unat x < 2 ^ Suc (lg (unat sz))" unfolding x using assms(1) l(1) by (rule full_rank_range)
  also have "\<dots> \<le> 2 ^ 31" using l(2) by (intro power_increasing) simp_all
  finally have x31: "unat x < 2 ^ 31" .
  have e31: "unat e \<le> 2 ^ 31" unfolding e using extra_bounds(1) [OF n] assms(3) by linarith
  have x0: "0 < unat x" unfolding x using assms(1) l(1) by (rule full_rank_range)
  have s: "sint (e - x) = int (unat e) - int (unat x)" using e31 x0 x31 by (rule sint_diff_31)
  show ?thesis
  proof (cases "unat x \<le> unat e")
    case True
    then have "\<not> int (unat e) - int (unat x) < 0" by linarith
    then have "eytzinger1_to_inorder i sz = x" unfolding def and_sign s by (simp only: if_False add_0_right)
    then show ?thesis using True x e by (simp add: squeeze_def)
  next
    case False
    have "even (unat x)"
      using full_node_le_iff [OF n, of "unat x"] full_rank_range [OF assms(1) l(1)] full_node_rank [OF assms(1) l(1)]
        assms(2) False x e by simp
    moreover have "even (unat e)" unfolding e by (rule extra_bounds(3) [OF n])
    ultimately have "even (unat x - unat e)" by (rule dvd_diff_nat)
    then obtain d where "unat x - unat e = 2 * d" by (elim evenE)
    then have d: "unat x = unat e + 2 * d" using False by linarith
    have "sint (signed_drop_bit 1 (e - x)) = - int d"
      unfolding sint_signed_drop_bit_eq s d by (simp add: drop_bit_eq_div)
    then have "of_int (sint (signed_drop_bit 1 (e - x))) = (of_int (- int d) :: u32)" by (simp only:)
    then have sd: "signed_drop_bit 1 (e - x) = - of_nat d" by (simp only: of_int_sint scast_id of_int_minus of_int_of_nat_eq)
    have "int (unat e) - int (unat x) < 0" using False by linarith
    then have "eytzinger1_to_inorder i sz = x + - of_nat d" by (simp only: def and_sign s if_True sd)
    then have "eytzinger1_to_inorder i sz = x - of_nat d" by (simp only: add_uminus_conv_diff)
    moreover have "unat (of_nat d :: u32) = d" using d x31 by (simp add: unat_of_nat)
    moreover from this have "unat (x - of_nat d) = unat x - d" using d by (subst unat_sub_small) simp_all
    ultimately have "unat (eytzinger1_to_inorder i sz) = unat x - d" by (simp only:)
    then show ?thesis using False d x e by (simp add: squeeze_def)
  qed
qed

lemma unat_from_full_rank:
  fixes x sz :: u32
  assumes "0 < unat x" "unat x < 2 ^ Suc (lg (unat sz))" "unat sz < 2 ^ 31" "0 < unat sz"
  shows "unat (drop_bit (ffs_word x + 1) x OR push_bit (fls_word sz - ffs_word x) 1) = full_node (lg (unat sz)) (unat x)"
proof -
  let ?h = "lg (unat sz)"
  obtain s t where f: "s \<le> ?h" "t < 2 ^ (?h - s)" "unat x = (2 * t + 1) * 2 ^ s" using assms(1,2) by (rule rank_form)
  then have k: "ffs_word x = s" using ffs_nat_pow2_mult [of "2 * t + 1" s] by (simp add: ffs_word_def mult.commute)
  have "?h < 31" using assms lg_less by blast
  then have p: "unat (push_bit (fls_word sz - s) 1 :: u32) = 2 ^ (?h - s)" unfolding fls_word_lg by (intro unat_push_1) simp
  have "(2 * t + 1) * 2 ^ s div (2 * 2 ^ s) = (2 * t + 1) div 2" by (rule div_mult_mult2) simp
  then have d: "unat (drop_bit (s + 1) x) = t" by (simp add: unat_drop_bit f(3) mult.commute)
  have "unat (push_bit (fls_word sz - s) 1 OR drop_bit (s + 1) x) = 2 ^ (?h - s) + t"
    using f(2) by (subst or_low_high(2) [of _ "?h - s"]) (simp_all only: p d mod_self)
  then show ?thesis unfolding k f(3) full_node_eq by (simp only: or.commute add.commute)
qed

lemma unat_from_inorder:
  fixes k sz :: u32
  assumes "0 < unat k" "unat k \<le> unat sz" "unat sz < 2 ^ 31"
  shows "unat (inorder_to_eytzinger1 k sz) = full_node (lg (unat sz)) (spread (unat sz) (unat k))"
proof -
  have n: "0 < unat sz" using assms by simp
  define e where "e = eytzinger1_extra sz"
  define x where "x = k - ((e - k) AND signed_drop_bit 31 (e - k))"
  have e: "unat e = extra (unat sz)" unfolding e_def using n assms(3) by (rule unat_extra)
  have e31: "unat e \<le> 2 ^ 31" unfolding e using extra_bounds(1) [OF n] assms(3) by linarith
  have k31: "unat k < 2 ^ 31" using assms by linarith
  have s: "sint (e - k) = int (unat e) - int (unat k)" using e31 assms(1) k31 by (rule sint_diff_31)
  have x: "unat x = spread (unat sz) (unat k)"
  proof (cases "unat k \<le> unat e")
    case True
    then have "\<not> int (unat e) - int (unat k) < 0" by linarith
    then have "x = k" unfolding x_def and_sign s by (simp only: if_False diff_zero)
    then show ?thesis using True e by (simp add: spread_def)
  next
    case False
    then have "int (unat e) - int (unat k) < 0" by linarith
    then have "x = k + (k - e)" unfolding x_def and_sign s by (simp only: if_True diff_diff_eq2 add_diff_eq)
    moreover have d: "unat (k - e) = unat k - unat e" using False by (intro unat_sub_small) simp
    have "unat k + unat (k - e) < 2 ^ 32" unfolding d using k31 by simp
    ultimately have "unat x = unat k + (unat k - unat e)" using unat_add_small d by (simp only:)
    then show ?thesis using False e by (simp add: spread_def)
  qed
  note r = spread_range [OF n assms(1,2), folded x]
  have "unat (drop_bit (ffs_word x + 1) x OR push_bit (fls_word sz - ffs_word x) 1) = full_node (lg (unat sz)) (unat x)"
    using r(1,2) assms(3) n by (rule unat_from_full_rank)
  then show ?thesis unfolding x inorder_to_eytzinger1_def inorder_to_eytzinger1_extra_def Let_def
    by (simp only: x_def e_def)
qed

section \<open>The contract\<close>

lemma inorder_range: "k < n \<Longrightarrow> 0 < inorder n 1 ! k \<and> inorder n 1 ! k \<le> n"
proof -
  assume "k < n"
  then have "inorder n 1 ! k \<in> set (inorder n 1)" by (intro nth_mem) (simp only: length_inorder)
  then show ?thesis unfolding set_inorder by simp
qed

lemma inorder_node_of: "k < n \<Longrightarrow> full_node (lg n) (spread n (Suc k)) = inorder n 1 ! k"
  using inorder_nth [of n k] inorder_range [of k n] full_node_rank [of "inorder n 1 ! k" "lg n"] lg_mono
  by (metis gr_implies_not_zero gr_zeroI)

lemma inorder_rank_of: "k < n \<Longrightarrow> squeeze n (full_rank (lg n) (inorder n 1 ! k)) = Suc k"
  using inorder_nth [of n k] squeeze_spread by (metis gr_implies_not_zero gr_zeroI)

lemma unat_succ: "unat i < 2 ^ 31 \<Longrightarrow> unat (i + 1 :: u32) = unat i + 1"
  by (subst unat_add_small) simp_all

lemma unat_pred: "0 < unat i \<Longrightarrow> unat (i - 1 :: u32) = unat i - 1"
  by (subst unat_sub_small) simp_all

text \<open>
  C27. For a tree of fewer than \<open>2\<^sup>3\<^sup>1\<close> nodes and a sorted position \<open>k\<close> below its size,
  \<open>inorder_to_eytzinger0\<close> gives the (zero-based) node that is \<open>k\<close>-th in the in-order traversal,
  and \<open>eytzinger0_to_inorder\<close> inverts it on both sides.
\<close>

theorem eytzinger_conversion_correct:
  assumes "unat k < unat sz" "unat sz < 2 ^ 31"
  shows "unat (inorder_to_eytzinger0 k sz) = inorder (unat sz) 1 ! unat k - 1 \<and>
    unat (inorder_to_eytzinger0 k sz) < unat sz \<and>
    eytzinger0_to_inorder (inorder_to_eytzinger0 k sz) sz = k \<and>
    inorder_to_eytzinger0 (eytzinger0_to_inorder k sz) sz = k"
proof -
  have k1: "unat (k + 1) = unat k + 1" using assms by (intro unat_succ) simp
  define i where "i = inorder_to_eytzinger1 (k + 1) sz"
  have i: "unat i = inorder (unat sz) 1 ! unat k"
    unfolding i_def using assms k1 by (simp add: unat_from_inorder inorder_node_of)
  note r = inorder_range [OF assms(1), folded i]
  have 0: "inorder_to_eytzinger0 k sz = i - 1" "i - 1 + 1 = i"
    by (simp_all add: inorder_to_eytzinger0_def i_def inorder_to_eytzinger1_def)
  define x where "x = eytzinger1_to_inorder (k + 1) sz"
  have x: "unat x = squeeze (unat sz) (full_rank (lg (unat sz)) (unat k + 1))"
    unfolding x_def using assms k1 by (simp add: unat_to_inorder)
  have "unat k + 1 \<in> set (inorder (unat sz) 1)" unfolding set_inorder using assms(1) by simp
  then obtain m where m: "m < unat sz" "inorder (unat sz) 1 ! m = unat k + 1"
    using length_inorder [of "unat sz"] by (metis in_set_conv_nth)
  then have xm: "unat x = Suc m" using x inorder_rank_of [of m "unat sz"] by simp
  have "unat (eytzinger1_to_inorder i sz) = unat (k + 1)"
    using r assms k1 inorder_rank_of [OF assms(1)] i by (simp add: unat_to_inorder)
  then have "eytzinger1_to_inorder i sz = k + 1" by (simp only: word_unat_eq_iff)
  then have "eytzinger0_to_inorder (i - 1) sz = k"
    by (simp add: eytzinger0_to_inorder_def eytzinger1_to_inorder_def)
  moreover have "unat (inorder_to_eytzinger1 x sz) = unat (k + 1)"
    using xm m assms(2) k1 by (simp add: unat_from_inorder inorder_node_of)
  then have "inorder_to_eytzinger1 x sz = k + 1" by (simp only: word_unat_eq_iff)
  then have "inorder_to_eytzinger0 (x - 1) sz = k"
    by (simp add: inorder_to_eytzinger0_def inorder_to_eytzinger1_def)
  then have "inorder_to_eytzinger0 (eytzinger0_to_inorder k sz) sz = k"
    by (simp add: eytzinger0_to_inorder_def x_def eytzinger1_to_inorder_def)
  moreover have "unat (i - 1) = inorder (unat sz) 1 ! unat k - 1" using r i by (simp add: unat_pred)
  ultimately show ?thesis using r i 0 by auto
qed

theorem eytzinger_conversion_correct_witness:
  "unat (inorder_to_eytzinger0 3 6) = 0 \<and> eytzinger0_to_inorder 0 6 = 3"
proof -
  have "inorder 6 1 = [4, 2, 5, 1, 6, 3]" by (simp add: inorder.simps)
  moreover have "unat (inorder_to_eytzinger0 3 6) = inorder 6 1 ! 3 - 1 \<and>
      eytzinger0_to_inorder (inorder_to_eytzinger0 3 6) 6 = 3"
    using eytzinger_conversion_correct [of 3 6] by simp
  ultimately have 1: "unat (inorder_to_eytzinger0 3 6) = 0" "eytzinger0_to_inorder (inorder_to_eytzinger0 3 6) 6 = 3"
    by simp_all
  then have "inorder_to_eytzinger0 3 6 = 0" by (simp only: word_unat_eq_iff unat_0)
  with 1 show ?thesis by simp
qed

lemma walk_next:
  assumes "unat sz < 2 ^ 31" "successively (\<lambda>a b. next_node (unat sz) a = b) (js @ [0])" "set js \<subseteq> {1..unat sz}"
    "unat i = hd (js @ [0])"
  shows "\<exists>xs. eytzinger0_for_each_from (i - 1) sz = Some xs \<and> map (\<lambda>x. unat x + 1) xs = js"
  using assms(2-)
proof (induction js arbitrary: i)
  case Nil
  then have "i - 1 = - 1" by (simp add: unat_eq_zero)
  then show ?case by (subst eytzinger0_for_each_from.simps) simp
next
  case (Cons a js)
  have i: "unat i = a" "0 < unat i" "unat i \<le> unat sz" using Cons.prems by auto
  have "unat (eytzinger1_next i sz) = hd (js @ [0])"
    unfolding unat_next [OF i(2,3) assms(1)] using Cons.prems i(1) by (cases js) auto
  then obtain xs where xs: "eytzinger0_for_each_from (eytzinger1_next i sz - 1) sz = Some xs"
      "map (\<lambda>x. unat x + 1) xs = js"
    using Cons.IH [of "eytzinger1_next i sz"] Cons.prems by (auto simp: successively_Cons)
  have "i - 1 \<noteq> - 1" using i(2) by auto
  then have "eytzinger0_for_each_from (i - 1) sz = Some ((i - 1) # xs)"
    using xs(1) by (subst eytzinger0_for_each_from.simps) (simp add: eytzinger0_next_def)
  moreover have "unat (i - 1) + 1 = a" using i unat_pred by simp
  ultimately show ?case using xs(2) by simp
qed

lemma walk_prev:
  assumes "unat sz < 2 ^ 31" "successively (\<lambda>a b. prev_node (unat sz) a = b) (js @ [0])" "set js \<subseteq> {1..unat sz}"
    "unat i = hd (js @ [0])"
  shows "\<exists>xs. eytzinger0_for_each_prev_from (i - 1) sz = Some xs \<and> map (\<lambda>x. unat x + 1) xs = js"
  using assms(2-)
proof (induction js arbitrary: i)
  case Nil
  then have "i - 1 = - 1" by (simp add: unat_eq_zero)
  then show ?case by (subst eytzinger0_for_each_prev_from.simps) simp
next
  case (Cons a js)
  have i: "unat i = a" "0 < unat i" "unat i \<le> unat sz" using Cons.prems by auto
  have "unat (eytzinger1_prev i sz) = hd (js @ [0])"
    unfolding unat_prev [OF i(2,3) assms(1)] using Cons.prems i(1) by (cases js) auto
  then obtain xs where xs: "eytzinger0_for_each_prev_from (eytzinger1_prev i sz - 1) sz = Some xs"
      "map (\<lambda>x. unat x + 1) xs = js"
    using Cons.IH [of "eytzinger1_prev i sz"] Cons.prems by (auto simp: successively_Cons)
  have "i - 1 \<noteq> - 1" using i(2) by auto
  then have "eytzinger0_for_each_prev_from (i - 1) sz = Some ((i - 1) # xs)"
    using xs(1) by (subst eytzinger0_for_each_prev_from.simps) (simp add: eytzinger0_prev_def)
  moreover have "unat (i - 1) + 1 = a" using i unat_pred by simp
  ultimately show ?case using xs(2) by simp
qed

lemma up_root: "up_le 1 = 0" "up_gt 1 = 0"
  using up_1 by simp_all

lemma for_each_inorder:
  assumes "unat sz < 2 ^ 31"
  shows "\<exists>xs ys. eytzinger0_for_each sz = Some xs \<and> map (\<lambda>x. unat x + 1) xs = inorder (unat sz) 1 \<and>
    eytzinger0_for_each_prev sz = Some ys \<and> ys = rev xs"
proof -
  let ?n = "unat sz" and ?f = "\<lambda>x :: u32. unat x + 1"
  have e: "sz = 0 \<or> 0 < ?n" by (simp add: unat_gt_0)
  have ne: "inorder ?n 1 \<noteq> []" if "0 < ?n" using inorder_node [of 1 ?n] that by simp
  have first: "unat (eytzinger1_first sz) = hd (inorder ?n 1 @ [0])"
    using e unat_first [of sz] ne by (auto simp: eytzinger1_first_def)
  have last: "unat (eytzinger1_last sz) = hd (rev (inorder ?n 1) @ [0])"
  proof (cases "0 < ?n")
    case True
    then show ?thesis using unat_last [OF True assms] ne by (simp add: hd_rev)
  next
    case False
    then have "sz = 0" by (simp add: unat_eq_zero)
    then show ?thesis by (simp add: eytzinger1_last_def rounddown_pow_of_two_def lg_1 [unfolded One_nat_def])
  qed
  have s: "set (inorder ?n 1) \<subseteq> {1..?n}" by (simp only: set_inorder subset_refl)
  obtain xs where xs: "eytzinger0_for_each sz = Some xs" "map ?f xs = inorder ?n 1"
    using walk_next [OF assms _ s first] inorder_next [of 1 ?n] up_root
    by (auto simp: eytzinger0_for_each_def eytzinger0_first_def)
  have "successively (\<lambda>a b. prev_node ?n a = b) (rev (up_le 1 # inorder ?n 1))"
    using inorder_prev [of 1 ?n] by (subst successively_rev) simp
  then obtain ys where ys: "eytzinger0_for_each_prev sz = Some ys" "map ?f ys = rev (inorder ?n 1)"
    using walk_prev [OF assms _ _ last] s up_root
    by (auto simp: eytzinger0_for_each_prev_def eytzinger0_last_def)
  have "map ?f ys = map ?f (rev xs)" using xs(2) ys(2) by (simp only: rev_map [symmetric])
  moreover have "inj ?f" by (simp add: inj_def word_unat_eq_iff)
  ultimately have "ys = rev xs" by (simp add: inj_map_eq_map)
  with xs ys show ?thesis by blast
qed

text \<open>
  C28. For a tree of fewer than \<open>2\<^sup>3\<^sup>1\<close> nodes the macros \<open>eytzinger0_for_each\<close> and
  \<open>eytzinger0_for_each_prev\<close> terminate, and visit the nodes in in-order sequence, each once,
  forwards and backwards.
\<close>

theorem eytzinger_for_each_correct:
  assumes "unat sz < 2 ^ 31"
  shows "\<exists>xs ys. eytzinger0_for_each sz = Some xs \<and> map (\<lambda>x. unat x + 1) xs = inorder (unat sz) 1 \<and>
    eytzinger0_for_each_prev sz = Some ys \<and> ys = rev xs"
  using assms by (rule for_each_inorder)

theorem eytzinger_for_each_correct_witness:
  "\<exists>xs. eytzinger0_for_each 6 = Some xs \<and> map (\<lambda>x. unat x + 1) xs = [4, 2, 5, 1, 6, 3]"
proof -
  have "inorder 6 1 = [4, 2, 5, 1, 6, 3]" by (simp add: inorder.simps)
  then show ?thesis using eytzinger_for_each_correct [of 6] by auto
qed

section \<open>Searching a sorted tree\<close>

text \<open>
  The array in sorted order: its elements in in-order sequence. \<open>base\<close> is sorted for a search
  when no element that compares high precedes one that compares low.
\<close>

definition in_order :: "'a list \<Rightarrow> 'a list" where
  "in_order base = map (\<lambda>i. base ! (i - 1)) (inorder (length base) 1)"

lemma length_in_order [simp]: "length (in_order base) = length base"
  by (simp only: in_order_def length_map length_inorder)

lemma nth_in_order: "k < length base \<Longrightarrow> in_order base ! k = base ! (inorder (length base) 1 ! k - 1)"
  by (simp add: in_order_def length_inorder [unfolded One_nat_def])

lemma sorted_prefix:
  assumes "sorted_wrt (\<lambda>a b. P b \<longrightarrow> P a) xs"
  shows "filter P xs = take (length (filter P xs)) xs \<and> filter (\<lambda>x. \<not> P x) xs = drop (length (filter P xs)) xs"
  using assms
proof (induction xs)
  case (Cons x xs)
  show ?case
  proof (cases "P x")
    case False
    then have "filter P xs = []" using Cons.prems by (auto simp: filter_empty_conv)
    moreover from this have "filter (\<lambda>x. \<not> P x) xs = xs" by (auto simp: filter_id_conv filter_empty_conv)
    ultimately show ?thesis using False by simp
  qed (use Cons in simp)
qed simp

lemma mset_in_order: "mset (in_order base) = mset base"
proof -
  let ?n = "length base"
  have "distinct (inorder ?n 1)" by (intro card_distinct) (simp only: set_inorder length_inorder card_atLeastAtMost diff_Suc_1 Suc_eq_plus1)
  moreover have "set (inorder ?n 1) = set (map Suc [0..<?n])" unfolding set_inorder by (auto simp: image_Suc_lessThan lessThan_atLeast0 [symmetric])
  ultimately have "mset (inorder ?n 1) = mset (map Suc [0..<?n])"
    by (intro set_eq_iff_mset_eq_distinct [THEN iffD1]) (simp_all add: distinct_map)
  then have "mset (in_order base) = image_mset (\<lambda>i. base ! (i - 1)) (mset (map Suc [0..<?n]))"
    unfolding in_order_def by (simp only: mset_map)
  also have "\<dots> = mset (map ((!) base) [0..<?n])" by (simp add: image_mset.compositionality o_def)
  finally show ?thesis by (simp only: map_nth)
qed

text \<open>The number of elements that compare low, and where the descent ends.\<close>

lemma search_split:
  assumes "sorted_wrt (\<lambda>a b. P b \<longrightarrow> P a) (in_order base)"
  defines "n \<equiv> eyt_descend (length base) (\<lambda>n. P (base ! (n - 1))) 1" and "k \<equiv> length (filter P base)"
  shows "up_le n = (if k = 0 then 0 else inorder (length base) 1 ! (k - 1)) \<and>
    up_gt n = (if k = length base then 0 else inorder (length base) 1 ! k)"
proof -
  let ?io = "inorder (length base) 1" and ?c = "\<lambda>n. P (base ! (n - 1))"
  have s: "sorted_wrt (\<lambda>i j. ?c j \<longrightarrow> ?c i) ?io" using assms(1) by (simp add: in_order_def sorted_wrt_map)
  have "length (filter ?c ?io) = length (filter P (in_order base))" by (simp add: in_order_def filter_map o_def)
  also have "\<dots> = size (filter_mset P (mset (in_order base)))" by (metis mset_filter size_mset)
  also have "\<dots> = k" by (simp only: mset_in_order k_def) (metis mset_filter size_mset)
  finally have k: "length (filter ?c ?io) = k" .
  note f = sorted_prefix [OF s, unfolded k]
  note d = eyt_descend_up [OF s, folded n_def]
  have le: "k \<le> length base" by (simp add: k_def)
  have l: "length ?io = length base" by (rule length_inorder)
  have "up_le n = (if k = 0 then 0 else ?io ! (k - 1))"
    using d f le l up_root by (cases "k = 0") (auto simp: last_conv_nth)
  moreover have "up_gt n = (if k = length base then 0 else ?io ! k)"
    using d f le l up_root by (cases "k = length base") (auto simp: hd_drop_conv_nth)
  ultimately show ?thesis by blast
qed

lemma find_neighbours:
  fixes base :: "'a list" and cmp :: "'a \<Rightarrow> 'b \<Rightarrow> int"
  assumes "sorted_wrt (\<lambda>a b. (cmp b s \<le> 0 \<longrightarrow> cmp a s \<le> 0) \<and> (cmp b s < 0 \<longrightarrow> cmp a s < 0)) (in_order base)"
  defines "le \<equiv> length (filter (\<lambda>x. cmp x s \<le> 0) base)" and "lt \<equiv> length (filter (\<lambda>x. cmp x s < 0) base)"
  defines "node \<equiv> \<lambda>k. int (inorder (length base) 1 ! k) - 1"
  shows "eytzinger0_find_le base cmp s = (if le = 0 then - 1 else node (le - 1)) \<and>
    eytzinger0_find_gt base cmp s = (if le = length base then - 1 else node le) \<and>
    eytzinger0_find_ge base cmp s = (if lt = length base then - 1 else node lt)"
proof -
  have s: "sorted_wrt (\<lambda>a b. cmp b s \<le> 0 \<longrightarrow> cmp a s \<le> 0) (in_order base)"
      "sorted_wrt (\<lambda>a b. cmp b s < 0 \<longrightarrow> cmp a s < 0) (in_order base)"
    by (rule sorted_wrt_mono_rel [OF _ assms(1)], blast)+
  note d = search_split [OF s(1), folded le_def] search_split [OF s(2), folded lt_def]
  show ?thesis
    using d by (simp add: eytzinger0_find_le_def eytzinger0_find_gt_def eytzinger0_find_ge_def Let_def node_def)
qed



lemma find_loop:
  assumes "sorted_wrt (\<lambda>i j. (0 \<le> cmp s (base ! (j - 1)) \<longrightarrow> 0 \<le> cmp s (base ! (i - 1))) \<and>
      (0 < cmp s (base ! (j - 1)) \<longrightarrow> 0 < cmp s (base ! (i - 1)))) (inorder (length base) i)" "0 < i"
  shows "((\<exists>j \<in> set (inorder (length base) i). cmp s (base ! (j - 1)) = 0) \<longrightarrow> eyt_find_loop base cmp s i \<le> length base) \<and>
    (eyt_find_loop base cmp s i \<le> length base \<longrightarrow>
      0 < eyt_find_loop base cmp s i \<and> cmp s (base ! (eyt_find_loop base cmp s i - 1)) = 0)"
  using assms
proof (induction base cmp s i rule: eyt_find_loop.induct)
  case (1 base cmp s i)
  let ?n = "length base" and ?c = "\<lambda>i. cmp s (base ! (i - 1))"
  show ?case
  proof (cases "i \<le> ?n \<and> ?c i \<noteq> 0")
    case False
    then have "eyt_find_loop base cmp s i = i" using "1.prems"(2) by (simp add: eyt_find_loop.simps [of _ _ _ i])
    then show ?thesis using False "1.prems"(2) by (cases "i \<le> ?n") auto
  next
    case True
    let ?i = "2 * i + of_bool (?c i > 0)"
    have io: "inorder ?n i = inorder ?n (2 * i) @ i # inorder ?n (2 * i + 1)"
      using True "1.prems"(2) by (simp add: inorder_node)
    have d: "eyt_find_loop base cmp s i = eyt_find_loop base cmp s ?i"
      using True "1.prems"(2) by (simp add: eyt_find_loop.simps [of _ _ _ i])
    have "\<exists>j \<in> set (inorder ?n ?i). ?c j = 0" if ex: "\<exists>j \<in> set (inorder ?n i). ?c j = 0"
    proof -
      obtain j where j: "j \<in> set (inorder ?n (2 * i)) \<or> j \<in> set (inorder ?n (2 * i + 1))" "?c j = 0"
        using ex True unfolding io by auto
      then show ?thesis using "1.prems"(1) unfolding io sorted_wrt_append using True by (cases "?c i > 0") auto
    qed
    moreover have "sorted_wrt (\<lambda>i j. (0 \<le> ?c j \<longrightarrow> 0 \<le> ?c i) \<and> (0 < ?c j \<longrightarrow> 0 < ?c i)) (inorder ?n ?i)"
      using "1.prems"(1) unfolding io sorted_wrt_append by (cases "?c i > 0") auto
    ultimately show ?thesis using "1.IH" [OF _ refl] True "1.prems"(2) unfolding d by simp
  qed
qed

text \<open>
  On an array whose in-order sequence is sorted with respect to the search,
  \<open>eytzinger0_find\<close> returns the index of an element that compares equal whenever there is one,
  and an index at or past the end otherwise.
\<close>

lemma eytzinger_find_exact:
  assumes "sorted_wrt (\<lambda>a b. (0 \<le> cmp s b \<longrightarrow> 0 \<le> cmp s a) \<and> (0 < cmp s b \<longrightarrow> 0 < cmp s a)) (in_order base)"
  shows "if \<exists>x \<in> set base. cmp s x = 0
    then eytzinger0_find base cmp s < length base \<and> cmp s (base ! eytzinger0_find base cmp s) = 0
    else length base \<le> eytzinger0_find base cmp s"
proof -
  let ?r = "eyt_find_loop base cmp s 1"
  have set: "set base = (\<lambda>j. base ! (j - 1)) ` set (inorder (length base) 1)"
    using mset_in_order [of base] by (metis in_order_def list.set_map mset_eq_setD)
  have "sorted_wrt (\<lambda>i j. (0 \<le> cmp s (base ! (j - 1)) \<longrightarrow> 0 \<le> cmp s (base ! (i - 1))) \<and>
      (0 < cmp s (base ! (j - 1)) \<longrightarrow> 0 < cmp s (base ! (i - 1)))) (inorder (length base) 1)"
    using assms by (simp add: in_order_def sorted_wrt_map)
  note f = find_loop [of cmp s base 1, OF this]
  show ?thesis
  proof (cases "\<exists>x \<in> set base. cmp s x = 0")
    case True
    then have "?r \<le> length base \<and> 0 < ?r \<and> cmp s (base ! (?r - 1)) = 0" using f unfolding set by simp
    then show ?thesis using True by (auto simp: eytzinger0_find_def)
  next
    case False
    have "\<not> ?r \<le> length base"
    proof
      assume le: "?r \<le> length base"
      then have "base ! (?r - 1) \<in> set base" using f by (intro nth_mem) auto
      then show False using False f le by auto
    qed
    then show ?thesis using False by (simp add: eytzinger0_find_def)
  qed
qed

end
