(* ===== verification/Eytzinger_Sort.thy ===== *)
theory Eytzinger_Sort
  imports Eytzinger_Index
begin

unbundle bit_operations_syntax

text \<open>
  The sort of \<^verbatim>\<open>libbcachefs/eytzinger.c\<close>: a bottom-up heapsort over sorted positions, which
  leaves an array in eytzinger layout. Elements are values; the callbacks are parameters, with
  \<open>None\<close> for an exchange that goes out of bounds. The loops are written as in C, so that one
  that does not end is \<open>None\<close>; the theorem shows that none does.
\<close>

section \<open>Exchanging elements\<close>

text \<open>Elements in memory are byte lists; \<open>n\<close> is the offset the loop counts down.\<close>

definition load_chunk :: "u8 list \<Rightarrow> nat \<Rightarrow> nat \<Rightarrow> u8 list option" where
  "load_chunk m n w = (if n + w \<le> length m then Some (take w (drop n m)) else None)"

definition store_chunk :: "u8 list \<Rightarrow> nat \<Rightarrow> u8 list \<Rightarrow> u8 list option" where
  "store_chunk m n c =
     (if n + length c \<le> length m then Some (take n m @ c @ drop (n + length c) m) else None)"

definition swap_chunk :: "nat \<Rightarrow> u8 list \<Rightarrow> u8 list \<Rightarrow> nat \<Rightarrow> (u8 list \<times> u8 list) option" where
  "swap_chunk w a b n =
     do {
       t \<leftarrow> load_chunk a n w;
       u \<leftarrow> load_chunk b n w;
       a \<leftarrow> store_chunk a n u;
       b \<leftarrow> store_chunk b n t;
       Some (a, b)
     }"

function swap_words_32 :: "u8 list \<Rightarrow> u8 list \<Rightarrow> nat \<Rightarrow> (u8 list \<times> u8 list) option" where
  "swap_words_32 a b n =
     (if n < 4 then None
      else do {
        let n = n - 4;
        (a, b) \<leftarrow> swap_chunk 4 a b n;
        if n \<noteq> 0 then swap_words_32 a b n else Some (a, b)
      })"
  by pat_completeness auto
termination
  by (relation "measure (\<lambda>(a, b, n). n)") auto

function swap_words_64 :: "u8 list \<Rightarrow> u8 list \<Rightarrow> nat \<Rightarrow> (u8 list \<times> u8 list) option" where
  "swap_words_64 a b n =
     (if n < 8 then None
      else do {
        let n = n - 8;
        (a, b) \<leftarrow> swap_chunk 8 a b n;
        if n \<noteq> 0 then swap_words_64 a b n else Some (a, b)
      })"
  by pat_completeness auto
termination
  by (relation "measure (\<lambda>(a, b, n). n)") auto

function swap_bytes :: "u8 list \<Rightarrow> u8 list \<Rightarrow> nat \<Rightarrow> (u8 list \<times> u8 list) option" where
  "swap_bytes a b n =
     (if n < 1 then None
      else do {
        let n = n - 1;
        (a, b) \<leftarrow> swap_chunk 1 a b n;
        if n \<noteq> 0 then swap_bytes a b n else Some (a, b)
      })"
  by pat_completeness auto
termination
  by (relation "measure (\<lambda>(a, b, n). n)") auto

declare swap_words_32.simps [simp del] swap_words_64.simps [simp del] swap_bytes.simps [simp del]

text \<open>\<^verbatim>\<open>CONFIG_HAVE_EFFICIENT_UNALIGNED_ACCESS\<close> is off: the address counts.\<close>

definition is_aligned :: "u64 \<Rightarrow> u64 \<Rightarrow> u8 \<Rightarrow> bool" where
  "is_aligned base sz align =
     (let lsbits = ucast sz OR ucast base :: u8 in lsbits AND (align - 1) = 0)"

text \<open>\<^verbatim>\<open>swap_r_func_t\<close>: the three built-in exchanges, and a callback.\<close>

datatype 'a swap_func = SWAP_WORDS_64 | SWAP_WORDS_32 | SWAP_BYTES | SWAP_CALL "'a \<Rightarrow> 'a \<Rightarrow> ('a \<times> 'a) option"

definition do_swap :: "nat \<Rightarrow> u8 list swap_func \<Rightarrow> u8 list \<Rightarrow> u8 list \<Rightarrow> (u8 list \<times> u8 list) option" where
  "do_swap sz swap_func a b =
     (case swap_func of
        SWAP_CALL f \<Rightarrow> f a b
      | SWAP_WORDS_64 \<Rightarrow> swap_words_64 a b sz
      | SWAP_WORDS_32 \<Rightarrow> swap_words_32 a b sz
      | SWAP_BYTES \<Rightarrow> swap_bytes a b sz)"

definition pick_swap :: "u64 \<Rightarrow> u64 \<Rightarrow> (u8 list \<Rightarrow> u8 list \<Rightarrow> (u8 list \<times> u8 list) option) option \<Rightarrow> u8 list swap_func" where
  "pick_swap base1 sz swap_func =
     (case swap_func of
        Some f \<Rightarrow> SWAP_CALL f
      | None \<Rightarrow>
          if is_aligned base1 sz 8 then SWAP_WORDS_64
          else if is_aligned base1 sz 4 then SWAP_WORDS_32
          else SWAP_BYTES)"

section \<open>The sort\<close>

text \<open>Sorted position \<open>l\<close> (one-based) is the element at zero-based index \<open>eyt_slot n l\<close>.\<close>

definition eyt_slot :: "nat \<Rightarrow> nat \<Rightarrow> nat" where
  "eyt_slot n l = unat (inorder_to_eytzinger1 (of_nat l) (of_nat n)) - 1"

definition eytzinger1_do_cmp :: "('a \<Rightarrow> 'a \<Rightarrow> int) \<Rightarrow> 'a list \<Rightarrow> nat \<Rightarrow> nat \<Rightarrow> int" where
  "eytzinger1_do_cmp cmp a l r = cmp (a ! eyt_slot (length a) l) (a ! eyt_slot (length a) r)"

definition eytzinger1_do_swap :: "('a \<Rightarrow> 'a \<Rightarrow> ('a \<times> 'a) option) \<Rightarrow> 'a list \<Rightarrow> nat \<Rightarrow> nat \<Rightarrow> 'a list option" where
  "eytzinger1_do_swap swap a l r =
     do {
       (x, y) \<leftarrow> swap (a ! eyt_slot (length a) l) (a ! eyt_slot (length a) r);
       Some (a[eyt_slot (length a) l := x, eyt_slot (length a) r := y])
     }"

text \<open>
  The inner loops, over the positions \<open>1..m\<close>: heapify uses \<open>m = n\<close>, and the sorting phase
  \<open>m = i - 1\<close>, where the C conditions read \<open>k + 1 < i\<close> and \<open>j * 2 + 1 == i\<close>.
\<close>

partial_function (option) sift_path :: "('a \<Rightarrow> 'a \<Rightarrow> int) \<Rightarrow> 'a list \<Rightarrow> nat \<Rightarrow> nat \<Rightarrow> nat option" where
  "sift_path cmp a m j =
     (let k = j * 2 in
      if k < m then sift_path cmp a m (if eytzinger1_do_cmp cmp a k (k + 1) > 0 then k else k + 1)
      else Some (if j * 2 = m then j * 2 else j))"

partial_function (option) backtrack :: "('a \<Rightarrow> 'a \<Rightarrow> int) \<Rightarrow> 'a list \<Rightarrow> nat \<Rightarrow> nat \<Rightarrow> nat option" where
  "backtrack cmp a i j =
     (if j \<noteq> i \<and> eytzinger1_do_cmp cmp a i j \<ge> 0 then backtrack cmp a i (j div 2) else Some j)"

partial_function (option) backtrack_root :: "('a \<Rightarrow> 'a \<Rightarrow> int) \<Rightarrow> 'a list \<Rightarrow> nat \<Rightarrow> nat option" where
  "backtrack_root cmp a j =
     (if j \<ge> 1 \<and> eytzinger1_do_cmp cmp a 1 j \<ge> 0 then backtrack_root cmp a (j div 2) else Some j)"

partial_function (option) shift_up :: "('a \<Rightarrow> 'a \<Rightarrow> ('a \<times> 'a) option) \<Rightarrow> nat \<Rightarrow> nat \<Rightarrow> nat \<Rightarrow> 'a list \<Rightarrow> 'a list option" where
  "shift_up swap i k j a =
     (if j \<noteq> i then do { a \<leftarrow> eytzinger1_do_swap swap a (j div 2) k; shift_up swap i k (j div 2) a } else Some a)"

partial_function (option) shift_root :: "('a \<Rightarrow> 'a \<Rightarrow> ('a \<times> 'a) option) \<Rightarrow> nat \<Rightarrow> nat \<Rightarrow> 'a list \<Rightarrow> 'a list option" where
  "shift_root swap k j a =
     (if j > 1 then do { a \<leftarrow> eytzinger1_do_swap swap a (j div 2) k; shift_root swap k (j div 2) a } else Some a)"

primrec heapify :: "('a \<Rightarrow> 'a \<Rightarrow> int) \<Rightarrow> ('a \<Rightarrow> 'a \<Rightarrow> ('a \<times> 'a) option) \<Rightarrow> nat \<Rightarrow> 'a list \<Rightarrow> 'a list option" where
  "heapify cmp swap 0 a = Some a"
| "heapify cmp swap (Suc i) a =
     do {
       j \<leftarrow> sift_path cmp a (length a) (Suc i);
       j \<leftarrow> backtrack cmp a (Suc i) j;
       a \<leftarrow> shift_up swap (Suc i) j j a;
       heapify cmp swap i a
     }"

primrec sort_down :: "('a \<Rightarrow> 'a \<Rightarrow> int) \<Rightarrow> ('a \<Rightarrow> 'a \<Rightarrow> ('a \<times> 'a) option) \<Rightarrow> nat \<Rightarrow> 'a list \<Rightarrow> 'a list option" where
  "sort_down cmp swap 0 a = Some a"
| "sort_down cmp swap (Suc i) a =
     (if Suc i > 1 then
        do {
          a \<leftarrow> eytzinger1_do_swap swap a 1 (Suc i);
          j \<leftarrow> sift_path cmp a i 1;
          j \<leftarrow> backtrack_root cmp a j;
          a \<leftarrow> shift_root swap j j a;
          sort_down cmp swap i a
        }
      else Some a)"

definition eytzinger1_sort_r :: "('a \<Rightarrow> 'a \<Rightarrow> int) \<Rightarrow> ('a \<Rightarrow> 'a \<Rightarrow> ('a \<times> 'a) option) \<Rightarrow> 'a list \<Rightarrow> 'a list option" where
  "eytzinger1_sort_r cmp swap a = do { a \<leftarrow> heapify cmp swap (length a div 2) a; sort_down cmp swap (length a) a }"

text \<open>The entry point, on elements of \<open>sz\<close> bytes at address \<open>base\<close>.\<close>

definition eytzinger0_sort :: "u64 \<Rightarrow> u64 \<Rightarrow> (u8 list \<Rightarrow> u8 list \<Rightarrow> int) \<Rightarrow>
    (u8 list \<Rightarrow> u8 list \<Rightarrow> (u8 list \<times> u8 list) option) option \<Rightarrow> u8 list list \<Rightarrow> u8 list list option" where
  "eytzinger0_sort base sz cmp_func swap_func a =
     eytzinger1_sort_r cmp_func (do_swap (unat sz) (pick_swap (base - sz) sz swap_func)) a"

section \<open>The exchanges exchange\<close>

lemma swap_chunk_eq:
  assumes "n + w \<le> length a" "n + w \<le> length b"
  shows "swap_chunk w a b n =
    Some (take n a @ take w (drop n b) @ drop (n + w) a, take n b @ take w (drop n a) @ drop (n + w) b)"
  using assms by (simp add: swap_chunk_def load_chunk_def store_chunk_def)

locale chunk_loop =
  fixes w :: nat and f :: "u8 list \<Rightarrow> u8 list \<Rightarrow> nat \<Rightarrow> (u8 list \<times> u8 list) option"
  assumes w: "0 < w"
    and f_def: "f a b n =
      (if n < w then None
       else do {
         let n = n - w;
         (a, b) \<leftarrow> swap_chunk w a b n;
         if n \<noteq> 0 then f a b n else Some (a, b)
       })"
begin

lemma loop_swaps_prefix:
  assumes "n \<le> length a" "length b = length a" "w dvd n" "0 < n"
  shows "f a b n = Some (take n b @ drop n a, take n a @ drop n b)"
  using assms
proof (induction n arbitrary: a b rule: less_induct)
  case (less n)
  define k where "k = n - w"
  have "w \<le> n" using less.prems(3,4) by (rule dvd_imp_le)
  then have k: "n = k + w" "w dvd k" using less.prems(3) by (simp_all add: k_def dvd_diff_nat)
  let ?a = "take k a @ take w (drop k b) @ drop n a" and ?b = "take k b @ take w (drop k a) @ drop n b"
  have s: "swap_chunk w a b k = Some (?a, ?b)"
    using less.prems swap_chunk_eq [of k w a b] by (simp add: k(1))
  have "n - w = k" "\<not> n < w" by (simp_all add: k(1))
  then have step: "f a b n = (if k \<noteq> 0 then f ?a ?b k else Some (?a, ?b))"
    by (subst f_def) (simp only: Let_def s if_False Option.bind.simps prod.case)
  show ?case
  proof (cases "k = 0")
    case True
    then show ?thesis using step by (simp add: k(1))
  next
    case False
    have "f ?a ?b k = Some (take k ?b @ drop k ?a, take k ?a @ drop k ?b)"
      using less.prems k False w by (intro less.IH) auto
    moreover have "take k ?b @ drop k ?a = take n b @ drop n a" "take k ?a @ drop k ?b = take n a @ drop n b"
      using less.prems by (simp_all add: k(1) take_add)
    ultimately show ?thesis using step False by (simp only: if_True not_False_eq_True)
  qed
qed

lemma loop_swaps: "length a = n \<Longrightarrow> length b = n \<Longrightarrow> w dvd n \<Longrightarrow> 0 < n \<Longrightarrow> f a b n = Some (b, a)"
  using loop_swaps_prefix [of n a b] by simp

end

interpretation words_32: chunk_loop 4 swap_words_32
  by unfold_locales (simp, subst swap_words_32.simps, simp add: Let_def)

interpretation words_64: chunk_loop 8 swap_words_64
  by unfold_locales (simp, subst swap_words_64.simps, simp add: Let_def)

interpretation bytes: chunk_loop 1 swap_bytes
  by unfold_locales (simp, subst swap_bytes.simps, simp add: Let_def)

text \<open>The exchange contract, on the elements in \<open>S\<close>.\<close>

locale exchange =
  fixes swap :: "'a \<Rightarrow> 'a \<Rightarrow> ('a \<times> 'a) option" and S :: "'a set"
  assumes swap_exchanges: "x \<in> S \<Longrightarrow> y \<in> S \<Longrightarrow> swap x y = Some (y, x)"

lemma is_aligned_dvd:
  assumes "is_aligned base sz (2 ^ k)" "k < 8"
  shows "2 ^ k dvd unat sz"
proof -
  have "ucast sz AND (2 ^ k - 1 :: u8) = 0"
    using assms(1) unfolding is_aligned_def Let_def
    by (intro bit_eqI) (simp add: bit_eq_iff [of "_ AND _"] bit_and_iff bit_or_iff, blast)
  then have "unat (ucast sz AND mask k :: u8) = 0" by (simp add: mask_eq_exp_minus_1)
  then have "unat sz mod 2 ^ 8 mod 2 ^ k = 0" by (simp only: unat_and_mask unat_ucast_mod) simp
  moreover have "(2::nat) ^ k dvd 2 ^ 8" by (rule le_imp_power_dvd) (use assms(2) in simp)
  ultimately have "unat sz mod 2 ^ k = 0" by (simp only: mod_mod_cancel)
  then show ?thesis by (simp add: dvd_eq_mod_eq_0)
qed

interpretation builtin_swap: exchange "do_swap (unat sz) (pick_swap base sz None)" "{x. length x = unat sz \<and> x \<noteq> []}"
proof unfold_locales
  fix x y :: "u8 list" assume "x \<in> {x. length x = unat sz \<and> x \<noteq> []}" "y \<in> {x. length x = unat sz \<and> x \<noteq> []}"
  then have l: "length x = unat sz" "length y = unat sz" "0 < unat sz" by (auto simp flip: length_greater_0_conv)
  show "do_swap (unat sz) (pick_swap base sz None) x y = Some (y, x)"
    using words_64.loop_swaps [OF l(1,2) _ l(3)] words_32.loop_swaps [OF l(1,2) _ l(3)] bytes.loop_swaps [OF l(1,2) _ l(3)]
      is_aligned_dvd [of base sz 3] is_aligned_dvd [of base sz 2]
    by (simp add: do_swap_def pick_swap_def)
qed

section \<open>Heaps over positions\<close>

text \<open>
  \<open>h\<close> gives the element at a position. \<open>heap_on\<close>: no child among the positions up to \<open>m\<close> is
  above its parent, for the parents from \<open>lo\<close> on.
\<close>

definition heap_on :: "('a \<Rightarrow> 'a \<Rightarrow> int) \<Rightarrow> (nat \<Rightarrow> 'a) \<Rightarrow> nat \<Rightarrow> nat \<Rightarrow> bool" where
  "heap_on cmp h lo m \<longleftrightarrow> (\<forall>c. c \<le> m \<and> lo \<le> c div 2 \<longrightarrow> cmp (h c) (h (c div 2)) \<le> 0)"

lemma heap_onD: "heap_on cmp h lo m \<Longrightarrow> c \<le> m \<Longrightarrow> lo \<le> c div 2 \<Longrightarrow> cmp (h c) (h (c div 2)) \<le> 0"
  by (simp add: heap_on_def)

text \<open>
  \<open>rotated h h' k e\<close>: \<open>h'\<close> is \<open>h\<close> with the elements on the path from the \<open>e\<close>-th ancestor of
  \<open>k\<close> down to \<open>k\<close> moved one place up and the topmost one put at \<open>k\<close>.
\<close>

definition rotated :: "(nat \<Rightarrow> 'a) \<Rightarrow> (nat \<Rightarrow> 'a) \<Rightarrow> nat \<Rightarrow> nat \<Rightarrow> nat \<Rightarrow> bool" where
  "rotated h h' n k e \<longleftrightarrow> h' k = h (k div 2 ^ e) \<and> (\<forall>f < e. h' (k div 2 ^ Suc f) = h (k div 2 ^ f)) \<and>
    (\<forall>x. 0 < x \<and> x \<le> n \<and> (\<forall>f \<le> e. x \<noteq> k div 2 ^ f) \<longrightarrow> h' x = h x)"

lemma div_Suc_pow: "k div 2 ^ Suc f = k div 2 ^ f div (2::nat)"
  by (simp only: power_Suc2 div_mult2_eq)

lemma div_pow_mono: "f \<le> g \<Longrightarrow> k div 2 ^ g \<le> k div 2 ^ f" for k :: nat
  by (simp add: div_le_mono2 power_increasing)

lemma div_pow_strict: "f < g \<Longrightarrow> 0 < k div 2 ^ f \<Longrightarrow> k div 2 ^ g < k div 2 ^ f" for k :: nat
proof -
  assume f: "f < g" and k: "0 < k div 2 ^ f"
  have "k div 2 ^ g \<le> k div 2 ^ Suc f" using f by (intro div_pow_mono) simp
  also have "\<dots> = k div 2 ^ f div 2" by (rule div_Suc_pow)
  also have "\<dots> < k div 2 ^ f" using k by (rule div_less_dividend [rotated]) simp
  finally show ?thesis .
qed

lemma div_pow_inj: "k div 2 ^ f = k div 2 ^ g \<Longrightarrow> 0 < k div 2 ^ f \<Longrightarrow> f = g" for k :: nat
proof (rule ccontr)
  assume e: "k div 2 ^ f = k div 2 ^ g" "0 < k div 2 ^ f" and "f \<noteq> g"
  then consider "f < g" | "g < f" by linarith
  then show False
  proof cases
    case 1
    from div_pow_strict [OF this e(2)] e(1) show False by simp
  next
    case 2
    from div_pow_strict [OF this, of k] e show False by simp
  qed
qed

lemma child_bounds:
  fixes c :: nat
  assumes "c \<le> m" "i \<le> c div 2" "0 < i" "m \<le> n"
  shows "0 < c" "c \<le> n" "c div 2 < c" "0 < c div 2"
  using assms by auto

lemma rotatedD:
  assumes "rotated h h' n k e"
  shows "h' k = h (k div 2 ^ e)" "f < e \<Longrightarrow> h' (k div 2 ^ Suc f) = h (k div 2 ^ f)"
    "0 < x \<Longrightarrow> x \<le> n \<Longrightarrow> (\<And>f. f \<le> e \<Longrightarrow> x \<noteq> k div 2 ^ f) \<Longrightarrow> h' x = h x"
  using assms by (auto simp: rotated_def)

context compare_fun
begin

text \<open>The parent is on the path, above \<open>k\<close>: the child is its sibling or the next on the path.\<close>

lemma rotate_heap_on_path:
  assumes heap: "heap_on cmp h (Suc (k div 2 ^ e)) m" and k: "0 < k div 2 ^ e" "k \<le> m" "m \<le> n"
    and r: "rotated h h' n k e" and c: "0 < c" "c \<le> m" "c div 2 = k div 2 ^ Suc g" "g < e"
    and sib: "cmp (h c) (h (k div 2 ^ g)) \<le> 0" and C: "cmp (h (k div 2 ^ e)) (h k) \<le> 0"
  shows "cmp (h' c) (h (k div 2 ^ g)) \<le> 0"
proof (cases "\<exists>f \<le> e. c = k div 2 ^ f")
  case False
  moreover have "c \<le> n" using c(2) k(3) by (rule order_trans)
  ultimately have "h' c = h c" by (intro rotatedD(3) [OF r c(1)]) blast+
  with sib show ?thesis by simp
next
  case True
  then obtain f where f: "f \<le> e" "c = k div 2 ^ f" by blast
  have pos: "0 < k div 2 ^ g'" if "g' \<le> e" for g'
    using k(1) div_pow_mono [OF that, of k] by (rule less_le_trans)
  have "0 < k div 2 ^ Suc g" using c(4) by (intro pos) simp
  moreover have "k div 2 ^ Suc g = k div 2 ^ Suc f" using f(2) c(3) by (simp only: div_Suc_pow)
  ultimately have "Suc g = Suc f" by (rule div_pow_inj [rotated])
  then have "f = g" by simp
  show ?thesis
  proof (cases g)
    case 0
    then show ?thesis using rotatedD(1) [OF r] f \<open>f = g\<close> C by simp
  next
    case (Suc g')
    have "h' c = h (k div 2 ^ g')" using rotatedD(2) [OF r, of g'] c(4) Suc f \<open>f = g\<close> by simp
    moreover have "cmp (h (k div 2 ^ g')) (h (k div 2 ^ g' div 2)) \<le> 0"
    proof (rule heap_onD [OF heap])
      show "k div 2 ^ g' \<le> m" using div_le_dividend k(2) by (rule order_trans)
      have "k div 2 ^ e < k div 2 ^ g"
        using c(4) by (intro div_pow_strict pos) simp_all
      then show "Suc (k div 2 ^ e) \<le> k div 2 ^ g' div 2" using Suc div_Suc_pow [of k g'] by simp
    qed
    ultimately show ?thesis using Suc div_Suc_pow [of k g'] by simp
  qed
qed

lemma rotate_heap:
  assumes heap: "heap_on cmp h (Suc (k div 2 ^ e)) m" and k: "0 < k div 2 ^ e" "k \<le> m" "m \<le> n"
    and r: "rotated h h' n k e"
    and A: "\<And>f z. f < e \<Longrightarrow> z \<le> m \<Longrightarrow> z div 2 = k div 2 ^ Suc f \<Longrightarrow> cmp (h z) (h (k div 2 ^ f)) \<le> 0"
    and C: "0 < e \<Longrightarrow> cmp (h (k div 2 ^ e)) (h k) \<le> 0"
    and D: "\<And>z. z \<le> m \<Longrightarrow> z div 2 = k \<Longrightarrow> cmp (h z) (h (k div 2 ^ e)) \<le> 0"
  shows "heap_on cmp h' (k div 2 ^ e) m"
  unfolding heap_on_def
proof (intro allI impI, elim conjE)
  fix c assume c: "c \<le> m" "k div 2 ^ e \<le> c div 2"
  note c0 = child_bounds [OF c k(1,3)]
  consider f where "f \<le> e" "c div 2 = k div 2 ^ f" | "\<not> (\<exists>f \<le> e. c div 2 = k div 2 ^ f)" by blast
  then show "cmp (h' c) (h' (c div 2)) \<le> 0"
  proof cases
    case 1
    show ?thesis
    proof (cases f)
      case 0
      have kc: "k = c div 2" using 1 0 by simp
      have "c \<noteq> k div 2 ^ g" for g using div_le_dividend [of k "2 ^ g"] kc c0(3) by linarith
      then have "h' c = h c" by (intro rotatedD(3) [OF r c0(1,2)]) blast
      then show ?thesis using D [of c] c 1 0 rotatedD(1) [OF r] by simp
    next
      case (Suc g)
      then show ?thesis using rotatedD(2) [OF r, of g] 1 A [of g c] C c(1) c0(1) rotate_heap_on_path [OF heap k r c0(1) c(1), of g]
        by simp
    qed
  next
    case 2
    have "c \<noteq> k div 2 ^ f" if "f \<le> e" for f
    proof
      assume eq: "c = k div 2 ^ f"
      then have "\<not> Suc f \<le> e" using 2 div_Suc_pow [of k f] by metis
      then have "f = e" using that by simp
      then show False using eq c(2) c0(3) by simp
    qed
    then have "h' c = h c" by (intro rotatedD(3) [OF r c0(1,2)]) blast
    moreover have "c div 2 \<le> n" using c0(2,3) by linarith
    then have "h' (c div 2) = h (c div 2)" using 2 by (intro rotatedD(3) [OF r c0(4)]) blast+
    moreover have "c div 2 \<noteq> k div 2 ^ e" using 2 by blast
    ultimately show ?thesis using heap_onD [OF heap c(1)] c(2) by simp
  qed
qed

end

section \<open>The loops\<close>

definition elt :: "'a list \<Rightarrow> nat \<Rightarrow> 'a" where
  "elt a l = a ! eyt_slot (length a) l"

lemma do_cmp_elt: "eytzinger1_do_cmp cmp a l r = cmp (elt a l) (elt a r)"
  by (simp add: eytzinger1_do_cmp_def elt_def)

lemma eyt_slot_eq:
  assumes "0 < l" "l \<le> n" "n < 2 ^ 31"
  shows "eyt_slot n l = inorder n 1 ! (l - 1) - 1"
proof -
  have u: "unat (of_nat x :: u32) = x" if "x \<le> n" for x using that assms(3) by (simp add: unat_of_nat)
  have "unat (inorder_to_eytzinger1 (of_nat l) (of_nat n)) = full_node (lg n) (spread n l)"
    using unat_from_inorder [of "of_nat l" "of_nat n"] u assms by simp
  moreover have "full_node (lg n) (spread n l) = inorder n 1 ! (l - 1)"
    using inorder_node_of [of "l - 1" n] assms by simp
  ultimately show ?thesis by (simp only: eyt_slot_def)
qed

lemma eyt_slot_less: "0 < l \<Longrightarrow> l \<le> n \<Longrightarrow> n < 2 ^ 31 \<Longrightarrow> eyt_slot n l < n"
  using inorder_range [of "l - 1" n] by (simp add: eyt_slot_eq) linarith

lemma distinct_inorder: "distinct (inorder n 1)"
  by (intro card_distinct) (simp only: set_inorder length_inorder card_atLeastAtMost diff_Suc_1 Suc_eq_plus1)

lemma eyt_slot_inj:
  assumes "0 < l" "l \<le> n" "0 < r" "r \<le> n" "n < 2 ^ 31" "eyt_slot n l = eyt_slot n r"
  shows "l = r"
proof -
  have b: "l - 1 < n" "r - 1 < n" using assms by simp_all
  have "inorder n 1 ! (l - 1) = inorder n 1 ! (r - 1)"
    using assms inorder_range [OF b(1)] inorder_range [OF b(2)] by (simp add: eyt_slot_eq) linarith
  then have "l - 1 = r - 1" using b distinct_inorder by (simp add: nth_eq_iff_index_eq length_inorder [unfolded One_nat_def])
  then show ?thesis using assms(1,3) by simp
qed

lemma in_order_elt: "k < length a \<Longrightarrow> length a < 2 ^ 31 \<Longrightarrow> in_order a ! k = elt a (Suc k)"
  by (simp add: nth_in_order elt_def eyt_slot_eq)

definition exch :: "'a list \<Rightarrow> nat \<Rightarrow> nat \<Rightarrow> 'a list" where
  "exch a l r = a[eyt_slot (length a) l := elt a r, eyt_slot (length a) r := elt a l]"

lemma length_exch [simp]: "length (exch a l r) = length a"
  by (simp add: exch_def)

lemma mset_exch:
  assumes "0 < l" "l \<le> length a" "0 < r" "r \<le> length a" "length a < 2 ^ 31"
  shows "mset (exch a l r) = mset a"
  using assms eyt_slot_less [of l "length a"] eyt_slot_less [of r "length a"]
  by (simp add: exch_def elt_def mset_swap)

lemma elt_exch:
  assumes "0 < l" "l \<le> length a" "0 < r" "r \<le> length a" "length a < 2 ^ 31" "0 < x" "x \<le> length a"
  shows "elt (exch a l r) x = (if x = r then elt a l else if x = l then elt a r else elt a x)"
proof -
  let ?s = "eyt_slot (length a)"
  have eq: "?s l = ?s x \<longleftrightarrow> x = l" "?s r = ?s x \<longleftrightarrow> x = r"
    using eyt_slot_inj [of l "length a" x] eyt_slot_inj [of r "length a" x] assms by blast+
  have "elt (exch a l r) x = a[?s l := elt a r, ?s r := elt a l] ! ?s x"
    by (simp only: elt_def [of "exch a l r"] length_exch) (simp only: exch_def)
  also have "\<dots> = (if x = r then elt a l else if x = l then elt a r else a ! ?s x)"
    using eyt_slot_less [OF assms(1,2,5)] eyt_slot_less [OF assms(3,4,5)] by (simp add: nth_list_update eq)
  finally show ?thesis by (simp only: elt_def)
qed

text \<open>The exchanges of \<open>shift_up\<close>, from the \<open>e\<close>-th ancestor of \<open>k\<close> on.\<close>

primrec exch_path :: "'a list \<Rightarrow> nat \<Rightarrow> nat \<Rightarrow> 'a list" where
  "exch_path a k 0 = a"
| "exch_path a k (Suc e) = exch (exch_path a k e) (k div 2 ^ Suc e) k"

lemma rotated_Suc:
  assumes r: "rotated h g n k e" and k: "k \<le> n" "0 < k div 2 ^ Suc e"
    and E: "\<And>x. 0 < x \<Longrightarrow> x \<le> n \<Longrightarrow>
      g' x = (if x = k then g (k div 2 ^ Suc e) else if x = k div 2 ^ Suc e then g k else g x)"
  shows "rotated h g' n k (Suc e)"
  unfolding rotated_def
proof (intro conjI allI impI)
  let ?p = "k div 2 ^ Suc e"
  have pos: "0 < k div 2 ^ f" if "f \<le> Suc e" for f
    using k(2) div_pow_mono [OF that, of k] by (rule less_le_trans)
  have le: "k div 2 ^ f \<le> n" for f using div_le_dividend k(1) by (rule order_trans)
  have "0 < k div 2 ^ 0" by (rule pos) simp
  then have k0: "0 < k" by (simp only: power_0 div_by_1)
  have lt: "?p < k div 2 ^ f" if "f \<le> e" for f using that by (intro div_pow_strict pos) simp_all
  have "g ?p = h ?p" using lt by (intro rotatedD(3) [OF r k(2) le]) (blast dest: less_imp_neq)
  then show "g' k = h ?p" using E [OF k0 k(1)] by simp
  show "g' (k div 2 ^ Suc f) = h (k div 2 ^ f)" if f: "f < Suc e" for f
  proof -
    have ne: "k div 2 ^ Suc f \<noteq> k" using div_pow_strict [of 0 "Suc f" k] k0 by simp
    have p: "0 < k div 2 ^ Suc f" using f by (intro pos) simp
    show ?thesis
    proof (cases "f = e")
      case True
      then show ?thesis using E [OF p le] ne rotatedD(1) [OF r] by simp
    next
      case False
      then have "f < e" using f by simp
      then have "k div 2 ^ Suc f \<noteq> ?p" using lt [of "Suc f"] by simp
      then show ?thesis using E [OF p le] ne rotatedD(2) [OF r \<open>f < e\<close>] by (simp only: if_False)
    qed
  qed
  show "g' x = h x" if x: "0 < x \<and> x \<le> n \<and> (\<forall>f \<le> Suc e. x \<noteq> k div 2 ^ f)" for x
  proof -
    have "x \<noteq> k div 2 ^ 0" "x \<noteq> ?p" using x by blast+
    then have "x \<noteq> k" "x \<noteq> ?p" by (simp_all only: power_0 div_by_1 not_False_eq_True)
    then show ?thesis using E [of x] x rotatedD(3) [OF r, of x] by simp
  qed
qed

lemma exch_path_rotated:
  assumes "k \<le> length a" "0 < k div 2 ^ e" "length a < 2 ^ 31"
  shows "length (exch_path a k e) = length a \<and> mset (exch_path a k e) = mset a \<and>
    rotated (elt a) (elt (exch_path a k e)) (length a) k e"
  using assms(2)
proof (induction e)
  case 0
  then show ?case by (simp add: rotated_def)
next
  case (Suc e)
  let ?b = "exch_path a k e" and ?p = "k div 2 ^ Suc e"
  have "?p \<le> k div 2 ^ e" by (rule div_pow_mono) simp
  then have IH: "length ?b = length a" "mset ?b = mset a" "rotated (elt a) (elt ?b) (length a) k e"
    using Suc.IH Suc.prems by linarith+
  have p: "?p \<le> length a" using div_le_dividend assms(1) by (rule order_trans)
  have k0: "0 < k" using Suc.prems by (cases "k = 0") simp_all
  have "rotated (elt a) (elt (exch ?b ?p k)) (length a) k (Suc e)"
    using IH(1) p k0 Suc.prems assms by (intro rotated_Suc [OF IH(3) assms(1) Suc.prems] elt_exch) (simp_all only:)
  moreover have "mset (exch ?b ?p k) = mset a" using IH p k0 Suc.prems assms by (subst mset_exch) (simp_all only:)
  ultimately show ?case using IH(1) by simp
qed

locale element_sort = compare_fun cmp + exchange swap S
  for cmp :: "'a \<Rightarrow> 'a \<Rightarrow> int" and swap :: "'a \<Rightarrow> 'a \<Rightarrow> ('a \<times> 'a) option" and S :: "'a set"
begin

lemma do_swap_exch:
  assumes "set a \<subseteq> S" "0 < l" "l \<le> length a" "0 < r" "r \<le> length a" "length a < 2 ^ 31"
  shows "eytzinger1_do_swap swap a l r = Some (exch a l r)"
proof -
  have "elt a x \<in> S" if "0 < x" "x \<le> length a" for x
    using eyt_slot_less [OF that assms(6)] assms(1) by (auto simp: elt_def)
  then have "swap (elt a l) (elt a r) = Some (elt a r, elt a l)" using assms by (intro swap_exchanges)
  then show ?thesis by (simp add: eytzinger1_do_swap_def exch_def elt_def)
qed

text \<open>The way down ends in a leaf, and no element beside it is above the one on it.\<close>

lemma sift_path_leaf:
  assumes "0 < j" "j \<le> m"
  shows "\<exists>k d. sift_path cmp a m j = Some k \<and> j = k div 2 ^ d \<and> k \<le> m \<and> m < 2 * k \<and>
    (\<forall>f z. f < d \<and> z \<le> m \<and> z div 2 = k div 2 ^ Suc f \<longrightarrow> cmp (elt a z) (elt a (k div 2 ^ f)) \<le> 0)"
  using assms
proof (induction "m - j" arbitrary: j rule: less_induct)
  case less
  show ?case
  proof (cases "j * 2 < m")
    case True
    define c where "c = (if cmp (elt a (2 * j)) (elt a (2 * j + 1)) > 0 then 2 * j else 2 * j + 1)"
    have step: "sift_path cmp a m j = sift_path cmp a m c"
      using True by (subst sift_path.simps) (simp add: Let_def c_def do_cmp_elt mult.commute)
    have c: "c div 2 = j" "0 < c" "c \<le> m" "m - c < m - j" using True less.prems by (auto simp: c_def)
    have best: "cmp (elt a z) (elt a c) \<le> 0" if "z div 2 = j" for z
    proof -
      have "z = 2 * j \<or> z = 2 * j + 1" using that by linarith
      then show ?thesis
        using cmp_less_swap [of "elt a (2 * j + 1)" "elt a (2 * j)"] by (auto simp: c_def)
    qed
    obtain k d where IH: "sift_path cmp a m c = Some k" "c = k div 2 ^ d" "k \<le> m" "m < 2 * k"
        "\<forall>f z. f < d \<and> z \<le> m \<and> z div 2 = k div 2 ^ Suc f \<longrightarrow> cmp (elt a z) (elt a (k div 2 ^ f)) \<le> 0"
      using less.hyps [OF c(4,2,3)] by blast
    have j: "j = k div 2 ^ Suc d" unfolding div_Suc_pow using IH(2) c(1) by simp
    have "cmp (elt a z) (elt a (k div 2 ^ f)) \<le> 0" if "f < Suc d" "z \<le> m" "z div 2 = k div 2 ^ Suc f" for f z
      using that IH(2,5) best j by (cases "f = d") auto
    then show ?thesis using step IH j by metis
  next
    case False
    define k where "k = (if j * 2 = m then j * 2 else j)"
    have "sift_path cmp a m j = Some k" using False by (subst sift_path.simps) (simp add: Let_def k_def)
    moreover have "k \<le> m" "m < 2 * k" using False less.prems by (auto simp: k_def)
    moreover have "\<exists>d. j = k div 2 ^ d \<and> (\<forall>f z. f < d \<and> z \<le> m \<and> z div 2 = k div 2 ^ Suc f \<longrightarrow> cmp (elt a z) (elt a (k div 2 ^ f)) \<le> 0)"
    proof (cases "j * 2 = m")
      case True
      have "cmp (elt a z) (elt a m) \<le> 0" if "z \<le> m" "z div 2 = m div 2" for z
      proof -
        have "z div 2 = j" using that True by auto
        then have "z = m" using that(1) True by linarith
        then show ?thesis by simp
      qed
      then show ?thesis using True by (intro exI [of _ 1]) (simp add: k_def)
    next
      case False
      then show ?thesis by (intro exI [of _ 0]) (simp add: k_def)
    qed
    ultimately show ?thesis by blast
  qed
qed

text \<open>Backtracking stops at the deepest place on the way whose element is above the one to place.\<close>

lemma backtrack_stop:
  assumes "0 < k div 2 ^ d" "b \<le> d" "\<And>c. c < b \<Longrightarrow> cmp (elt a (k div 2 ^ c)) (elt a (k div 2 ^ d)) \<le> 0"
  shows "\<exists>c \<le> d. backtrack cmp a (k div 2 ^ d) (k div 2 ^ b) = Some (k div 2 ^ c) \<and>
    (c = d \<or> cmp (elt a (k div 2 ^ d)) (elt a (k div 2 ^ c)) < 0) \<and>
    (\<forall>c' < c. cmp (elt a (k div 2 ^ c')) (elt a (k div 2 ^ d)) \<le> 0)"
  using assms(2,3)
proof (induction "d - b" arbitrary: b)
  case 0
  then have "b = d" by simp
  then have "backtrack cmp a (k div 2 ^ d) (k div 2 ^ b) = Some (k div 2 ^ d)" by (subst backtrack.simps) simp
  then show ?case using 0 \<open>b = d\<close> by blast
next
  case (Suc n)
  then have "b < d" by simp
  then have ne: "k div 2 ^ b \<noteq> k div 2 ^ d"
    using assms(1) div_pow_inj [of k b d] by (intro notI) simp
  show ?case
  proof (cases "cmp (elt a (k div 2 ^ d)) (elt a (k div 2 ^ b)) < 0")
    case True
    then have "backtrack cmp a (k div 2 ^ d) (k div 2 ^ b) = Some (k div 2 ^ b)"
      by (subst backtrack.simps) (simp add: do_cmp_elt)
    then show ?thesis using True Suc.prems by blast
  next
    case False
    then have "backtrack cmp a (k div 2 ^ d) (k div 2 ^ b) = backtrack cmp a (k div 2 ^ d) (k div 2 ^ Suc b)"
      using ne by (subst backtrack.simps) (simp add: do_cmp_elt div_Suc_pow del: power_Suc)
    moreover have "cmp (elt a (k div 2 ^ c)) (elt a (k div 2 ^ d)) \<le> 0" if "c < Suc b" for c
      using that Suc.prems(2) False cmp_swap [of "elt a (k div 2 ^ b)" "elt a (k div 2 ^ d)"] by (cases "c = b") auto
    ultimately show ?thesis using Suc.hyps(1) [of "Suc b"] Suc.hyps(2) \<open>b < d\<close> by simp
  qed
qed

lemma shift_up_path:
  assumes "set a \<subseteq> S" "k \<le> length a" "0 < k div 2 ^ e" "length a < 2 ^ 31" "f \<le> e"
  shows "shift_up swap (k div 2 ^ e) k (k div 2 ^ f) (exch_path a k f) = Some (exch_path a k e)"
  using assms(5)
proof (induction "e - f" arbitrary: f)
  case 0
  then show ?case by (subst shift_up.simps) simp
next
  case (Suc n)
  then have f: "f < e" by simp
  have pos: "0 < k div 2 ^ g" if "g \<le> e" for g using assms(3) div_pow_mono [OF that, of k] by (rule less_le_trans)
  have ne: "k div 2 ^ f \<noteq> k div 2 ^ e" using div_pow_strict [OF f pos] f by simp
  note b = exch_path_rotated [OF assms(2) pos [of f] assms(4)]
  have "0 < k" using assms(3) by (cases "k = 0") simp_all
  moreover have "k div 2 ^ Suc f \<le> length a" using div_le_dividend assms(2) by (rule order_trans)
  moreover have "set (exch_path a k f) \<subseteq> S" using b f assms(1) by (metis less_imp_le mset_eq_setD)
  ultimately have "eytzinger1_do_swap swap (exch_path a k f) (k div 2 ^ Suc f) k = Some (exch_path a k (Suc f))"
    using b f assms pos [of "Suc f"] by (subst do_swap_exch) (simp_all del: power_Suc)
  moreover have "shift_up swap (k div 2 ^ e) k (k div 2 ^ Suc f) (exch_path a k (Suc f)) = Some (exch_path a k e)"
    using Suc f by (intro Suc.hyps) simp_all
  ultimately show ?case using ne by (subst shift_up.simps) (simp add: div_Suc_pow del: power_Suc exch_path.simps)
qed

text \<open>One sift: the heap grows by the element at \<open>i\<close>; what lies above \<open>m\<close> is untouched.\<close>

definition sifted :: "'a list \<Rightarrow> 'a list \<Rightarrow> nat \<Rightarrow> nat \<Rightarrow> bool" where
  "sifted a a' i m \<longleftrightarrow> heap_on cmp (elt a') i m \<and> length a' = length a \<and> mset a' = mset a \<and>
    (\<forall>x. m < x \<and> x \<le> length a \<longrightarrow> elt a' x = elt a x) \<and>
    (\<forall>x. 0 < x \<and> x \<le> m \<longrightarrow> (\<exists>x'. 0 < x' \<and> x' \<le> m \<and> elt a' x = elt a x'))"

lemma exch_path_sifted:
  assumes "length a < 2 ^ 31" "k \<le> m" "m \<le> length a" "0 < k div 2 ^ e"
    and heap: "heap_on cmp (elt (exch_path a k e)) (k div 2 ^ e) m"
  shows "sifted a (exch_path a k e) (k div 2 ^ e) m"
proof -
  let ?h = "elt a" and ?h' = "elt (exch_path a k e)"
  have "k \<le> length a" using assms by simp
  note r = exch_path_rotated [OF this assms(4,1)]
  then have rot: "rotated ?h ?h' (length a) k e" by blast
  have pos: "0 < k div 2 ^ f" if "f \<le> e" for f using assms(4) div_pow_mono [OF that, of k] by (rule less_le_trans)
  have le: "k div 2 ^ f \<le> m" for f using div_le_dividend assms(2) by (rule order_trans)
  have "?h' x = ?h x" if "m < x" "x \<le> length a" for x
    using that le by (intro rotatedD(3) [OF rot]) (auto simp: not_le [symmetric] simp del: not_le)
  moreover have "\<exists>x'. 0 < x' \<and> x' \<le> m \<and> ?h' x = ?h x'" if x: "0 < x" "x \<le> m" for x
  proof (cases "\<exists>f \<le> e. x = k div 2 ^ f")
    case False
    then have "?h' x = ?h x" using x assms(3) by (intro rotatedD(3) [OF rot]) auto
    then show ?thesis using x by blast
  next
    case True
    then obtain f where f: "f \<le> e" "x = k div 2 ^ f" by blast
    show ?thesis
    proof (cases f)
      case 0
      then show ?thesis using f rotatedD(1) [OF rot] pos [of e] le [of e] by auto
    next
      case (Suc g)
      then show ?thesis using f rotatedD(2) [OF rot, of g] pos [of g] le [of g] by auto
    qed
  qed
  ultimately show ?thesis using r heap by (simp add: sifted_def)
qed

lemma sift_down:
  assumes a: "set a \<subseteq> S" "length a < 2 ^ 31" and i: "0 < i" "i \<le> m" "m \<le> length a"
    and heap: "heap_on cmp (elt a) (Suc i) m"
  shows "\<exists>j k a'. sift_path cmp a m i = Some j \<and> 0 < j \<and> backtrack cmp a i j = Some k \<and> 0 < k \<and>
    shift_up swap i k k a = Some a' \<and> sifted a a' i m"
proof -
  obtain l d where l: "sift_path cmp a m i = Some l" "i = l div 2 ^ d" "l \<le> m" "m < 2 * l"
      and leaf: "\<And>f z. f < d \<Longrightarrow> z \<le> m \<Longrightarrow> z div 2 = l div 2 ^ Suc f \<Longrightarrow> cmp (elt a z) (elt a (l div 2 ^ f)) \<le> 0"
    using sift_path_leaf [OF i(1,2), of a] by blast
  obtain c where c: "c \<le> d" "backtrack cmp a i l = Some (l div 2 ^ c)"
      "c = d \<or> cmp (elt a i) (elt a (l div 2 ^ c)) < 0" "\<And>c'. c' < c \<Longrightarrow> cmp (elt a (l div 2 ^ c')) (elt a i) \<le> 0"
    using backtrack_stop [of l d 0 a] i(1) l(2) by auto
  define k e where "k = l div 2 ^ c" and "e = d - c"
  have kf: "k div 2 ^ f = l div 2 ^ (c + f)" for f by (simp add: k_def div_mult2_eq power_add)
  have ie: "i = k div 2 ^ e" using l(2) c(1) by (simp add: kf e_def)
  have km: "k \<le> m" unfolding k_def using div_le_dividend l(3) by (rule order_trans)
  have kp: "0 < k" using i(1) ie by (cases "k = 0") simp_all
  have kl: "k \<le> length a" using km i(3) by simp
  have "heap_on cmp (elt (exch_path a k e)) (k div 2 ^ e) m"
  proof (rule rotate_heap [where h = "elt a" and n = "length a"])
    show "cmp (elt a z) (elt a (k div 2 ^ f)) \<le> 0" if "f < e" "z \<le> m" "z div 2 = k div 2 ^ Suc f" for f z
      using that unfolding kf e_def by (intro leaf) (simp_all only: add_Suc_right less_diff_conv add.commute)
    show "cmp (elt a (k div 2 ^ e)) (elt a k) \<le> 0" if "0 < e" using c(3) that ie by (auto simp: e_def k_def)
    show "cmp (elt a z) (elt a (k div 2 ^ e)) \<le> 0" if z: "z \<le> m" "z div 2 = k" for z
    proof (cases c)
      case 0
      then show ?thesis using z l(4) by (simp add: k_def)
    next
      case (Suc c')
      have "cmp (elt a z) (elt a (l div 2 ^ c')) \<le> 0" using leaf [of c' z] z c(1) Suc by (simp add: k_def)
      then show ?thesis using c(4) [of c'] Suc ie cmp_trans by auto
    qed
  qed (use heap ie i km kl exch_path_rotated [OF kl _ a(2)] in auto)
  then have "sifted a (exch_path a k e) i m"
    using exch_path_sifted [OF a(2) km i(3)] i(1) ie by simp
  moreover have "shift_up swap i k k a = Some (exch_path a k e)"
    using shift_up_path [OF a(1) kl _ a(2), of e 0] i(1) ie by simp
  moreover have "0 < l" using l(4) by simp
  ultimately show ?thesis using l(1) c(2) kp by (auto simp: k_def)
qed

lemma heapify_heap:
  assumes "set a \<subseteq> S" "length a < 2 ^ 31" "i \<le> length a" "heap_on cmp (elt a) (Suc i) (length a)"
  shows "\<exists>a'. heapify cmp swap i a = Some a' \<and> heap_on cmp (elt a') 1 (length a) \<and> length a' = length a \<and> mset a' = mset a"
  using assms
proof (induction i arbitrary: a)
  case 0
  then show ?case by simp
next
  case (Suc i)
  obtain j k b where s: "sift_path cmp a (length a) (Suc i) = Some j" "backtrack cmp a (Suc i) j = Some k"
      "shift_up swap (Suc i) k k a = Some b" "sifted a b (Suc i) (length a)"
    using sift_down [OF Suc.prems(1,2) _ Suc.prems(3) _ Suc.prems(4)] by auto
  then have b: "length b = length a" "mset b = mset a" "heap_on cmp (elt b) (Suc i) (length b)"
    by (simp_all add: sifted_def)
  moreover have "set b \<subseteq> S" using b(2) Suc.prems(1) by (metis mset_eq_setD)
  ultimately obtain a' where "heapify cmp swap i b = Some a'" "heap_on cmp (elt a') 1 (length b)"
      "length a' = length b" "mset a' = mset b"
    using Suc.IH [of b] Suc.prems by auto
  then show ?case using s b by auto
qed

lemma heap_max: "heap_on cmp h 1 m \<Longrightarrow> 0 < x \<Longrightarrow> x \<le> m \<Longrightarrow> cmp (h x) (h 1) \<le> 0"
proof (induction x rule: less_induct)
  case (less x)
  show ?case
  proof (cases "x = 1")
    case False
    then have "0 < x div 2" "x div 2 < x" using less.prems(2) by simp_all
    then have "cmp (h (x div 2)) (h 1) \<le> 0" using less.prems by (intro less.IH) simp_all
    moreover have "cmp (h x) (h (x div 2)) \<le> 0"
      using less.prems \<open>0 < x div 2\<close> by (intro heap_onD [OF less.prems(1)]) simp_all
    ultimately show ?thesis using cmp_trans by blast
  qed simp
qed

lemma backtrack_root_eq: "0 < j \<Longrightarrow> backtrack cmp a 1 j = Some k \<Longrightarrow> backtrack_root cmp a j = Some (if k = 1 then 0 else k)"
proof (induction j rule: less_induct)
  case (less j)
  have z: "backtrack_root cmp a 0 = Some 0" by (subst backtrack_root.simps) simp
  show ?case
  proof (cases "j \<noteq> 1 \<and> cmp (elt a 1) (elt a j) \<ge> 0")
    case True
    then have "backtrack cmp a 1 (j div 2) = Some k" using less.prems(2) by (subst (asm) backtrack.simps) (simp add: do_cmp_elt)
    then have "backtrack_root cmp a (j div 2) = Some (if k = 1 then 0 else k)"
      using less.prems(1) True by (intro less.IH) auto
    then show ?thesis using True less.prems(1) by (subst backtrack_root.simps) (simp add: do_cmp_elt)
  next
    case False
    then have "k = j" using less.prems(2) by (subst (asm) backtrack.simps) (auto simp: do_cmp_elt)
    then show ?thesis using False less.prems(1) z by (subst backtrack_root.simps) (auto simp: do_cmp_elt)
  qed
qed

lemma shift_root_eq: "0 < j \<Longrightarrow> shift_root swap k j a = shift_up swap 1 k j a"
proof (induction j arbitrary: a rule: less_induct)
  case (less j)
  show ?case
  proof (cases "j = 1")
    case True
    then show ?thesis by (simp add: shift_root.simps shift_up.simps)
  next
    case False
    then have "shift_root swap k (j div 2) = shift_up swap 1 k (j div 2)"
      using less.prems by (intro ext less.IH) auto
    then show ?thesis using False less.prems by (simp add: shift_root.simps [of _ _ j] shift_up.simps [of _ _ _ j])
  qed
qed

text \<open>
  The sorting phase: positions up to \<open>i\<close> are a heap, and every element after them is in its
  final place.
\<close>

definition sorting :: "'a list \<Rightarrow> nat \<Rightarrow> bool" where
  "sorting a i \<longleftrightarrow> heap_on cmp (elt a) 1 i \<and>
    (\<forall>x y. 0 < x \<and> x \<le> y \<and> i < y \<and> y \<le> length a \<longrightarrow> cmp (elt a x) (elt a y) \<le> 0)"

lemma sorting_exch:
  assumes "sorting a (Suc i)" "0 < i" "Suc i \<le> length a" "length a < 2 ^ 31"
  defines "b \<equiv> exch a 1 (Suc i)"
  shows "heap_on cmp (elt b) (Suc 1) i"
    "0 < x \<Longrightarrow> x \<le> y \<Longrightarrow> i < y \<Longrightarrow> y \<le> length b \<Longrightarrow> cmp (elt b x) (elt b y) \<le> 0"
proof -
  have heap: "heap_on cmp (elt a) 1 (Suc i)" and
      tail: "\<And>x y. 0 < x \<Longrightarrow> x \<le> y \<Longrightarrow> Suc i < y \<Longrightarrow> y \<le> length a \<Longrightarrow> cmp (elt a x) (elt a y) \<le> 0"
    using assms(1) by (auto simp: sorting_def)
  have E: "elt b x = (if x = Suc i then elt a 1 else if x = 1 then elt a (Suc i) else elt a x)"
    if "0 < x" "x \<le> length a" for x
    unfolding b_def using assms that by (intro elt_exch) simp_all
  have l: "length b = length a" by (simp add: b_def)
  show "heap_on cmp (elt b) (Suc 1) i"
    unfolding heap_on_def
  proof (intro allI impI, elim conjE)
    fix c assume c: "c \<le> i" "Suc 1 \<le> c div 2"
    then have "elt b c = elt a c" "elt b (c div 2) = elt a (c div 2)" using E [of c] E [of "c div 2"] assms(3) by auto
    then show "cmp (elt b c) (elt b (c div 2)) \<le> 0" using c heap_onD [OF heap, of c] by simp
  qed
  assume xy: "0 < x" "x \<le> y" "i < y" "y \<le> length b"
  obtain x' where x': "elt b x = elt a x'" "0 < x'" "x' \<le> y" "y = Suc i \<longrightarrow> x' \<le> Suc i"
    using E [of x] xy l assms(2) by (cases "x = Suc i \<or> x = 1") (auto split: if_splits)
  show "cmp (elt b x) (elt b y) \<le> 0"
  proof (cases "y = Suc i")
    case True
    then show ?thesis using x' xy l E [of y] heap_max [OF heap, of x'] by simp
  next
    case False
    then show ?thesis using x' xy l E [of y] tail [of x' y] assms(2) by simp
  qed
qed

lemma sorting_step:
  assumes "sorting a (Suc i)" "0 < i" "Suc i \<le> length a" "length a < 2 ^ 31" "set a \<subseteq> S"
  shows "\<exists>b c. eytzinger1_do_swap swap a 1 (Suc i) = Some b \<and>
    do { j \<leftarrow> sift_path cmp b i 1; j \<leftarrow> backtrack_root cmp b j; shift_root swap j j b } = Some c \<and>
    sorting c i \<and> length c = length a \<and> mset c = mset a"
proof -
  let ?b = "exch a 1 (Suc i)"
  note e = sorting_exch [OF assms(1-4)]
  have sw: "eytzinger1_do_swap swap a 1 (Suc i) = Some ?b" using assms by (intro do_swap_exch) simp_all
  have m: "mset ?b = mset a" using assms by (intro mset_exch) simp_all
  then have "set ?b \<subseteq> S" using assms(5) by (metis mset_eq_setD)
  then obtain j k c where s: "sift_path cmp ?b i 1 = Some j" "0 < j" "backtrack cmp ?b 1 j = Some k" "0 < k"
      "shift_up swap 1 k k ?b = Some c" and si: "sifted ?b c 1 i"
    using sift_down [of ?b 1 i] e(1) assms by auto
  have "shift_root swap (if k = 1 then 0 else k) (if k = 1 then 0 else k) ?b = Some c"
    using s(4,5) shift_root_eq [of k k ?b] by (auto simp: shift_root.simps [of _ _ 0] shift_up.simps [of _ "Suc 0" "Suc 0" "Suc 0"])
  then have run: "do { j \<leftarrow> sift_path cmp ?b i 1; j \<leftarrow> backtrack_root cmp ?b j; shift_root swap j j ?b } = Some c"
    using s backtrack_root_eq [OF s(2,3)] by simp
  have "cmp (elt c x) (elt c y) \<le> 0" if xy: "0 < x" "x \<le> y" "i < y" "y \<le> length c" for x y
  proof -
    have y: "elt c y = elt ?b y" "y \<le> length ?b" using si xy by (auto simp: sifted_def)
    obtain x' where "0 < x'" "x' \<le> y" "elt c x = elt ?b x'"
    proof (cases "x \<le> i")
      case True
      then obtain x' where "0 < x'" "x' \<le> i" "elt c x = elt ?b x'" using si xy(1) by (auto simp: sifted_def)
      then show ?thesis using xy(3) by (intro that) simp_all
    next
      case False
      then show ?thesis using si xy y by (intro that [of x]) (simp_all add: sifted_def)
    qed
    then show ?thesis using e(2) [of x' y] xy y by simp
  qed
  then have "sorting c i" using si by (simp add: sorting_def sifted_def)
  then show ?thesis using sw run si m by (auto simp: sifted_def)
qed

lemma sort_down_sorted:
  assumes "sorting a i" "i \<le> length a" "length a < 2 ^ 31" "set a \<subseteq> S"
  shows "\<exists>c. sort_down cmp swap i a = Some c \<and> sorting c (min i 1) \<and> length c = length a \<and> mset c = mset a"
  using assms
proof (induction i arbitrary: a)
  case (Suc i)
  show ?case
  proof (cases "i = 0")
    case True
    then show ?thesis using Suc.prems by simp
  next
    case False
    obtain b c where b: "eytzinger1_do_swap swap a 1 (Suc i) = Some b"
        "do { j \<leftarrow> sift_path cmp b i 1; j \<leftarrow> backtrack_root cmp b j; shift_root swap j j b } = Some c"
        "sorting c i" "length c = length a" "mset c = mset a"
      using sorting_step [OF Suc.prems(1) _ Suc.prems(2,3,4)] False by blast
    have "set c \<subseteq> S" using b(5) Suc.prems(4) by (metis mset_eq_setD)
    then obtain d where d: "sort_down cmp swap i c = Some d" "sorting d (min i 1)" "length d = length c" "mset d = mset c"
      using Suc.IH [OF b(3)] Suc.prems b(4) by auto
    moreover have "min i 1 = min (Suc i) 1" using False by simp
    ultimately show ?thesis using b False by (auto simp: bind_eq_Some_conv)
  qed
qed simp

lemma sort_r_sorted:
  assumes "length a < 2 ^ 31" "set a \<subseteq> S"
  shows "\<exists>c. eytzinger1_sort_r cmp swap a = Some c \<and> mset c = mset a \<and>
    sorted_wrt (\<lambda>x y. cmp x y \<le> 0) (in_order c)"
proof -
  have "heap_on cmp (elt a) (Suc (length a div 2)) (length a)"
    unfolding heap_on_def using div_le_mono [of _ "length a" 2] by fastforce
  then obtain b where b: "heapify cmp swap (length a div 2) a = Some b" "heap_on cmp (elt b) 1 (length a)"
      "length b = length a" "mset b = mset a"
    using heapify_heap [OF assms(2,1), of "length a div 2"] by auto
  then have "sorting b (length b)" by (simp add: sorting_def)
  moreover have "set b \<subseteq> S" using b(4) assms(2) by (metis mset_eq_setD)
  ultimately obtain c where c: "sort_down cmp swap (length b) b = Some c" "sorting c (min (length b) 1)" "length c = length b" "mset c = mset b"
    using sort_down_sorted [of b "length b"] assms(1) b(3) by auto
  have "sorted_wrt (\<lambda>x y. cmp x y \<le> 0) (in_order c)"
    unfolding sorted_wrt_iff_nth_less
  proof (intro allI impI)
    fix x y assume xy: "x < y" "y < length (in_order c)"
    then have "cmp (elt c (Suc x)) (elt c (Suc y)) \<le> 0" using c(2) by (auto simp: sorting_def)
    then show "cmp (in_order c ! x) (in_order c ! y) \<le> 0" using xy c(3) b(3) assms(1) by (simp add: in_order_elt)
  qed
  then show ?thesis using b c by (simp add: eytzinger1_sort_r_def)
qed

end

section \<open>The contract\<close>

text \<open>Comparison callbacks compare a key of the elements; sorting bytes with the built-in exchanges.\<close>

lemma compare_fun_key: "compare_fun (\<lambda>x y. cmp_int (key x) (key y))"
  by (rule compare_fun.intro) (auto simp: cmp_simps)

interpretation keyed_sort: element_sort "\<lambda>x y. cmp_int (key x) (key y)" "do_swap (unat sz) (pick_swap base sz None)"
  "{x. length x = unat sz \<and> x \<noteq> []}"
  by (rule element_sort.intro) (rule compare_fun_key builtin_swap.exchange_axioms)+

lemma sort_sorted:
  assumes "compare_fun cmp" "length a < 2 ^ 31" "\<forall>x \<in> set a. length x = unat sz" "0 < unat sz"
  shows "\<exists>c. eytzinger0_sort base sz cmp None a = Some c \<and> mset c = mset a \<and>
    sorted_wrt (\<lambda>x y. cmp x y \<le> 0) (in_order c)"
proof -
  have "element_sort cmp (do_swap (unat sz) (pick_swap (base - sz) sz None)) {x. length x = unat sz \<and> x \<noteq> []}"
    using assms(1) builtin_swap.exchange_axioms by (rule element_sort.intro)
  moreover have "set a \<subseteq> {x. length x = unat sz \<and> x \<noteq> []}" using assms(3,4) by force
  ultimately show ?thesis
    unfolding eytzinger0_sort_def using assms(2) by (intro element_sort.sort_r_sorted)
qed

text \<open>
  C11. \<open>eytzinger0_sort\<close> without a swap callback, on fewer than \<open>2\<^sup>3\<^sup>1\<close> elements of \<open>sz > 0\<close>
  bytes at any address and with a comparison that is a total preorder: every loop terminates, no
  exchange leaves the elements it exchanges, the result is a permutation of the elements, and
  its in-order sequence is sorted.
\<close>

theorem eytzinger_sort_correct:
  assumes "compare_fun cmp" "length a < 2 ^ 31" "\<forall>x \<in> set a. length x = unat sz" "0 < unat sz"
  shows "\<exists>c. eytzinger0_sort base sz cmp None a = Some c \<and> mset c = mset a \<and>
    sorted_wrt (\<lambda>x y. cmp x y \<le> 0) (in_order c)"
  using assms by (rule sort_sorted)

theorem eytzinger_sort_correct_witness:
  "\<exists>c. eytzinger0_sort 0 2 (\<lambda>x y. cmp_int (hd x) (hd y)) None [[3, 0], [1, 0], [2, 0]] = Some c \<and>
    mset c = {#[1, 0], [2, 0], [3, 0]#}"
  using eytzinger_sort_correct [of "\<lambda>x y. cmp_int (hd x) (hd y)" "[[3, 0], [1, 0], [2, 0]]" 2 0]
    compare_fun_key [of hd] by (auto simp: add_mset_commute)

end
