(* ===== verification/Varint.thy ===== *)
theory Varint
  imports Bch_Prelude
begin

text \<open>
  Variable length integers (\<^verbatim>\<open>libbcachefs/varint.c\<close>), the encoding of inode fields and of
  other packed values. A varint of \<open>b \<le> 8\<close> bytes is the little-endian word
  \<open>v << b\<close> with the low \<open>b - 1\<close> bits set, so that the number of trailing ones of the
  first byte gives its length; a 9 byte varint is the byte 255 followed by the plain
  little-endian value.

  An output buffer is the list of bytes written, an input buffer is the list of the bytes
  from \<open>in\<close> on.
\<close>

section \<open>Little-endian loads and stores\<close>

primrec le_nat :: "u8 list \<Rightarrow> nat" where
  "le_nat [] = 0"
| "le_nat (b # bs) = unat b + 256 * le_nat bs"

primrec le_bytes :: "nat \<Rightarrow> nat \<Rightarrow> u8 list" where
  "le_bytes 0 v = []"
| "le_bytes (Suc n) v = word_of_nat (v mod 256) # le_bytes n (v div 256)"

definition get_unaligned_le64 :: "u8 list \<Rightarrow> u64" where
  "get_unaligned_le64 p = word_of_nat (le_nat (take 8 p))"

definition put_unaligned_le64 :: "u64 \<Rightarrow> u8 list" where
  "put_unaligned_le64 v = le_bytes 8 (unat v)"

section \<open>The codec\<close>

definition bch2_varint_encode :: "u64 \<Rightarrow> nat \<times> u8 list" where
  "bch2_varint_encode v =
     (let bits = fls64 (v OR 1);
          bytes = DIV_ROUND_UP bits 7
      in if bytes < 9 then
           let v = push_bit bytes v;
               v = v OR scast (NOT (push_bit (bytes - 1) (NOT 0 :: 32 word)));
               v_le = put_unaligned_le64 v
           in (bytes, take bytes v_le)
         else (9, 255 # put_unaligned_le64 v))"

definition bch2_varint_decode :: "u8 list \<Rightarrow> bch_err + (nat \<times> u64)" where
  "bch2_varint_decode inp =
     (let bytes = (case inp of b # _ \<Rightarrow> ffz_word (ucast b AND 255 :: u64) + 1 | [] \<Rightarrow> 1)
      in if bytes > length inp then Inl BCH_ERR_varint_decode_error
         else if bytes < 9 then
           Inr (bytes, drop_bit bytes (get_unaligned_le64 (take bytes inp)))
         else Inr (bytes, get_unaligned_le64 (drop 1 inp)))"

definition bch2_varint_encode_fast :: "u64 \<Rightarrow> nat \<times> u8 list" where
  "bch2_varint_encode_fast v =
     (let bits = fls64 (v OR 1);
          bytes = DIV_ROUND_UP bits 7
      in if bytes < 9 then
           let v = push_bit bytes v;
               v = v OR ucast (NOT (push_bit (bytes - 1) (NOT 0 :: 32 word)))
           in (bytes, put_unaligned_le64 v)
         else (9, 255 # put_unaligned_le64 v))"

text \<open>
  The fast decoder is given the readable bytes \<open>mem\<close> from \<open>in\<close> on and the distance
  \<open>len\<close> from \<open>in\<close> to \<open>end\<close>: it loads 8 bytes before it looks at \<open>end\<close>.
\<close>

definition bch2_varint_decode_fast :: "u8 list \<Rightarrow> nat \<Rightarrow> bch_err + (nat \<times> u64)" where
  "bch2_varint_decode_fast mem len =
     (let v = get_unaligned_le64 mem;
          bytes = ffz_word (ucast (hd mem) :: u64) + 1
      in if bytes > len then Inl BCH_ERR_varint_decode_error
         else if bytes < 9 then
           Inr (bytes, drop_bit bytes v AND NOT (push_bit (7 * bytes) (NOT 0)))
         else Inr (bytes, get_unaligned_le64 (drop 1 mem)))"

section \<open>Facts on the byte layer\<close>

lemma length_le_bytes [simp]: "length (le_bytes n v) = n"
  by (induction n arbitrary: v) simp_all

lemma length_put_le64 [simp]: "length (put_unaligned_le64 v) = 8"
  by (simp add: put_unaligned_le64_def)

lemma take_le_bytes: "m \<le> n \<Longrightarrow> take m (le_bytes n v) = le_bytes m v"
proof (induction n arbitrary: m v)
  case (Suc n)
  then show ?case by (cases m) simp_all
qed simp

lemma unat_byte [simp]: "unat (word_of_nat (v mod 256) :: u8) = v mod 256"
  by (simp add: unat_of_nat take_bit_eq_mod)

lemma le_nat_le_bytes: "le_nat (le_bytes n v) = v mod 256 ^ n"
proof (induction n arbitrary: v)
  case (Suc n)
  then have "le_nat (le_bytes (Suc n) v) = v mod 256 + 256 * (v div 256 mod 256 ^ n)" by simp
  also have "\<dots> = v mod (256 * 256 ^ n)" by (simp add: mod_mult2_eq)
  finally show ?case by simp
qed simp

lemma le_nat_less: "le_nat bs < 256 ^ length bs"
proof (induction bs)
  case (Cons b bs)
  have "unat b < 256" using unat_less [of b] by simp
  moreover have "Suc (le_nat bs) \<le> 256 ^ length bs" using Cons by simp
  then have "256 * Suc (le_nat bs) \<le> 256 * 256 ^ length bs" by (rule mult_le_mono2)
  ultimately show ?case by simp
qed simp

lemma le_nat_take: "n \<le> length bs \<Longrightarrow> le_nat (take n bs) = le_nat bs mod 256 ^ n"
proof (induction bs arbitrary: n)
  case (Cons b bs)
  show ?case
  proof (cases n)
    case (Suc m)
    have "unat b < 256" using unat_less [of b] by simp
    then have "(unat b + 256 * le_nat bs) mod (256 * 256 ^ m) =
        unat b + 256 * (le_nat bs mod 256 ^ m)"
      by (simp add: mod_mult2_eq)
    with Cons Suc show ?thesis by simp
  qed simp
qed simp

lemma unat_get_le64: "unat (get_unaligned_le64 bs) = le_nat (take 8 bs)"
proof -
  have "le_nat (take 8 bs) < 256 ^ length (take 8 bs)" by (rule le_nat_less)
  also have "\<dots> \<le> 256 ^ 8" by (rule power_increasing) simp_all
  also have "\<dots> = 2 ^ 64" by simp
  finally show ?thesis
    by (simp add: get_unaligned_le64_def unat_of_nat take_bit_eq_mod)
qed

lemma le_nat_put_le64: "n \<le> 8 \<Longrightarrow> le_nat (take n (put_unaligned_le64 v)) = unat v mod 256 ^ n"
  by (simp add: put_unaligned_le64_def take_le_bytes le_nat_le_bytes)

lemma get_put_le64 [simp]: "get_unaligned_le64 (put_unaligned_le64 v @ rest) = v"
proof (rule word_unat_eq_iff [THEN iffD2])
  have "unat v mod 256 ^ 8 = unat v" using unat_less [of v] by simp
  then show "unat (get_unaligned_le64 (put_unaligned_le64 v @ rest)) = unat v"
    using le_nat_put_le64 [of 8 v] by (simp add: unat_get_le64)
qed


section \<open>Length and shape of an encoding\<close>

definition varint_bytes :: "u64 \<Rightarrow> nat" where
  "varint_bytes v = DIV_ROUND_UP (fls64 (v OR 1)) 7"

lemma unat_or_1: "unat (v OR 1 :: u64) = unat v + of_bool (even (unat v))"
proof -
  have "unat (v OR 1 :: u64) = unat v OR 1" by (simp only: unsigned_or_eq unsigned_1)
  also have "\<dots> = unat v + of_bool (even (unat v))" by (rule or_one_eq)
  finally show ?thesis .
qed

lemma unat_or_1_less: "0 < k \<Longrightarrow> unat (v OR 1 :: u64) < 2 ^ k \<longleftrightarrow> unat v < 2 ^ k"
proof (cases "even (unat v)")
  case True
  assume "0 < k"
  then have "even ((2::nat) ^ k)" by simp
  with True have "Suc (unat v) \<noteq> 2 ^ k" by (metis even_Suc)
  then show ?thesis using True by (simp add: unat_or_1) linarith
qed (simp add: unat_or_1)

lemma varint_bytes_le_iff:
  assumes "0 < n"
  shows "varint_bytes v \<le> n \<longleftrightarrow> unat v < 2 ^ (7 * n)"
proof -
  have "varint_bytes v \<le> n \<longleftrightarrow> fls64 (v OR 1) + 6 < 7 * Suc n"
    unfolding varint_bytes_def DIV_ROUND_UP_def less_Suc_eq_le [symmetric]
    by (simp add: div_less_iff_less_mult mult.commute)
  also have "\<dots> \<longleftrightarrow> fls64 (v OR 1) \<le> 7 * n" by auto
  also have "\<dots> \<longleftrightarrow> unat v < 2 ^ (7 * n)"
    using assms by (simp add: fls64_le_iff unat_or_1_less)
  finally show ?thesis .
qed

lemma varint_bytes_pos: "0 < varint_bytes v"
proof -
  have "fls64 (v OR 1) \<noteq> 0" by (cases "unat v = 0") (simp_all add: fls64_def unat_or_1)
  then show ?thesis by (simp add: varint_bytes_def DIV_ROUND_UP_def div_greater_zero_iff)
qed

lemma low_mask_32: "scast (mask n :: 32 word) = (mask n :: u64)" if "n < 32"
  using that by (intro bit_word_eqI) (auto simp: bit_simps)

lemma low_mask_u32: "ucast (mask n :: 32 word) = (mask n :: u64)" if "n < 32"
  using that by (intro bit_word_eqI) (auto simp: bit_simps)

text \<open>The word stored by the short form, for a value of \<open>b\<close> bytes.\<close>

lemma unat_varint_word:
  fixes v :: u64
  assumes b: "0 < b" "b < 9" and v: "unat v < 2 ^ (7 * b)"
  shows "unat (push_bit b v OR mask (b - 1)) = unat v * 2 ^ b + (2 ^ (b - 1) - 1)"
    and "unat v * 2 ^ b + (2 ^ (b - 1) - 1) < 256 ^ b"
proof -
  have "Suc (unat v) * 2 ^ b \<le> 2 ^ (7 * b) * 2 ^ b" using v by (intro mult_le_mono1) simp
  also have "\<dots> = 256 ^ b" by (simp add: power_mult power_mult_distrib [symmetric])
  finally have lt: "unat v * 2 ^ b + 2 ^ b \<le> 256 ^ b" by simp
  have m: "(2::nat) ^ (b - 1) - 1 < 2 ^ b" by (meson diff_le_self le_less_trans less_exp power_strict_increasing_iff
        diff_less b(1) one_less_numeral_iff semiring_norm(76) zero_less_one less_le_trans)
  have p: "(256::nat) ^ b \<le> 256 ^ 8" using b by (intro power_increasing) simp_all
  have "(0::nat) < 2 ^ b" by simp
  then have "unat v * 2 ^ b < 256 ^ 8" using lt p by linarith
  then have "unat v * 2 ^ b < 2 ^ LENGTH(64)" by simp
  then have u: "unat (push_bit b v) = unat v * 2 ^ b" by (rule unat_push_bit_less)
  have um: "unat (mask (b - 1) :: u64) = 2 ^ (b - 1) - 1"
    using b by (simp add: unat_mask)
  show "unat (push_bit b v OR mask (b - 1)) = unat v * 2 ^ b + (2 ^ (b - 1) - 1)"
    using or_low_high(2) [of "push_bit b v" b "mask (b - 1)"] m by (simp only: u um) simp
  show "unat v * 2 ^ b + (2 ^ (b - 1) - 1) < 256 ^ b" using lt m by linarith
qed

lemma bch2_varint_encode_short:
  assumes "varint_bytes v < 9"
  shows "bch2_varint_encode v = (varint_bytes v,
     take (varint_bytes v) (put_unaligned_le64 (push_bit (varint_bytes v) v OR mask (varint_bytes v - 1))))"
  using assms low_mask_32 [of "varint_bytes v - 1"]
  by (simp add: bch2_varint_encode_def varint_bytes_def [symmetric] Let_def)

lemma bch2_varint_encode_fast_short:
  assumes "varint_bytes v < 9"
  shows "bch2_varint_encode_fast v = (varint_bytes v,
     put_unaligned_le64 (push_bit (varint_bytes v) v OR mask (varint_bytes v - 1)))"
  using assms low_mask_u32 [of "varint_bytes v - 1"]
  by (simp add: bch2_varint_encode_fast_def varint_bytes_def [symmetric] Let_def)

lemma bch2_varint_encode_long:
  assumes "\<not> varint_bytes v < 9"
  shows "bch2_varint_encode v = (9, 255 # put_unaligned_le64 v)"
    and "bch2_varint_encode_fast v = (9, 255 # put_unaligned_le64 v)"
  using assms
  by (simp_all add: bch2_varint_encode_def bch2_varint_encode_fast_def varint_bytes_def Let_def)

lemma length_bch2_varint_encode:
  "length (snd (bch2_varint_encode v)) = fst (bch2_varint_encode v)"
  "fst (bch2_varint_encode v) = min 9 (varint_bytes v)"
  by (cases "varint_bytes v < 9"; simp add: bch2_varint_encode_short bch2_varint_encode_long)+

text \<open>The number of trailing ones of the first byte.\<close>

lemma ffz_ucast_byte:
  assumes "k \<le> 8" "unat (b :: u8) mod 2 ^ Suc k = 2 ^ k - 1"
  shows "ffz_word (ucast b :: u64) = k"
proof (rule ffz_word_eqI)
  have "unat (ucast b :: u64) = unat b"
    using unat_less [of b] by (simp add: unsigned_ucast_eq take_bit_eq_mod)
  then show "unat (ucast b :: u64) mod 2 ^ Suc k = 2 ^ k - 1" using assms(2) by simp
qed (use assms(1) in simp)

lemma byte_and_255 [simp]: "(ucast (b :: u8) :: u64) AND 255 = ucast b"
proof -
  have m: "(255 :: u64) = mask 8" by (simp add: mask_eq_exp_minus_1)
  have "unat ((ucast b :: u64) AND mask 8) = unat (ucast b :: u64)"
    using unat_less [of b] by (simp only: unat_and_mask) (simp add: unsigned_ucast_eq take_bit_eq_mod)
  then show ?thesis by (simp only: m word_unat_eq_iff)
qed

lemma hd_varint_word:
  assumes b: "0 < b" "b < 9" and W: "W = unat v * 2 ^ b + (2 ^ (b - 1) - 1)"
  shows "ffz_word (ucast (word_of_nat (W mod 256) :: u8) :: u64) = b - 1"
proof (rule ffz_ucast_byte)
  show "b - 1 \<le> 8" using b by simp
  have d: "(2::nat) ^ b dvd 256"
    using b le_imp_power_dvd [of b 8 "2::nat"] by simp
  have "W mod 256 mod 2 ^ b = W mod 2 ^ b" using d by (rule mod_mod_cancel)
  also have "\<dots> = (2 ^ (b - 1) - 1) mod 2 ^ b" unfolding W by (rule mod_mult_self3)
  also have "\<dots> = 2 ^ (b - 1) - 1" using b
    by (intro mod_less) (metis Suc_pred' diff_less le_less_trans less_exp lessI power_strict_increasing
        one_less_numeral_iff semiring_norm(76) zero_less_one diff_le_self)
  finally show "unat (word_of_nat (W mod 256) :: u8) mod 2 ^ Suc (b - 1) = 2 ^ (b - 1) - 1"
    using b by simp
qed

section \<open>Decoding\<close>

text \<open>The first byte decides the length; eight trailing ones mark the long form.\<close>

lemma ffz_byte_le_8: "ffz_word (ucast (b :: u8) :: u64) \<le> 8"
proof -
  have u: "unat (ucast b :: u64) = unat b"
    using unat_less [of b] by (simp add: unsigned_ucast_eq take_bit_eq_mod)
  have lt: "unat b < 256" using unat_less [of b] by simp
  show ?thesis
  proof (cases "unat b = 255")
    case True
    then have "ffz_word (ucast b :: u64) = 8" by (intro ffz_ucast_byte) simp_all
    then show ?thesis by simp
  next
    case False
    define n where "n = unat (NOT (ucast b :: u64))"
    have n: "n = 2 ^ 64 - 1 - unat b" by (simp add: n_def unat_NOT u)
    define r where "r = 255 - unat b"
    have r: "0 < r" "r < 256" using False lt by (simp_all add: r_def)
    have "n = 256 * (2 ^ 56 - 1) + r" using lt by (simp add: n r_def)
    then have "n mod 256 = r" using r(2) by (simp only: mod_mult_self4 mod_less)
    with r(1) have "n mod 256 \<noteq> 0" by simp
    moreover have "0 < n" using lt by (simp add: n)
    then have "2 ^ ffs_nat n dvd n" using ffs_nat_decomp dvd_def by blast
    then have "8 \<le> ffs_nat n \<Longrightarrow> 2 ^ 8 dvd n" using le_imp_power_dvd dvd_trans by blast
    ultimately have "\<not> 8 \<le> ffs_nat n" by auto
    then show ?thesis by (simp add: ffz_word_def ffs_word_def n_def)
  qed
qed

lemma div_mult_add_less: "(r::nat) < m \<Longrightarrow> (q * m + r) div m = q"
  by simp

lemma decode_short_append:
  assumes b: "0 < b" "b < 9" and v: "unat v < 2 ^ (7 * b)"
  shows "bch2_varint_decode (take b (put_unaligned_le64 (push_bit b v OR mask (b - 1))) @ rest)
     = Inr (b, v)"
proof -
  define W where "W = unat (push_bit b v OR mask (b - 1))"
  have W: "W = unat v * 2 ^ b + (2 ^ (b - 1) - 1)" "W < 256 ^ b"
    using unat_varint_word [OF b v] by (simp_all add: W_def)
  have enc: "take b (put_unaligned_le64 (push_bit b v OR mask (b - 1))) = le_bytes b W"
    using b by (simp add: put_unaligned_le64_def take_le_bytes W_def)
  obtain c where c: "b = Suc c" using b gr0_implies_Suc by blast
  have f: "ffz_word (ucast (word_of_nat (W mod 256) :: u8) :: u64) = c"
    using hd_varint_word [OF b W(1)] by (simp add: c)
  have "unat (get_unaligned_le64 (le_bytes b W)) = W"
    using b W(2) by (simp add: unat_get_le64 le_nat_le_bytes)
  moreover have "(2::nat) ^ (b - 1) - 1 < 2 ^ b" by (simp add: c less_imp_diff_less)
  then have "W div 2 ^ b = unat v" unfolding W(1) by (rule div_mult_add_less)
  ultimately have "drop_bit b (get_unaligned_le64 (le_bytes b W)) = v"
    by (simp add: word_unat_eq_iff unat_drop_bit)
  then show ?thesis
    unfolding enc using b(2) f by (simp add: bch2_varint_decode_def c Let_def)
qed

lemma decode_long_append:
  "bch2_varint_decode (255 # put_unaligned_le64 v @ rest) = Inr (9, v)"
proof -
  have "ffz_word (ucast (255 :: u8) :: u64) = 8" by (rule ffz_ucast_byte) simp_all
  then show ?thesis by (simp add: bch2_varint_decode_def)
qed

lemma varint_roundtrip_append:
  "bch2_varint_decode (snd (bch2_varint_encode v) @ rest) = Inr (fst (bch2_varint_encode v), v)"
proof (cases "varint_bytes v < 9")
  case True
  then show ?thesis
    using decode_short_append [of "varint_bytes v" v rest] varint_bytes_le_iff [of "varint_bytes v" v]
    by (simp add: bch2_varint_encode_short varint_bytes_pos)
qed (simp add: bch2_varint_encode_long decode_long_append)

text \<open>A successful decode depends on, and needs, exactly the bytes it reports.\<close>

lemma decode_consumed:
  assumes "bch2_varint_decode xs = Inr (n, v)"
  shows "0 < n" "n \<le> length xs" "bch2_varint_decode (take n xs) = Inr (n, v)"
    and "k < n \<Longrightarrow> bch2_varint_decode (take k xs) = Inl BCH_ERR_varint_decode_error"
proof -
  obtain x ys where xs: "xs = x # ys"
    using assms by (cases xs) (simp_all add: bch2_varint_decode_def Let_def split: if_splits)
  define m where "m = Suc (ffz_word (ucast x :: u64))"
  have m: "m \<le> 9" using ffz_byte_le_8 [of x] by (simp add: m_def)
  have n: "n = m" "m \<le> length xs"
    using assms by (auto simp: xs bch2_varint_decode_def m_def Let_def split: if_splits)
  show "0 < n" "n \<le> length xs" using n by (simp_all add: m_def)
  have "take 8 (take (length xs) (drop 1 xs)) = take 8 (drop 1 xs)" by simp
  then show "bch2_varint_decode (take n xs) = Inr (n, v)"
    using assms n m by (auto simp: xs bch2_varint_decode_def m_def Let_def take_Cons'
        get_unaligned_le64_def min_def split: if_splits)
  show "bch2_varint_decode (take k xs) = Inl BCH_ERR_varint_decode_error" if "k < n"
    using that n by (cases k) (simp_all add: xs bch2_varint_decode_def m_def Let_def)
qed

lemma mod_div_pow: "((N::nat) mod 256 ^ b) div 2 ^ b = N div 2 ^ b mod 2 ^ (7 * b)"
proof -
  have "(256::nat) ^ b = 2 ^ b * 2 ^ (7 * b)" by (simp add: power_mult power_mult_distrib [symmetric])
  then show ?thesis by (simp add: mod_mult2_eq)
qed

lemma decode_fast_eq:
  assumes mem: "8 \<le> length mem" and len: "len \<le> length mem"
  shows "bch2_varint_decode_fast mem len = bch2_varint_decode (take len mem)"
proof -
  obtain x ys where xs: "mem = x # ys" using mem by (cases mem) simp_all
  define b where "b = Suc (ffz_word (ucast x :: u64))"
  show ?thesis
  proof (cases "b \<le> len")
    case False
    then show ?thesis
      by (cases len) (simp_all add: xs bch2_varint_decode_def bch2_varint_decode_fast_def b_def Let_def)
  next
    case True
    then obtain l where l: "len = Suc l" by (cases len) (simp_all add: b_def)
    have "drop_bit b (get_unaligned_le64 mem) AND mask (7 * b) =
        drop_bit b (get_unaligned_le64 (take b mem))" if "b < 9"
    proof -
      have "unat (get_unaligned_le64 (take b mem)) = le_nat (take 8 mem) mod 256 ^ b"
        using that mem le_nat_take [of b "take 8 mem"]
        by (simp add: unat_get_le64 min.absorb1 min.absorb2)
      then show ?thesis
        by (simp add: word_unat_eq_iff unat_and_mask unat_drop_bit unat_get_le64 mod_div_pow)
    qed
    moreover have "take 8 ys = take 8 (take l ys)" if "\<not> b < 9"
      using that True l by (simp add: min_def)
    ultimately show ?thesis using True len
      by (auto simp: xs l bch2_varint_decode_def bch2_varint_decode_fast_def b_def Let_def
          get_unaligned_le64_def min_def)
  qed
qed

lemma encode_fast_eq:
  "fst (bch2_varint_encode_fast v) = fst (bch2_varint_encode v)"
  "take (fst (bch2_varint_encode v)) (snd (bch2_varint_encode_fast v)) = snd (bch2_varint_encode v)"
  by (cases "varint_bytes v < 9"; simp add: bch2_varint_encode_short bch2_varint_encode_fast_short
      bch2_varint_encode_long)+

section \<open>Properties\<close>

text \<open>
  C17: decoding an encoded integer, whatever bytes follow it, gives back the integer and
  the number of bytes the encoder reported.
\<close>

theorem varint_roundtrip:
  "bch2_varint_decode (snd (bch2_varint_encode v) @ rest) = Inr (fst (bch2_varint_encode v), v)"
  by (rule varint_roundtrip_append)

text \<open>
  C18: the fast decoder, run where at least 8 bytes can be read, agrees with the careful
  decoder on the bytes up to \<open>end\<close>, errors included; and the fast encoder reports the same
  size as the careful one and writes the same bytes in that range.
\<close>

theorem varint_fast_agrees:
  assumes "8 \<le> length mem" and "len \<le> length mem"
  shows "bch2_varint_decode_fast mem len = bch2_varint_decode (take len mem) \<and>
    fst (bch2_varint_encode_fast v) = fst (bch2_varint_encode v) \<and>
    take (fst (bch2_varint_encode v)) (snd (bch2_varint_encode_fast v)) = snd (bch2_varint_encode v)"
  using assms by (simp add: decode_fast_eq encode_fast_eq)

theorem varint_fast_agrees_witness:
  "bch2_varint_decode_fast [4, 0, 0, 0, 0, 0, 0, 0] 1 = bch2_varint_decode (take 1 [4, 0, 0, 0, 0, 0, 0, 0])
   \<and> fst (bch2_varint_encode_fast 2) = fst (bch2_varint_encode 2)"
  using varint_fast_agrees [of "[4, 0, 0, 0, 0, 0, 0, 0]" 1 2] by simp

text \<open>
  C19: an encoding has the length it reports, between 1 and 9 bytes, and is minimal: it
  fits in \<open>n < 9\<close> bytes exactly when the value is below \<open>2 ^ (7 n)\<close>. A decoder given any
  proper prefix of an encoding reports an error instead of a value.
\<close>

theorem varint_length:
  assumes "0 < n" "n < 9" and "k < fst (bch2_varint_encode v)"
  shows "length (snd (bch2_varint_encode v)) = fst (bch2_varint_encode v) \<and>
    fst (bch2_varint_encode v) \<le> 9 \<and>
    (fst (bch2_varint_encode v) \<le> n \<longleftrightarrow> unat v < 2 ^ (7 * n)) \<and>
    bch2_varint_decode (take k (snd (bch2_varint_encode v))) = Inl BCH_ERR_varint_decode_error"
proof (intro conjI)
  show "bch2_varint_decode (take k (snd (bch2_varint_encode v))) = Inl BCH_ERR_varint_decode_error"
    using varint_roundtrip_append [of v "[]"] assms(3) by (simp add: decode_consumed(4))
qed (use assms in \<open>auto simp: length_bch2_varint_encode varint_bytes_pos
    varint_bytes_le_iff [symmetric] min_def\<close>)

theorem varint_length_witness:
  "fst (bch2_varint_encode 300) = 2 \<and> (fst (bch2_varint_encode 300) \<le> 1 \<longleftrightarrow> unat (300 :: u64) < 2 ^ (7 * 1))
   \<and> bch2_varint_decode (take 1 (snd (bch2_varint_encode 300))) = Inl BCH_ERR_varint_decode_error"
proof -
  have "fst (bch2_varint_encode 300) \<le> 2" "\<not> fst (bch2_varint_encode 300) \<le> 1"
    using varint_bytes_le_iff [of 2 300] varint_bytes_le_iff [of 1 300]
    by (simp_all add: length_bch2_varint_encode)
  then have 2: "fst (bch2_varint_encode 300) = 2" by linarith
  with varint_length [of 1 1 300] show ?thesis by simp
qed

end
