(* ===== verification/Seq_Blacklist.thy ===== *)
theory Seq_Blacklist
  imports Eytzinger_Sort Varint
begin

unbundle bit_operations_syntax

text \<open>
  Blacklisted journal sequence numbers (\<^verbatim>\<open>libbcachefs/journal_seq_blacklist.c\<close>): the superblock
  holds half-open ranges, sorted; at run time they are looked up in a table sorted in eytzinger
  order, so this component composes the routines of \<open>Eytzinger_Sort\<close> and \<open>Eytzinger_Index\<close>.

  Parameters for parts outside this component: \<open>resize u64s\<close> says whether the superblock has room
  for a field of that size (\<^verbatim>\<open>bch2_sb_field_resize\<close>, which zeroes what it adds), \<open>write_super\<close> is
  the result of writing it, \<open>alloc\<close> whether memory for the table is available, and \<open>addr\<close> the
  address it gets. \<open>None\<close> is a failed assertion.
\<close>

section \<open>The code\<close>

record journal_seq_blacklist_entry =
  jstart :: u64
  jend :: u64

record journal_seq_blacklist_table_entry =
  tstart :: u64
  tend :: u64
  tdirty :: bool

text \<open>The parts of \<^verbatim>\<open>struct bch_fs\<close> the code uses: the superblock field, its feature bit, the table.\<close>

record bl_fs =
  sb_bl :: "journal_seq_blacklist_entry list option"
  sb_feature :: bool
  bl_table :: "journal_seq_blacklist_table_entry list option"

definition bl_entries :: "bl_fs \<Rightarrow> journal_seq_blacklist_entry list" where
  "bl_entries c = (case sb_bl c of None \<Rightarrow> [] | Some bl \<Rightarrow> bl)"

definition sb_blacklist_u64s :: "nat \<Rightarrow> nat" where
  "sb_blacklist_u64s nr = (8 + 16 * nr) div 8"

text \<open>The field after a resize to \<open>nr\<close> entries.\<close>

definition bl_resized :: "journal_seq_blacklist_entry list \<Rightarrow> nat \<Rightarrow> journal_seq_blacklist_entry list" where
  "bl_resized bl nr = take nr bl @ replicate (nr - length bl) \<lparr>jstart = 0, jend = 0\<rparr>"

text \<open>The array macros of \<^verbatim>\<open>util.h\<close>, on arrays that may be longer than their \<open>nr\<close> items.\<close>

definition array_insert_item :: "'a list \<Rightarrow> nat \<Rightarrow> nat \<Rightarrow> 'a \<Rightarrow> 'a list" where
  "array_insert_item a nr pos x = (take pos a @ a ! pos # take (nr - pos) (drop pos a) @ drop (nr + 1) a)[pos := x]"

definition array_remove_items :: "'a list \<Rightarrow> nat \<Rightarrow> nat \<Rightarrow> nat \<Rightarrow> 'a list" where
  "array_remove_items a nr pos n =
     (let nr = nr - n in take pos a @ take (nr - pos) (drop (pos + n) a) @ drop nr a)"

text \<open>The loop of \<open>bch2_journal_seq_blacklist_add\<close>.\<close>

function blacklist_merge :: "journal_seq_blacklist_entry list \<Rightarrow> nat \<Rightarrow> nat \<Rightarrow> u64 \<Rightarrow> u64
    \<Rightarrow> journal_seq_blacklist_entry list \<times> nat \<times> nat \<times> u64 \<times> u64" where
  "blacklist_merge bl nr i s e =
     (if i < nr then
        let x = bl ! i in
        if e < jstart x then (bl, nr, i, s, e)
        else if s > jend x then blacklist_merge bl nr (i + 1) s e
        else blacklist_merge (array_remove_items bl nr i 1) (nr - 1) i (min s (jstart x)) (max e (jend x))
      else (bl, nr, i, s, e))"
  by pat_completeness auto
termination
  by (relation "measure (\<lambda>(bl, nr, i, s, e). nr - i)") auto

declare blacklist_merge.simps [simp del]

definition journal_seq_blacklist_table_cmp :: "journal_seq_blacklist_table_entry \<Rightarrow> journal_seq_blacklist_table_entry \<Rightarrow> int" where
  "journal_seq_blacklist_table_cmp l r = cmp_int (tstart l) (tstart r)"

text \<open>The memory of a table entry: two words, a byte and padding.\<close>

definition table_entry_bytes :: "journal_seq_blacklist_table_entry \<Rightarrow> u8 list" where
  "table_entry_bytes e = put_unaligned_le64 (tstart e) @ put_unaligned_le64 (tend e) @ of_bool (tdirty e) # replicate 7 0"

definition bytes_table_entry :: "u8 list \<Rightarrow> journal_seq_blacklist_table_entry" where
  "bytes_table_entry b = \<lparr>tstart = get_unaligned_le64 b, tend = get_unaligned_le64 (drop 8 b), tdirty = b ! 16 \<noteq> 0\<rparr>"

definition table_sort :: "u64 \<Rightarrow> journal_seq_blacklist_table_entry list \<Rightarrow> journal_seq_blacklist_table_entry list option" where
  "table_sort addr t =
     map_option (map bytes_table_entry)
       (eytzinger0_sort addr 24 (\<lambda>a b. journal_seq_blacklist_table_cmp (bytes_table_entry a) (bytes_table_entry b)) None
         (map table_entry_bytes t))"

definition bch2_blacklist_table_initialize :: "(nat \<Rightarrow> bool) \<Rightarrow> u64 \<Rightarrow> bl_fs \<Rightarrow> (bch_err option \<times> bl_fs) option" where
  "bch2_blacklist_table_initialize alloc addr c =
     (case sb_bl c of
        None \<Rightarrow> Some (None, c)
      | Some bl \<Rightarrow>
          if \<not> alloc (length bl) then Some (Some BCH_ERR_ENOMEM_blacklist_table_init, c)
          else do {
            t \<leftarrow> table_sort addr (map (\<lambda>e. \<lparr>tstart = jstart e, tend = jend e, tdirty = False\<rparr>) bl);
            Some (None, c\<lparr>bl_table := Some t\<rparr>)
          })"

definition bch2_journal_seq_blacklist_add :: "(nat \<Rightarrow> bool) \<Rightarrow> bch_err option \<Rightarrow> (nat \<Rightarrow> bool) \<Rightarrow> u64 \<Rightarrow> bl_fs \<Rightarrow> u64 \<Rightarrow> u64
    \<Rightarrow> (bch_err option \<times> bl_fs) option" where
  "bch2_journal_seq_blacklist_add resize write_super alloc addr c s e =
     (let (bl, nr, i, s, e) = blacklist_merge (bl_entries c) (length (bl_entries c)) 0 s e in
      if \<not> resize (sb_blacklist_u64s (nr + 1)) then
        Some (Some BCH_ERR_ENOSPC_sb_journal_seq_blacklist, c\<lparr>sb_bl := map_option (\<lambda>_. bl) (sb_bl c)\<rparr>)
      else
        let bl = array_insert_item (bl_resized bl (nr + 1)) nr i \<lparr>jstart = s, jend = e\<rparr>;
            c = c\<lparr>sb_bl := Some bl, sb_feature := True\<rparr>
        in if write_super \<noteq> None then Some (write_super, c) else bch2_blacklist_table_initialize alloc addr c)"

definition bch2_journal_seq_is_blacklisted :: "bl_fs \<Rightarrow> u64 \<Rightarrow> bool \<Rightarrow> (bool \<times> bl_fs) option" where
  "bch2_journal_seq_is_blacklisted c seq dirty =
     (case bl_table c of
        None \<Rightarrow> Some (False, c)
      | Some t \<Rightarrow>
          let idx = eytzinger0_find_le t journal_seq_blacklist_table_cmp \<lparr>tstart = seq, tend = 0, tdirty = False\<rparr> in
          if idx < 0 then Some (False, c)
          else
            let x = t ! nat idx in
            if tstart x > seq then None
            else if seq \<ge> tend x then Some (False, c)
            else Some (True, if dirty then c\<lparr>bl_table := Some (t[nat idx := x\<lparr>tdirty := True\<rparr>])\<rparr> else c))"

text \<open>Validation of the field: whether it is accepted.\<close>

fun blacklist_validate :: "journal_seq_blacklist_entry list \<Rightarrow> bch_err option" where
  "blacklist_validate [] = None"
| "blacklist_validate (e # es) =
     (if jstart e \<ge> jend e then Some BCH_ERR_invalid_sb_journal_seq_blacklist
      else if es \<noteq> [] \<and> jend e > jstart (hd es) then Some BCH_ERR_invalid_sb_journal_seq_blacklist
      else blacklist_validate es)"

text \<open>The loop of \<open>bch2_blacklist_entries_gc\<close>: table indices and superblock entries side by side.\<close>

fun gc_loop :: "journal_seq_blacklist_table_entry list \<Rightarrow> u64 \<Rightarrow> u32 list \<Rightarrow> journal_seq_blacklist_entry list
    \<Rightarrow> journal_seq_blacklist_entry list option" where
  "gc_loop t oldest [] src = Some []"
| "gc_loop t oldest (i # js) [] = None"
| "gc_loop t oldest (i # js) (e # src) =
     (let x = t ! unat i in
      if tstart x \<noteq> jstart e \<or> tend x \<noteq> jend e then None
      else do {
        dst \<leftarrow> gc_loop t oldest js src;
        Some (if tdirty x \<or> tend x \<ge> oldest then e # dst else dst)
      })"

definition bch2_blacklist_entries_gc :: "(nat \<Rightarrow> bool) \<Rightarrow> u64 \<Rightarrow> bl_fs \<Rightarrow> (bool \<times> bl_fs) option" where
  "bch2_blacklist_entries_gc resize oldest c =
     (case sb_bl c of
        None \<Rightarrow> Some (False, c)
      | Some bl \<Rightarrow>
          (case bl_table c of
             None \<Rightarrow> None
           | Some t \<Rightarrow>
               if length bl \<noteq> length t then None
               else do {
                 js \<leftarrow> eytzinger0_for_each (of_nat (length bl));
                 dst \<leftarrow> gc_loop t oldest js bl;
                 let new_nr = length dst;
                 if new_nr = length bl then Some (False, c)
                 else if \<not> resize (if new_nr \<noteq> 0 then sb_blacklist_u64s new_nr else 0) then
                   (if new_nr \<noteq> 0 then None else Some (True, c))
                 else Some (True, c\<lparr>sb_bl := if new_nr = 0 then None else Some (bl_resized (dst @ drop new_nr bl) new_nr)\<rparr>)
               }))"

section \<open>The ranges of the superblock\<close>

definition bl_valid :: "journal_seq_blacklist_entry list \<Rightarrow> bool" where
  "bl_valid bl \<longleftrightarrow> (\<forall>e\<in>set bl. jstart e < jend e) \<and> sorted_wrt (\<lambda>a b. jend a \<le> jstart b) bl"

definition blacklisted :: "journal_seq_blacklist_entry list \<Rightarrow> u64 set" where
  "blacklisted bl = (\<Union>e\<in>set bl. {jstart e..<jend e})"

lemma blacklist_validate_iff: "blacklist_validate bl = None \<longleftrightarrow> bl_valid bl"
proof (induction bl)
  case (Cons e bl)
  show ?case
  proof (cases bl)
    case (Cons b bs)
    have "jend e \<le> jstart x" if "jend e \<le> jstart b" "bl_valid bl" "x \<in> set bl" for x
      using that by (auto simp: Cons bl_valid_def dest: order.strict_implies_order intro: order_trans)
    then show ?thesis using Cons.IH by (auto simp: Cons bl_valid_def not_less not_le)
  qed (auto simp: bl_valid_def)
qed (simp add: bl_valid_def)

lemma bl_valid_append:
  "bl_valid (xs @ ys) \<longleftrightarrow> bl_valid xs \<and> bl_valid ys \<and> (\<forall>x\<in>set xs. \<forall>y\<in>set ys. jend x \<le> jstart y)"
  by (auto simp: bl_valid_def sorted_wrt_append)

lemma bl_valid_Cons: "bl_valid (x # ys) \<longleftrightarrow> jstart x < jend x \<and> bl_valid ys \<and> (\<forall>y\<in>set ys. jend x \<le> jstart y)"
  by (auto simp: bl_valid_def)

lemma bl_valid_mid:
  "bl_valid (xs @ ys) \<Longrightarrow> s < e \<Longrightarrow> \<forall>x\<in>set xs. jend x \<le> s \<Longrightarrow> \<forall>y\<in>set ys. e \<le> jstart y \<Longrightarrow>
    bl_valid (xs @ \<lparr>jstart = s, jend = e\<rparr> # ys)"
  by (simp add: bl_valid_append bl_valid_Cons)

lemma remove_item:
  assumes "i < nr" "nr \<le> length a"
  shows "take (nr - 1) (array_remove_items a nr i 1) = take i (take nr a) @ drop (i + 1) (take nr a)"
    "length (array_remove_items a nr i 1) = length a"
proof -
  obtain m where m: "nr = i + 1 + m" using assms(1) less_imp_Suc_add [of i nr] by auto
  show "take (nr - 1) (array_remove_items a nr i 1) = take i (take nr a) @ drop (i + 1) (take nr a)"
    "length (array_remove_items a nr i 1) = length a"
    using assms by (auto simp: array_remove_items_def Let_def m drop_take min_def)
qed

lemma insert_item:
  assumes "i \<le> nr" "nr \<le> length a"
  shows "array_insert_item (bl_resized a (nr + 1)) nr i x = take i (take nr a) @ x # drop i (take nr a)"
proof -
  define b where "b = bl_resized a (nr + 1)"
  have l: "length b = nr + 1" by (simp add: b_def bl_resized_def)
  have t: "take k b = take k a" if "k \<le> nr" for k using assms(2) that by (simp add: b_def bl_resized_def min_def)
  have "take (nr - i) (drop i b) = drop i (take nr a)" using t [of nr] assms(1) by (simp add: drop_take [symmetric])
  then show ?thesis
    using assms l t [of i] unfolding b_def [symmetric] array_insert_item_def by (simp add: list_update_append min_def)
qed

lemma range_union:
  fixes s e a b :: u64
  assumes "a \<le> e" "s \<le> b" "s < e" "a < b"
  shows "{s..<e} \<union> {a..<b} = {min s a..<max e b}"
  using assms by (auto simp: min_def max_def)

lemma merge_correct:
  assumes "i \<le> nr" "nr \<le> length bl" "bl_valid (take nr bl)" "s < e" "\<forall>x\<in>set (take i (take nr bl)). jend x \<le> s"
    "blacklist_merge bl nr i s e = (bl', nr', i', s', e')"
  shows "i' \<le> nr' \<and> nr' \<le> length bl' \<and> s' < e' \<and>
    bl_valid (take i' (take nr' bl') @ \<lparr>jstart = s', jend = e'\<rparr> # drop i' (take nr' bl')) \<and>
    blacklisted (take nr' bl') \<union> {s'..<e'} = blacklisted (take nr bl) \<union> {s..<e}"
  using assms
proof (induction bl nr i s e rule: blacklist_merge.induct)
  case (1 bl nr i s e)
  let ?L = "take nr bl"
  note p = "1.prems"
  show ?case
  proof (cases "i < nr")
    case False
    then have "(bl', nr', i', s', e') = (bl, nr, i, s, e)" using p(6) by (simp add: blacklist_merge.simps [of bl nr])
    then show ?thesis using p False by (simp add: bl_valid_append bl_valid_Cons) (simp add: bl_valid_def)
  next
    case True
    define x where "x = bl ! i"
    have L: "?L = take i ?L @ x # drop (i + 1) ?L" using True p(2) id_take_nth_drop [of i ?L] by (simp add: x_def)
    have v: "bl_valid (take i ?L @ x # drop (i + 1) ?L)" using p(3) L by simp
    have u: "blacklisted ?L = blacklisted (take i ?L) \<union> {jstart x..<jend x} \<union> blacklisted (drop (i + 1) ?L)"
      by (subst L) (auto simp: blacklisted_def)
    have after: "jend x \<le> jstart y" if "y \<in> set (drop (i + 1) ?L)" for y using v that by (auto simp: bl_valid_def sorted_wrt_append)
    have x: "jstart x < jend x" using v by (simp add: bl_valid_def)
    consider (stop) "e < jstart x" | (skip) "\<not> e < jstart x" "jend x < s" | (merge) "jstart x \<le> e" "s \<le> jend x"
      by fastforce
    then show ?thesis
    proof cases
      case stop
      then have r: "(bl', nr', i', s', e') = (bl, nr, i, s, e)" using p(6) True by (simp add: blacklist_merge.simps [of bl nr] x_def)
      have d: "drop i ?L = x # drop (i + 1) ?L" using True p(2) Cons_nth_drop_Suc [of i ?L] by (simp add: x_def)
      have "\<forall>y\<in>set (drop i ?L). e \<le> jstart y" unfolding d using stop after x by fastforce
      then have "bl_valid (take i ?L @ \<lparr>jstart = s, jend = e\<rparr> # drop i ?L)"
        using p(3,4,5) bl_valid_mid [of "take i ?L" "drop i ?L" s e] unfolding append_take_drop_id by blast
      then show ?thesis using r p by simp
    next
      case skip
      have "blacklist_merge bl nr (i + 1) s e = (bl', nr', i', s', e')"
        using p(6) True skip by (simp add: blacklist_merge.simps [of bl nr i] x_def)
      moreover have "\<forall>y\<in>set (take (i + 1) ?L). jend y \<le> s"
        using p(2,5) True skip by (simp add: take_Suc_conv_app_nth x_def)
      ultimately show ?thesis using "1.IH"(1) [OF True x_def skip(1)] skip(2) p True by (auto simp: min_def)
    next
      case merge
      define a where "a = array_remove_items bl nr i 1"
      have a: "take (nr - 1) a = take i ?L @ drop (i + 1) ?L" "length a = length bl"
        using remove_item [OF True p(2)] by (simp_all add: a_def)
      have run: "blacklist_merge a (nr - 1) i (min s (jstart x)) (max e (jend x)) = (bl', nr', i', s', e')"
        using p(6) True merge by (simp add: blacklist_merge.simps [of bl nr i] x_def a_def Let_def not_less [symmetric])
      have before: "\<forall>y\<in>set (take i (take (nr - 1) a)). jend y \<le> min s (jstart x)"
        using p(5) v True p(2) unfolding a by (simp add: bl_valid_append)
      have val: "bl_valid (take (nr - 1) a)" unfolding a using v by (simp add: bl_valid_append bl_valid_Cons)
      have un: "blacklisted (take (nr - 1) a) \<union> {min s (jstart x)..<max e (jend x)} = blacklisted ?L \<union> {s..<e}"
        unfolding u a using range_union [OF merge(1,2) p(4) x] by (auto simp: blacklisted_def)
      have mm: "min s (jstart x) < max e (jend x)" using p(4) by (auto simp: min_less_iff_disj less_max_iff_disj)
      have c: "\<not> e < jstart x" "\<not> jend x < s" "i \<le> nr - 1" "nr - 1 \<le> length a" using merge a(2) p(2) True by auto
      from "1.IH"(2) [OF True x_def c(1,2), folded a_def, OF c(3,4) val mm before run] show ?thesis by (simp only: un)
    qed
  qed
qed

lemma merge_nr: "blacklist_merge bl nr i s e = (bl', nr', i', s', e') \<Longrightarrow> nr' \<le> nr"
proof (induction bl nr i s e rule: blacklist_merge.induct)
  case (1 bl nr i s e)
  then show ?case by (simp add: blacklist_merge.simps [of bl nr] Let_def split: if_splits)
qed

lemma add_entries:
  assumes "bl_valid bl" "s < e"
  defines "r \<equiv> blacklist_merge bl (length bl) 0 s e"
  shows "case r of (a, nr, i, s', e') \<Rightarrow>
    let b = array_insert_item (bl_resized a (nr + 1)) nr i \<lparr>jstart = s', jend = e'\<rparr>
    in bl_valid b \<and> blacklisted b = blacklisted bl \<union> {s..<e} \<and> length b \<le> length bl + 1"
proof -
  obtain a nr i s' e' where r: "r = (a, nr, i, s', e')" by (metis prod_cases5)
  note m = merge_correct [of 0 "length bl" bl s e, simplified, OF assms(1,2), OF r [unfolded r_def]]
  have n: "nr \<le> length bl" using merge_nr r by (simp add: r_def)
  let ?b = "take i (take nr a) @ \<lparr>jstart = s', jend = e'\<rparr> # drop i (take nr a)"
  have b: "array_insert_item (bl_resized a (nr + 1)) nr i \<lparr>jstart = s', jend = e'\<rparr> = ?b"
    using m by (intro insert_item) simp_all
  have "blacklisted ?b = blacklisted (take i (take nr a) @ drop i (take nr a)) \<union> {s'..<e'}" by (auto simp: blacklisted_def)
  also have "\<dots> = blacklisted bl \<union> {s..<e}" using m unfolding append_take_drop_id by simp
  finally have u: "blacklisted ?b = blacklisted bl \<union> {s..<e}" .
  have "bl_valid ?b" "length ?b \<le> length bl + 1" using m n by auto
  then show ?thesis using u unfolding r prod.case Let_def b by blast
qed

section \<open>The table\<close>

definition range_of :: "journal_seq_blacklist_table_entry \<Rightarrow> journal_seq_blacklist_entry" where
  "range_of x = \<lparr>jstart = tstart x, jend = tend x\<rparr>"

lemma range_of_sel [simp]: "jstart (range_of x) = tstart x" "jend (range_of x) = tend x"
  by (simp_all add: range_of_def)

text \<open>The table in sorted order holds the ranges of the superblock.\<close>

definition table_rep :: "journal_seq_blacklist_table_entry list \<Rightarrow> journal_seq_blacklist_entry list \<Rightarrow> bool" where
  "table_rep t bl \<longleftrightarrow> map range_of (in_order t) = bl"

lemma table_rep_length: "table_rep t bl \<Longrightarrow> length t = length bl"
  by (auto simp: table_rep_def)

lemma bytes_entry_id: "bytes_table_entry (table_entry_bytes e) = e"
  by (simp add: bytes_table_entry_def table_entry_bytes_def nth_append)

lemma length_entry_bytes: "length (table_entry_bytes e) = 24"
  by (simp add: table_entry_bytes_def)

lemma in_order_map: "in_order (map f a) = map f (in_order a)"
proof -
  have "i - 1 < length a" if "i \<in> set (inorder (length a) 1)" for i using that set_inorder [of "length a"] by auto
  then show ?thesis by (simp add: in_order_def)
qed

lemma sorted_unique:
  assumes "sorted_wrt (\<lambda>x y. (k x :: u64) \<le> k y) xs" "sorted_wrt (\<lambda>x y. k x < k y) ys" "mset xs = mset ys"
  shows "xs = ys"
proof -
  have "sorted_wrt (<) (map k ys)" "sorted (map k xs)" using assms(1,2) by (simp_all add: sorted_wrt_map)
  then have d: "distinct (map k ys)" "sorted (map k ys)" "sorted (map k xs)" by (simp_all only: strict_sorted_iff)
  have "inj_on k (set ys)" using d(1) by (simp only: distinct_map)
  then have "sort_key k ys = xs" "sort_key k ys = ys"
    using d assms(3) by (intro sort_key_inj_key_eq; simp)+
  then show ?thesis by (simp only:)
qed

lemma table_sort_correct:
  assumes "length es < 2 ^ 31" "sorted_wrt (\<lambda>x y. tstart x < tstart y) es"
  shows "\<exists>t. table_sort addr es = Some t \<and> in_order t = es"
proof -
  let ?cmp = "\<lambda>a b. journal_seq_blacklist_table_cmp (bytes_table_entry a) (bytes_table_entry b)"
  have "compare_fun ?cmp" unfolding journal_seq_blacklist_table_cmp_def by (rule compare_fun_key)
  then obtain c where c: "eytzinger0_sort addr 24 ?cmp None (map table_entry_bytes es) = Some c"
      "mset c = mset (map table_entry_bytes es)" "sorted_wrt (\<lambda>x y. ?cmp x y \<le> 0) (in_order c)"
    using sort_sorted [of ?cmp "map table_entry_bytes es" 24 addr] assms(1) by (auto simp: length_entry_bytes)
  let ?t = "map bytes_table_entry c"
  have "mset ?t = image_mset bytes_table_entry (mset (map table_entry_bytes es))" by (simp only: mset_map c(2))
  also have "\<dots> = mset (map (\<lambda>e. bytes_table_entry (table_entry_bytes e)) es)" by (simp add: image_mset.compositionality o_def)
  also have "\<dots> = mset es" by (simp only: bytes_entry_id list.map_ident)
  finally have "mset (in_order ?t) = mset es" by (simp add: mset_in_order)
  moreover have "sorted_wrt (\<lambda>x y. tstart x \<le> tstart y) (in_order ?t)"
    using c(3) by (simp add: in_order_map sorted_wrt_map journal_seq_blacklist_table_cmp_def cmp_simps not_less [symmetric])
  ultimately have "in_order ?t = es" using assms(2) by (intro sorted_unique [of tstart]) simp_all
  then show ?thesis using c(1) by (simp add: table_sort_def)
qed

lemma bl_valid_starts: "bl_valid bl \<Longrightarrow> sorted_wrt (\<lambda>a b. jstart a < jstart b) bl"
  by (induction bl) (force simp: bl_valid_Cons intro: less_le_trans)+

lemma initialize_correct:
  assumes "sb_bl c = Some bl" "bl_valid bl" "length bl < 2 ^ 31" "alloc (length bl)"
  shows "\<exists>t. bch2_blacklist_table_initialize alloc addr c = Some (None, c\<lparr>bl_table := Some t\<rparr>) \<and>
    table_rep t bl \<and> (\<forall>x\<in>set t. \<not> tdirty x)"
proof -
  let ?es = "map (\<lambda>e. \<lparr>tstart = jstart e, tend = jend e, tdirty = False\<rparr>) bl"
  obtain t where t: "table_sort addr ?es = Some t" "in_order t = ?es"
    using table_sort_correct [of ?es addr] assms(3) bl_valid_starts [OF assms(2)] by (auto simp: sorted_wrt_map)
  have "map range_of (in_order t) = map (\<lambda>e. \<lparr>jstart = jstart e, jend = jend e\<rparr>) bl" by (simp add: t(2) range_of_def o_def)
  moreover have "(\<lambda>e. \<lparr>jstart = jstart e, jend = jend e\<rparr>) = (\<lambda>e :: journal_seq_blacklist_entry. e)" by (rule ext) simp
  ultimately have "table_rep t bl" by (simp only: table_rep_def list.map_ident)
  moreover have "set t = set ?es" using mset_in_order [of t] t(2) by (metis mset_eq_setD)
  ultimately show ?thesis using assms t(1) by (intro exI [of _ t]) (auto simp: bch2_blacklist_table_initialize_def)
qed

text \<open>The search ends at the last range that starts at or before the number.\<close>

lemma find_range:
  fixes t :: "journal_seq_blacklist_table_entry list" and seq :: u64
  assumes "table_rep t bl" "bl_valid bl"
  defines "idx \<equiv> eytzinger0_find_le t journal_seq_blacklist_table_cmp \<lparr>tstart = seq, tend = 0, tdirty = False\<rparr>"
  shows "if idx < 0 then seq \<notin> blacklisted bl
    else nat idx < length t \<and> tstart (t ! nat idx) \<le> seq \<and> (seq < tend (t ! nat idx) \<longleftrightarrow> seq \<in> blacklisted bl)"
proof -
  let ?s = "\<lparr>tstart = seq, tend = 0, tdirty = False\<rparr>" and ?io = "in_order t" and ?P = "\<lambda>x. tstart x \<le> seq"
  define k where "k = length (filter ?P t)"
  have st: "sorted_wrt (\<lambda>a b. tstart a < tstart b) ?io"
    using bl_valid_starts [OF assms(2)] assms(1) by (auto simp: table_rep_def sorted_wrt_map range_of_def)
  have cmp: "journal_seq_blacklist_table_cmp x ?s \<le> 0 \<longleftrightarrow> ?P x" "journal_seq_blacklist_table_cmp x ?s < 0 \<longleftrightarrow> tstart x < seq" for x
    by (auto simp: journal_seq_blacklist_table_cmp_def cmp_simps not_less [symmetric])
  have idx: "idx = (if k = 0 then - 1 else int (inorder (length t) 1 ! (k - 1)) - 1)"
  proof -
    have "sorted_wrt (\<lambda>a b. (journal_seq_blacklist_table_cmp b ?s \<le> 0 \<longrightarrow> journal_seq_blacklist_table_cmp a ?s \<le> 0) \<and>
        (journal_seq_blacklist_table_cmp b ?s < 0 \<longrightarrow> journal_seq_blacklist_table_cmp a ?s < 0)) ?io"
      unfolding cmp by (rule sorted_wrt_mono_rel [OF _ st]) auto
    from find_neighbours [of journal_seq_blacklist_table_cmp ?s t, OF this, THEN conjunct1]
    show ?thesis unfolding idx_def k_def cmp .
  qed
  have fil: "filter ?P ?io = take k ?io" "filter (\<lambda>x. \<not> ?P x) ?io = drop k ?io"
  proof -
    have "length (filter ?P ?io) = k" unfolding k_def by (metis mset_filter mset_in_order size_mset)
    moreover have "sorted_wrt (\<lambda>a b. ?P b \<longrightarrow> ?P a) ?io" by (rule sorted_wrt_mono_rel [OF _ st]) auto
    note sorted_prefix [OF this]
    ultimately show "filter ?P ?io = take k ?io" "filter (\<lambda>x. \<not> ?P x) ?io = drop k ?io" by simp_all
  qed
  have io: "bl = map range_of ?io" using assms(1) by (simp add: table_rep_def)
  have split: "?io = take k ?io @ drop k ?io" by simp
  have high: "seq < tstart x" if "x \<in> set (drop k ?io)" for x
  proof -
    have "x \<in> set (filter (\<lambda>x. \<not> ?P x) ?io)" using that unfolding fil .
    then show ?thesis by (simp add: not_le)
  qed
  show ?thesis
  proof (cases "k = 0")
    case True
    then have "seq < tstart x" if "x \<in> set ?io" for x using high [of x] that by simp
    then show ?thesis using True idx by (auto simp: io blacklisted_def range_of_def not_le [symmetric])
  next
    case False
    have kl: "k \<le> length t" by (simp add: k_def)
    define m where "m = inorder (length t) 1 ! (k - 1)"
    have m: "0 < m" "m \<le> length t" "?io ! (k - 1) = t ! (m - 1)"
      using False kl nth_in_order [of "k - 1" t] inorder_range [of "k - 1" "length t"] by (simp_all add: m_def)
    have "idx = int m - 1" using False idx by (simp add: m_def)
    then have n: "t ! nat idx = ?io ! (k - 1)" "0 \<le> idx" "nat idx < length t" using m by (auto simp: nat_diff_distrib)
    define x where "x = ?io ! (k - 1)"
    have last: "take k ?io = take (k - 1) ?io @ [x]"
      using False kl take_Suc_conv_app_nth [of "k - 1" ?io] by (simp add: x_def)
    have "x \<in> set (filter ?P ?io)" unfolding fil last by simp
    then have px: "tstart x \<le> seq" by simp
    have "tend y \<le> tstart x" if "y \<in> set (take (k - 1) ?io)" for y
      using assms(2) that unfolding io by (subst (asm) split, subst (asm) last) (auto simp: bl_valid_append range_of_def)
    then have "\<not> seq < tend y" if "y \<in> set (take (k - 1) ?io)" for y using that px by fastforce
    moreover have "blacklisted bl = (\<Union>y\<in>set (take (k - 1) ?io @ x # drop k ?io). {tstart y..<tend y})"
      unfolding io by (subst split, subst last) (simp add: blacklisted_def range_of_def)
    ultimately have "seq \<in> blacklisted bl \<longleftrightarrow> seq < tend x" using high px by (auto simp: not_le [symmetric])
    then show ?thesis using n px by (simp add: x_def)
  qed
qed

text \<open>Marking an entry dirty changes no range.\<close>

lemma table_rep_dirty:
  assumes "table_rep t bl"
  shows "table_rep (t[i := (t ! i)\<lparr>tdirty := True\<rparr>]) bl"
proof -
  have "map range_of (t[i := (t ! i)\<lparr>tdirty := True\<rparr>]) = map range_of t"
    by (cases "i < length t") (auto intro!: nth_equalityI simp: nth_list_update range_of_def)
  then show ?thesis using assms unfolding table_rep_def in_order_map [symmetric] by simp
qed

lemma is_blacklisted_correct:
  assumes "bl_table c = Some t" "table_rep t bl" "bl_valid bl"
  shows "\<exists>t'. bch2_journal_seq_is_blacklisted c seq dirty = Some (seq \<in> blacklisted bl, c\<lparr>bl_table := Some t'\<rparr>) \<and> table_rep t' bl"
proof -
  have c: "c\<lparr>bl_table := Some t\<rparr> = c" using assms(1) by (cases c) simp
  show ?thesis
    using find_range [OF assms(2,3), of seq] assms(1,2) table_rep_dirty [OF assms(2)] c
    by (auto simp: bch2_journal_seq_is_blacklisted_def Let_def not_less not_le split: if_splits intro: exI [of _ t])
qed

lemma gc_loop_eq:
  assumes "map (\<lambda>i. t ! unat i) js = io" "map range_of io = src"
  shows "gc_loop t oldest js src = Some (map range_of (filter (\<lambda>x. tdirty x \<or> oldest \<le> tend x) io))"
  using assms
proof (induction js arbitrary: io src)
  case (Cons i js)
  obtain x io' where "io = x # io'" "x = t ! unat i" "map (\<lambda>i. t ! unat i) js = io'" using Cons.prems(1) by auto
  then show ?case using Cons.IH [of io' "map range_of io'"] Cons.prems(2) by (auto simp: Let_def)
qed simp

lemma blacklisted_kept:
  defines "kept \<equiv> \<lambda>oldest io. map range_of (filter (\<lambda>x. tdirty x \<or> oldest \<le> tend x) io)"
  shows "blacklisted (kept oldest io) \<subseteq> blacklisted (map range_of io)"
    "blacklisted (map range_of io) \<inter> {oldest..} \<subseteq> blacklisted (kept oldest io)"
proof -
  have u: "blacklisted (map range_of xs) = (\<Union>x\<in>set xs. {tstart x..<tend x})" for xs by (simp add: blacklisted_def)
  show "blacklisted (kept oldest io) \<subseteq> blacklisted (map range_of io)" unfolding kept_def u by (rule UN_mono) auto
  show "blacklisted (map range_of io) \<inter> {oldest..} \<subseteq> blacklisted (kept oldest io)"
  proof
    fix seq
    assume "seq \<in> blacklisted (map range_of io) \<inter> {oldest..}"
    then obtain x where x: "x \<in> set io" "tstart x \<le> seq" "seq < tend x" "oldest \<le> seq" unfolding u by auto
    then have "oldest \<le> tend x" using order_trans [of oldest seq "tend x"] by simp
    then show "seq \<in> blacklisted (kept oldest io)" unfolding kept_def u using x by (intro UN_I [of x]) auto
  qed
qed

lemma for_each_in_order:
  assumes "length t < 2 ^ 31"
  shows "\<exists>js. eytzinger0_for_each (of_nat (length t)) = Some js \<and> map (\<lambda>i. t ! unat i) js = in_order t"
proof -
  have u: "unat (of_nat (length t) :: u32) = length t" using assms by (simp add: unat_of_nat take_bit_nat_eq_self)
  obtain js where js: "eytzinger0_for_each (of_nat (length t)) = Some js" "map (\<lambda>x. unat x + 1) js = inorder (length t) 1"
    using for_each_inorder [of "of_nat (length t)"] assms by (auto simp: u)
  have "map (\<lambda>i. t ! unat i) js = map (\<lambda>i. t ! (i - 1)) (map (\<lambda>x. unat x + 1) js)" by (simp add: o_def)
  then show ?thesis using js(1) unfolding js(2) in_order_def by blast
qed

section \<open>Properties\<close>

text \<open>C9: a field accepted by the validation stays acceptable when a range is added, the numbers it
  blacklists are exactly the old ones and the new range, and the lookup table answers for
  exactly those. When the superblock is full the error is returned and the table is unchanged.\<close>

theorem blacklist_add_correct:
  assumes "blacklist_validate (bl_entries c) = None" "s < e" "length (bl_entries c) < 2 ^ 31 - 1" "\<forall>n. alloc n"
  shows "case bch2_journal_seq_blacklist_add resize None alloc addr c s e of
      Some (None, c') \<Rightarrow> blacklist_validate (bl_entries c') = None \<and>
        blacklisted (bl_entries c') = blacklisted (bl_entries c) \<union> {s..<e} \<and>
        (\<forall>seq dirty. map_option fst (bch2_journal_seq_is_blacklisted c' seq dirty) = Some (seq \<in> blacklisted (bl_entries c')))
    | Some (Some err, c') \<Rightarrow> err = BCH_ERR_ENOSPC_sb_journal_seq_blacklist \<and> (\<exists>n. \<not> resize n) \<and> bl_table c' = bl_table c
    | None \<Rightarrow> False"
proof -
  obtain a nr i s' e' where r: "blacklist_merge (bl_entries c) (length (bl_entries c)) 0 s e = (a, nr, i, s', e')" by (metis prod_cases5)
  let ?b = "array_insert_item (bl_resized a (nr + 1)) nr i \<lparr>jstart = s', jend = e'\<rparr>"
  have b: "bl_valid ?b" "blacklisted ?b = blacklisted (bl_entries c) \<union> {s..<e}" "length ?b < 2 ^ 31"
    using add_entries [of "bl_entries c" s e] assms(1-3) r by (simp_all add: blacklist_validate_iff Let_def)
  show ?thesis
  proof (cases "resize (sb_blacklist_u64s (nr + 1))")
    case True
    let ?c = "c\<lparr>sb_bl := Some ?b, sb_feature := True\<rparr>"
    obtain t where t: "bch2_blacklist_table_initialize alloc addr ?c = Some (None, ?c\<lparr>bl_table := Some t\<rparr>)" "table_rep t ?b"
      using initialize_correct [of ?c ?b alloc addr] b assms(4) by auto
    have "map_option fst (bch2_journal_seq_is_blacklisted (?c\<lparr>bl_table := Some t\<rparr>) seq dirty) = Some (seq \<in> blacklisted ?b)" for seq dirty
      using is_blacklisted_correct [OF _ t(2) b(1), of "?c\<lparr>bl_table := Some t\<rparr>" seq dirty] by auto
    then show ?thesis
      using True r t(1) b(1,2) by (simp add: bch2_journal_seq_blacklist_add_def Let_def blacklist_validate_iff bl_entries_def)
  next
    case False
    then show ?thesis using r by (auto simp: bch2_journal_seq_blacklist_add_def Let_def)
  qed
qed

text \<open>C35: garbage collection fails no assertion, keeps the field valid, and drops only ranges that
  end before the oldest sequence number on disk and were not found in use: every blacklisted
  number from the oldest on stays blacklisted.\<close>

theorem blacklist_gc_correct:
  assumes "sb_bl c = Some bl" "bl_table c = Some t" "table_rep t bl" "blacklist_validate bl = None"
    "length bl < 2 ^ 31" "\<forall>n. resize n"
  shows "\<exists>r c'. bch2_blacklist_entries_gc resize oldest c = Some (r, c') \<and> blacklist_validate (bl_entries c') = None \<and>
    bl_entries c' = map range_of (filter (\<lambda>x. tdirty x \<or> oldest \<le> tend x) (in_order t)) \<and>
    blacklisted (bl_entries c') \<subseteq> blacklisted bl \<and> blacklisted bl \<inter> {oldest..} \<subseteq> blacklisted (bl_entries c')"
proof -
  let ?k = "filter (\<lambda>x. tdirty x \<or> oldest \<le> tend x) (in_order t)"
  define dst where "dst = map range_of ?k"
  have bl: "bl = map range_of (in_order t)" and len: "length t = length bl"
    using assms(3) table_rep_length [OF assms(3)] by (simp_all add: table_rep_def)
  obtain js where js: "eytzinger0_for_each (of_nat (length bl)) = Some js" "map (\<lambda>i. t ! unat i) js = in_order t"
    using for_each_in_order [of t] assms(5) len by auto
  have g: "gc_loop t oldest js bl = Some dst" unfolding dst_def by (rule gc_loop_eq [OF js(2) bl [symmetric]])
  have same: "dst = bl" if "length dst = length bl"
  proof -
    have "length ?k = length (in_order t)" using that by (simp add: dst_def bl)
    then have "?k = in_order t" by (metis filter_True length_filter_less less_irrefl)
    then show ?thesis by (simp only: dst_def bl)
  qed
  have "\<exists>r c'. bch2_blacklist_entries_gc resize oldest c = Some (r, c') \<and> bl_entries c' = dst"
    using assms(1,2,6) len js(1) g same
    by (auto simp: bch2_blacklist_entries_gc_def Let_def bl_entries_def bl_resized_def)
  moreover have "bl_valid dst"
    using assms(4) unfolding blacklist_validate_iff dst_def bl bl_valid_def sorted_wrt_map by (auto intro: sorted_wrt_filter)
  moreover have "blacklisted dst \<subseteq> blacklisted bl" "blacklisted bl \<inter> {oldest..} \<subseteq> blacklisted dst"
    unfolding dst_def bl by (rule blacklisted_kept)+
  ultimately show ?thesis using dst_def by (auto simp: blacklist_validate_iff)
qed

definition bl_example :: bl_fs where
  "bl_example = \<lparr>sb_bl = Some [\<lparr>jstart = 3, jend = 5\<rparr>, \<lparr>jstart = 8, jend = 9\<rparr>], sb_feature = True,
     bl_table = Some [\<lparr>tstart = 8, tend = 9, tdirty = False\<rparr>, \<lparr>tstart = 3, tend = 5, tdirty = False\<rparr>]\<rparr>"

lemma bl_example_facts:
  "blacklist_validate (bl_entries bl_example) = None" "length (bl_entries bl_example) = 2"
  "sb_bl bl_example = Some [\<lparr>jstart = 3, jend = 5\<rparr>, \<lparr>jstart = 8, jend = 9\<rparr>]"
  "bl_table bl_example = Some [\<lparr>tstart = 8, tend = 9, tdirty = False\<rparr>, \<lparr>tstart = 3, tend = 5, tdirty = False\<rparr>]"
  "in_order [\<lparr>tstart = 8, tend = 9, tdirty = False\<rparr>, \<lparr>tstart = 3, tend = 5, tdirty = False\<rparr>] =
    [\<lparr>tstart = 3, tend = 5, tdirty = False\<rparr>, \<lparr>tstart = 8, tend = 9, tdirty = False\<rparr>]"
  by (simp_all add: bl_example_def bl_entries_def in_order_def inorder.simps)

lemma bl_example_rep:
  "table_rep [\<lparr>tstart = 8, tend = 9, tdirty = False\<rparr>, \<lparr>tstart = 3, tend = 5, tdirty = False\<rparr>]
    [\<lparr>jstart = 3, jend = 5\<rparr>, \<lparr>jstart = 8, jend = 9\<rparr>]"
  by (simp add: table_rep_def bl_example_facts range_of_def)

theorem blacklist_add_correct_witness:
  "case bch2_journal_seq_blacklist_add (\<lambda>_. True) None (\<lambda>_. True) 0 bl_example 5 8 of
      Some (None, c') \<Rightarrow> blacklisted (bl_entries c') = blacklisted (bl_entries bl_example) \<union> {5..<8}
    | _ \<Rightarrow> False"
  using blacklist_add_correct [OF bl_example_facts(1), of 5 8 "\<lambda>_. True" "\<lambda>_. True" 0]
  by (auto simp: bl_example_facts(2) split: option.splits)

theorem blacklist_gc_correct_witness:
  "\<exists>r c'. bch2_blacklist_entries_gc (\<lambda>_. True) 7 bl_example = Some (r, c') \<and> bl_entries c' = [\<lparr>jstart = 8, jend = 9\<rparr>]"
proof -
  have "blacklist_validate [\<lparr>jstart = 3, jend = 5\<rparr>, \<lparr>jstart = 8, jend = 9\<rparr>] = None" by simp
  from blacklist_gc_correct [OF bl_example_facts(3,4) bl_example_rep this, of "\<lambda>_. True" 7]
  show ?thesis unfolding bl_example_facts(5) by (simp add: range_of_def) blast
qed

end
