(* ===== verification/Extent_Entry.thy ===== *)
theory Extent_Entry
  imports Bkey_Pack
begin

text \<open>
  The entries of an extent value (\<^verbatim>\<open>libbcachefs/extents_format.h\<close>, \<^verbatim>\<open>rebalance_format.h\<close>,
  \<^verbatim>\<open>extents.h\<close>): pointers, checksum entries, stripe pointers, rebalance options and flags,
  each one to three 64 bit words, the type of an entry given by the lowest set bit of its first
  word.

  A bit field of \<open>n\<close> bits is an \<open>n word\<close>. A struct of bit fields is laid out by
  \<open>bf_cons\<close>, first declared field lowest, as the \<open>__LITTLE_ENDIAN_BITFIELD\<close> declarations have
  it, and read by \<open>bf_get\<close> at the position of the field. A value is the list of its entries;
  \<open>value_words\<close> is the sequence of words the code stores and \<open>entries_of_words\<close> the walk with
  \<open>extent_entry_next\<close> over it. The theory shows that the walk finds the entries that
  were stored.
\<close>

section \<open>Bit fields\<close>

definition bf_cons :: "'a::len word \<Rightarrow> nat \<Rightarrow> nat" where
  "bf_cons x r = unat x + 2 ^ LENGTH('a) * r"

definition bf_get :: "nat \<Rightarrow> nat \<Rightarrow> 'a::len word" where
  "bf_get pos w = word_of_nat (w div 2 ^ pos)"

definition bf_fits :: "nat \<Rightarrow> nat \<Rightarrow> bool" where
  "bf_fits r m = (r < 2 ^ m)"

lemma bf_fits_0 [simp]: "bf_fits 0 m"
  by (simp add: bf_fits_def)

lemma bf_fits_cons:
  assumes "LENGTH('a) \<le> m" "bf_fits r (m - LENGTH('a))"
  shows "bf_fits (bf_cons (x :: 'a::len word) r) m"
proof -
  have "2 ^ LENGTH('a) * Suc r \<le> (2 ^ LENGTH('a) * 2 ^ (m - LENGTH('a)) :: nat)"
    using assms(2) by (intro mult_le_mono2) (simp add: bf_fits_def)
  moreover have "2 ^ LENGTH('a) * 2 ^ (m - LENGTH('a)) = (2 ^ m :: nat)"
    using assms(1) by (simp flip: power_add)
  moreover have "unat x < 2 ^ LENGTH('a)" by (rule unsigned_less)
  ultimately show ?thesis by (simp only: bf_fits_def bf_cons_def mult_Suc_right)
qed

lemma bf_get_here [simp]: "bf_get 0 (bf_cons x r) = (x :: 'a::len word)"
proof -
  have "word_of_nat (2 ^ LENGTH('a)) = (0 :: 'a word)" by simp
  then show ?thesis by (simp add: bf_get_def bf_cons_def)
qed

lemma bf_get_skip:
  assumes "LENGTH('a) \<le> pos"
  shows "bf_get pos (bf_cons (x :: 'a::len word) r) = bf_get (pos - LENGTH('a)) r"
proof -
  obtain m where pos: "pos = LENGTH('a) + m" using assms le_Suc_ex by blast
  have "(unat x + 2 ^ LENGTH('a) * r) div 2 ^ LENGTH('a) = r"
    by (simp add: div_mult_self2 unsigned_less)
  then show ?thesis by (simp add: pos bf_get_def bf_cons_def power_add div_mult2_eq)
qed

lemma unat_pow2: "n < LENGTH('a) \<Longrightarrow> unat (2 ^ n :: 'a::len word) = 2 ^ n"
  by transfer simp

lemma ffs_bf_cons:
  "LENGTH('a) = Suc n \<Longrightarrow> ffs_nat (bf_cons (2 ^ n :: 'a::len word) r) = n"
proof -
  assume n: "LENGTH('a) = Suc n"
  have "unat (2 ^ n :: 'a word) = 2 ^ n" using n by (simp add: unat_pow2)
  then have "bf_cons (2 ^ n :: 'a word) r = 2 ^ n * Suc (2 * r)" using n by (simp add: bf_cons_def)
  then show ?thesis using ffs_nat_pow2_mult [of "Suc (2 * r)" n] by simp
qed

section \<open>Entries\<close>

record bch_csum =
  cs_lo :: u64
  cs_hi :: u64

record bch_extent_crc32 =
  c32_compressed_size :: "7 word"
  c32_uncompressed_size :: "7 word"
  c32_offset :: "7 word"
  c32_csum_type :: "4 word"
  c32_compression_type :: "4 word"
  c32_csum :: u32

record bch_extent_crc64 =
  c64_compressed_size :: "9 word"
  c64_uncompressed_size :: "9 word"
  c64_offset :: "9 word"
  c64_nonce :: "10 word"
  c64_csum_type :: "4 word"
  c64_compression_type :: "4 word"
  c64_csum_hi :: u16
  c64_csum_lo :: u64

record bch_extent_crc128 =
  c128_compressed_size :: "13 word"
  c128_uncompressed_size :: "13 word"
  c128_offset :: "13 word"
  c128_nonce :: "13 word"
  c128_csum_type :: "4 word"
  c128_compression_type :: "4 word"
  c128_csum :: bch_csum

record bch_extent_ptr =
  p_cached :: "1 word"
  p_unused :: "1 word"
  p_unwritten :: "1 word"
  p_offset :: "44 word"
  p_dev :: u8
  p_gen :: u8

record bch_extent_stripe_ptr =
  s_block :: u8
  s_redundancy :: "4 word"
  s_idx :: "47 word"

text \<open>
  \<open>union bch_extent_entry\<close>: the \<open>type\<close> bits of each struct are given by the constructor.
  Nothing that is modelled reads the fields of a rebalance entry, so its bits after the type
  are kept as one field.
\<close>

datatype extent_entry =
    E_ptr bch_extent_ptr
  | E_crc32 bch_extent_crc32
  | E_crc64 bch_extent_crc64
  | E_crc128 bch_extent_crc128
  | E_stripe_ptr bch_extent_stripe_ptr
  | E_rebalance "58 word"
  | E_flags "57 word"

definition BCH_EXTENT_ENTRY_MAX :: nat where "BCH_EXTENT_ENTRY_MAX = 7"

fun extent_entry_type :: "extent_entry \<Rightarrow> nat" where
  "extent_entry_type (E_ptr _) = 0"
| "extent_entry_type (E_crc32 _) = 1"
| "extent_entry_type (E_crc64 _) = 2"
| "extent_entry_type (E_crc128 _) = 3"
| "extent_entry_type (E_stripe_ptr _) = 4"
| "extent_entry_type (E_rebalance _) = 5"
| "extent_entry_type (E_flags _) = 6"

fun extent_entry_bytes :: "extent_entry \<Rightarrow> nat" where
  "extent_entry_bytes (E_ptr _) = 8"
| "extent_entry_bytes (E_crc32 _) = 8"
| "extent_entry_bytes (E_crc64 _) = 16"
| "extent_entry_bytes (E_crc128 _) = 24"
| "extent_entry_bytes (E_stripe_ptr _) = 8"
| "extent_entry_bytes (E_rebalance _) = 8"
| "extent_entry_bytes (E_flags _) = 8"

definition extent_entry_u64s :: "extent_entry \<Rightarrow> nat" where
  "extent_entry_u64s e = extent_entry_bytes e div 8"

definition extent_entry_is_ptr :: "extent_entry \<Rightarrow> bool" where
  "extent_entry_is_ptr e = (extent_entry_type e = 0)"

definition extent_entry_is_stripe_ptr :: "extent_entry \<Rightarrow> bool" where
  "extent_entry_is_stripe_ptr e = (extent_entry_type e = 4)"

definition extent_entry_is_crc :: "extent_entry \<Rightarrow> bool" where
  "extent_entry_is_crc e = (extent_entry_type e \<in> {1, 2, 3})"

lemma extent_entry_is_simps [simp]:
  "extent_entry_is_ptr (E_ptr p)" "\<not> extent_entry_is_crc (E_ptr p)" "\<not> extent_entry_is_stripe_ptr (E_ptr p)"
  "\<not> extent_entry_is_ptr (E_crc32 a)" "extent_entry_is_crc (E_crc32 a)" "\<not> extent_entry_is_stripe_ptr (E_crc32 a)"
  "\<not> extent_entry_is_ptr (E_crc64 b)" "extent_entry_is_crc (E_crc64 b)" "\<not> extent_entry_is_stripe_ptr (E_crc64 b)"
  "\<not> extent_entry_is_ptr (E_crc128 c)" "extent_entry_is_crc (E_crc128 c)" "\<not> extent_entry_is_stripe_ptr (E_crc128 c)"
  "\<not> extent_entry_is_ptr (E_stripe_ptr s)" "\<not> extent_entry_is_crc (E_stripe_ptr s)" "extent_entry_is_stripe_ptr (E_stripe_ptr s)"
  "\<not> extent_entry_is_ptr (E_rebalance r)" "\<not> extent_entry_is_crc (E_rebalance r)" "\<not> extent_entry_is_stripe_ptr (E_rebalance r)"
  "\<not> extent_entry_is_ptr (E_flags f)" "\<not> extent_entry_is_crc (E_flags f)" "\<not> extent_entry_is_stripe_ptr (E_flags f)"
  by (simp_all add: extent_entry_is_ptr_def extent_entry_is_crc_def extent_entry_is_stripe_ptr_def)

lemma extent_entry_is_ptrE: "extent_entry_is_ptr e \<Longrightarrow> (\<And>p. e = E_ptr p \<Longrightarrow> P) \<Longrightarrow> P"
  by (cases e) auto

lemma extent_entry_u64s_pos [simp]: "0 < extent_entry_u64s e"
  by (cases e) (simp_all add: extent_entry_u64s_def)

section \<open>The words of a value\<close>

text \<open>
  The \<open>type\<close> field of entry type \<open>n\<close> has \<open>n + 1\<close> bits and the value \<open>BIT(n)\<close>. A
  \<open>bch_extent_crc32\<close> is two 32 bit integers, the second at the higher address.
\<close>

fun entry_words :: "extent_entry \<Rightarrow> u64 list" where
  "entry_words (E_ptr p) =
     [word_of_nat (bf_cons (2 ^ 0 :: 1 word) (bf_cons (p_cached p) (bf_cons (p_unused p) (bf_cons (p_unwritten p)
        (bf_cons (p_offset p) (bf_cons (p_dev p) (bf_cons (p_gen p) 0)))))))]"
| "entry_words (E_crc32 c) =
     [word_of_nat (bf_cons (2 ^ 1 :: 2 word) (bf_cons (c32_compressed_size c) (bf_cons (c32_uncompressed_size c)
        (bf_cons (c32_offset c) (bf_cons (0 :: 1 word) (bf_cons (c32_csum_type c) (bf_cons (c32_compression_type c)
        (bf_cons (c32_csum c) 0))))))))]"
| "entry_words (E_crc64 c) =
     [word_of_nat (bf_cons (2 ^ 2 :: 3 word) (bf_cons (c64_compressed_size c) (bf_cons (c64_uncompressed_size c)
        (bf_cons (c64_offset c) (bf_cons (c64_nonce c) (bf_cons (c64_csum_type c) (bf_cons (c64_compression_type c)
        (bf_cons (c64_csum_hi c) 0)))))))),
      c64_csum_lo c]"
| "entry_words (E_crc128 c) =
     [word_of_nat (bf_cons (2 ^ 3 :: 4 word) (bf_cons (c128_compressed_size c) (bf_cons (c128_uncompressed_size c)
        (bf_cons (c128_offset c) (bf_cons (c128_nonce c) (bf_cons (c128_csum_type c) (bf_cons (c128_compression_type c) 0))))))),
      cs_lo (c128_csum c), cs_hi (c128_csum c)]"
| "entry_words (E_stripe_ptr s) =
     [word_of_nat (bf_cons (2 ^ 4 :: 5 word) (bf_cons (s_block s) (bf_cons (s_redundancy s) (bf_cons (s_idx s) 0))))]"
| "entry_words (E_rebalance r) = [word_of_nat (bf_cons (2 ^ 5 :: 6 word) (bf_cons r 0))]"
| "entry_words (E_flags f) = [word_of_nat (bf_cons (2 ^ 6 :: 7 word) (bf_cons f 0))]"

definition extent_word_type :: "u64 \<Rightarrow> nat" where
  "extent_word_type w = (if w \<noteq> 0 then ffs_word w else BCH_EXTENT_ENTRY_MAX)"

text \<open>The entry that starts at the given words; \<open>None\<close> when the type is not known or the entry is cut off.\<close>

fun entry_at :: "u64 list \<Rightarrow> extent_entry option" where
  "entry_at [] = None"
| "entry_at (w # ws) =
     (let n = unat w in
      if extent_word_type w = 0 then
        Some (E_ptr \<lparr>p_cached = bf_get 1 n, p_unused = bf_get 2 n, p_unwritten = bf_get 3 n,
                     p_offset = bf_get 4 n, p_dev = bf_get 48 n, p_gen = bf_get 56 n\<rparr>)
      else if extent_word_type w = 1 then
        Some (E_crc32 \<lparr>c32_compressed_size = bf_get 2 n, c32_uncompressed_size = bf_get 9 n, c32_offset = bf_get 16 n,
                       c32_csum_type = bf_get 24 n, c32_compression_type = bf_get 28 n, c32_csum = bf_get 32 n\<rparr>)
      else if extent_word_type w = 2 then
        (case ws of lo # _ \<Rightarrow>
          Some (E_crc64 \<lparr>c64_compressed_size = bf_get 3 n, c64_uncompressed_size = bf_get 12 n, c64_offset = bf_get 21 n,
                         c64_nonce = bf_get 30 n, c64_csum_type = bf_get 40 n, c64_compression_type = bf_get 44 n,
                         c64_csum_hi = bf_get 48 n, c64_csum_lo = lo\<rparr>)
         | _ \<Rightarrow> None)
      else if extent_word_type w = 3 then
        (case ws of lo # hi # _ \<Rightarrow>
          Some (E_crc128 \<lparr>c128_compressed_size = bf_get 4 n, c128_uncompressed_size = bf_get 17 n, c128_offset = bf_get 30 n,
                          c128_nonce = bf_get 43 n, c128_csum_type = bf_get 56 n, c128_compression_type = bf_get 60 n,
                          c128_csum = \<lparr>cs_lo = lo, cs_hi = hi\<rparr>\<rparr>)
         | _ \<Rightarrow> None)
      else if extent_word_type w = 4 then
        Some (E_stripe_ptr \<lparr>s_block = bf_get 5 n, s_redundancy = bf_get 13 n, s_idx = bf_get 17 n\<rparr>)
      else if extent_word_type w = 5 then Some (E_rebalance (bf_get 6 n))
      else if extent_word_type w = 6 then Some (E_flags (bf_get 7 n))
      else None)"

definition value_words :: "extent_entry list \<Rightarrow> u64 list" where
  "value_words es = concat (map entry_words es)"

function entries_of_words :: "u64 list \<Rightarrow> extent_entry list option" where
  "entries_of_words ws =
     (if ws = [] then Some []
      else case entry_at ws of
        None \<Rightarrow> None
      | Some e \<Rightarrow> map_option (Cons e) (entries_of_words (drop (extent_entry_u64s e) ws)))"
  by pat_completeness auto
termination by (relation "measure length") auto

declare entries_of_words.simps [simp del]

lemma length_entry_words [simp]: "length (entry_words e) = extent_entry_u64s e"
  by (cases e) (simp_all add: extent_entry_u64s_def)

lemma first_word:
  assumes "LENGTH('a) = Suc n" "bf_fits (bf_cons (2 ^ n :: 'a::len word) r) 64"
  shows "extent_word_type (word_of_nat (bf_cons (2 ^ n :: 'a word) r)) = n"
    "unat (word_of_nat (bf_cons (2 ^ n :: 'a word) r) :: u64) = bf_cons (2 ^ n :: 'a word) r"
proof -
  show u: "unat (word_of_nat (bf_cons (2 ^ n :: 'a word) r) :: u64) = bf_cons (2 ^ n :: 'a word) r"
    using assms(2) by (simp add: bf_fits_def unsigned_of_nat take_bit_nat_eq_self)
  have "unat (2 ^ n :: 'a word) = 2 ^ n" using assms(1) by (simp add: unat_pow2)
  then have "0 < bf_cons (2 ^ n :: 'a word) r" by (simp add: bf_cons_def)
  with u have "(word_of_nat (bf_cons (2 ^ n :: 'a word) r) :: u64) \<noteq> 0" by (metis not_gr_zero unsigned_0)
  then show "extent_word_type (word_of_nat (bf_cons (2 ^ n :: 'a word) r)) = n"
    using assms(1) by (simp add: extent_word_type_def ffs_word_def u ffs_bf_cons)
qed

lemma entry_at_words: "entry_at (entry_words e @ ws) = Some e"
proof (cases e)
  case (E_ptr p)
  then show ?thesis
    by (simp add: first_word [of 0, where 'a = 1, simplified] bf_fits_cons bf_get_skip)
next
  case (E_crc32 c)
  then show ?thesis
    by (simp add: first_word [of 1, where 'a = 2, simplified] bf_fits_cons bf_get_skip)
next
  case (E_crc64 c)
  then show ?thesis
    by (simp add: first_word [of 2, where 'a = 3, simplified] bf_fits_cons bf_get_skip)
next
  case (E_crc128 c)
  then show ?thesis
    by (simp add: first_word [of 3, where 'a = 4, simplified] bf_fits_cons bf_get_skip)
next
  case (E_stripe_ptr s)
  then show ?thesis
    by (simp add: first_word [of 4, where 'a = 5, simplified] bf_fits_cons bf_get_skip)
next
  case (E_rebalance r)
  then show ?thesis
    by (simp add: first_word [of 5, where 'a = 6, simplified] bf_fits_cons bf_get_skip)
next
  case (E_flags f)
  then show ?thesis
    by (simp add: first_word [of 6, where 'a = 7, simplified] bf_fits_cons bf_get_skip)
qed

lemma entries_of_words_words: "entries_of_words (value_words es) = Some es"
proof (induction es)
  case Nil
  then show ?case by (simp add: value_words_def entries_of_words.simps)
next
  case (Cons e es)
  have "entry_words e \<noteq> []" using length_entry_words [of e] by (metis extent_entry_u64s_pos length_greater_0_conv)
  with Cons show ?case
    by (simp add: value_words_def entries_of_words.simps [of "entry_words e @ concat (map entry_words es)"] entry_at_words)
qed

section \<open>Keys with pointers\<close>

text \<open>
  A key with its value taken apart the way \<open>bch2_bkey_ptrs_c\<close> does: the words before the
  first entry, the entries, and what follows them. The last is only used by stripes, whose
  pointers are an array of \<open>nr_blocks\<close> entries. Keys of types without pointers have no entries;
  their value is the header. A pointer to an entry is its index.
\<close>

record bkey_s =
  bs_k :: bkey
  bs_hdr :: "u64 list"
  bs_ptrs :: "extent_entry list"
  bs_tail :: "u64 list"

abbreviation (input) KEY_TYPE_deleted :: u8 where "KEY_TYPE_deleted \<equiv> 0"
abbreviation (input) KEY_TYPE_error :: u8 where "KEY_TYPE_error \<equiv> 2"
abbreviation (input) KEY_TYPE_btree_ptr :: u8 where "KEY_TYPE_btree_ptr \<equiv> 5"
abbreviation (input) KEY_TYPE_extent :: u8 where "KEY_TYPE_extent \<equiv> 6"
abbreviation (input) KEY_TYPE_reservation :: u8 where "KEY_TYPE_reservation \<equiv> 7"
abbreviation (input) KEY_TYPE_stripe :: u8 where "KEY_TYPE_stripe \<equiv> 14"
abbreviation (input) KEY_TYPE_reflink_p :: u8 where "KEY_TYPE_reflink_p \<equiv> 15"
abbreviation (input) KEY_TYPE_reflink_v :: u8 where "KEY_TYPE_reflink_v \<equiv> 16"
abbreviation (input) KEY_TYPE_inline_data :: u8 where "KEY_TYPE_inline_data \<equiv> 17"
abbreviation (input) KEY_TYPE_btree_ptr_v2 :: u8 where "KEY_TYPE_btree_ptr_v2 \<equiv> 18"
abbreviation (input) KEY_TYPE_indirect_inline_data :: u8 where "KEY_TYPE_indirect_inline_data \<equiv> 19"

text \<open>The field \<open>nr_blocks\<close> is byte 3 of a stripe.\<close>

definition stripe_nr_blocks :: "u64 \<Rightarrow> nat" where
  "stripe_nr_blocks w = unat (bf_get 24 (unat w) :: u8)"

text \<open>Number of words before the first entry and of words holding the entries.\<close>

definition ptrs_span :: "u8 \<Rightarrow> u64 list \<Rightarrow> (nat \<times> nat) option" where
  "ptrs_span t v =
     (if t = KEY_TYPE_btree_ptr \<or> t = KEY_TYPE_extent then Some (0, length v)
      else if t = KEY_TYPE_stripe then (case v of [] \<Rightarrow> None | w # _ \<Rightarrow> Some (1, stripe_nr_blocks w))
      else if t = KEY_TYPE_reflink_v then Some (1, length v - 1)
      else if t = KEY_TYPE_btree_ptr_v2 then Some (5, length v - 5)
      else Some (length v, 0))"

definition bch2_bkey_ptrs_c :: "bkey_i \<Rightarrow> bkey_s option" where
  "bch2_bkey_ptrs_c k =
     (case ptrs_span (k_type (i_k k)) (i_v k) of
        None \<Rightarrow> None
      | Some (h, n) \<Rightarrow>
          (case entries_of_words (take n (drop h (i_v k))) of
             None \<Rightarrow> None
           | Some es \<Rightarrow> Some \<lparr>bs_k = i_k k, bs_hdr = take h (i_v k), bs_ptrs = es, bs_tail = drop (h + n) (i_v k)\<rparr>))"

definition bkey_s_words :: "bkey_s \<Rightarrow> bkey_i" where
  "bkey_s_words s = \<lparr>i_k = bs_k s, i_v = bs_hdr s @ value_words (bs_ptrs s) @ bs_tail s\<rparr>"

text \<open>The layout of the value is that of the key's type, and \<open>u64s\<close> is the size of key and value.\<close>

definition bkey_s_layout :: "bkey_s \<Rightarrow> bool" where
  "bkey_s_layout s \<longleftrightarrow> ptrs_span (k_type (bs_k s)) (i_v (bkey_s_words s)) = Some (length (bs_hdr s), length (value_words (bs_ptrs s)))"

definition val_u64s :: "bkey_s \<Rightarrow> nat" where
  "val_u64s s = length (bs_hdr s) + sum_list (map extent_entry_u64s (bs_ptrs s)) + length (bs_tail s)"

definition bkey_s_ok :: "bkey_s \<Rightarrow> bool" where
  "bkey_s_ok s \<longleftrightarrow> bkey_s_layout s \<and> unat (k_u64s (bs_k s)) = BKEY_U64s + val_u64s s"

lemma length_value_words: "length (value_words es) = sum_list (map extent_entry_u64s es)"
  by (induction es) (simp_all add: value_words_def)

lemma bkey_ptrs_words: "bkey_s_layout s \<Longrightarrow> bch2_bkey_ptrs_c (bkey_s_words s) = Some s"
  by (simp add: bkey_s_layout_def bch2_bkey_ptrs_c_def bkey_s_words_def entries_of_words_words)

section \<open>Inserting and dropping entries\<close>

definition val_u64s_add :: "nat \<Rightarrow> bkey \<Rightarrow> bkey" where
  "val_u64s_add n k = k\<lparr>k_u64s := k_u64s k + word_of_nat n\<rparr>"

definition val_u64s_sub :: "nat \<Rightarrow> bkey \<Rightarrow> bkey" where
  "val_u64s_sub n k = k\<lparr>k_u64s := k_u64s k - word_of_nat n\<rparr>"

definition extent_entry_insert :: "bkey_s \<Rightarrow> nat \<Rightarrow> extent_entry \<Rightarrow> bkey_s" where
  "extent_entry_insert s dst new =
     s\<lparr>bs_ptrs := take dst (bs_ptrs s) @ new # drop dst (bs_ptrs s),
       bs_k := val_u64s_add (extent_entry_u64s new) (bs_k s)\<rparr>"

definition extent_entry_drop :: "bkey_s \<Rightarrow> nat \<Rightarrow> bkey_s" where
  "extent_entry_drop s entry =
     s\<lparr>bs_ptrs := take entry (bs_ptrs s) @ drop (Suc entry) (bs_ptrs s),
       bs_k := val_u64s_sub (extent_entry_u64s (bs_ptrs s ! entry)) (bs_k s)\<rparr>"

text \<open>Key types whose value is a header of fixed size followed by entries.\<close>

definition ptr_list_type :: "u8 \<Rightarrow> bool" where
  "ptr_list_type t \<longleftrightarrow> t \<in> {KEY_TYPE_btree_ptr, KEY_TYPE_extent, KEY_TYPE_reflink_v, KEY_TYPE_btree_ptr_v2}"

definition hdr_u64s :: "u8 \<Rightarrow> nat" where
  "hdr_u64s t = (if t = KEY_TYPE_reflink_v then 1 else if t = KEY_TYPE_btree_ptr_v2 then 5 else 0)"

lemma layout_iff:
  "ptr_list_type (k_type (bs_k s)) \<Longrightarrow>
   bkey_s_layout s \<longleftrightarrow> length (bs_hdr s) = hdr_u64s (k_type (bs_k s)) \<and> bs_tail s = []"
  by (auto simp: bkey_s_layout_def ptr_list_type_def ptrs_span_def hdr_u64s_def bkey_s_words_def)

lemma extent_entry_insert_sel [simp]:
  "bs_ptrs (extent_entry_insert s i e) = take i (bs_ptrs s) @ e # drop i (bs_ptrs s)"
  "bs_hdr (extent_entry_insert s i e) = bs_hdr s" "bs_tail (extent_entry_insert s i e) = bs_tail s"
  "k_type (bs_k (extent_entry_insert s i e)) = k_type (bs_k s)" "k_size (bs_k (extent_entry_insert s i e)) = k_size (bs_k s)"
  "k_p (bs_k (extent_entry_insert s i e)) = k_p (bs_k s)"
  "k_u64s (bs_k (extent_entry_insert s i e)) = k_u64s (bs_k s) + word_of_nat (extent_entry_u64s e)"
  by (simp_all add: extent_entry_insert_def val_u64s_add_def)

lemma extent_entry_drop_sel [simp]:
  "bs_ptrs (extent_entry_drop s i) = take i (bs_ptrs s) @ drop (Suc i) (bs_ptrs s)"
  "bs_hdr (extent_entry_drop s i) = bs_hdr s" "bs_tail (extent_entry_drop s i) = bs_tail s"
  "k_type (bs_k (extent_entry_drop s i)) = k_type (bs_k s)" "k_size (bs_k (extent_entry_drop s i)) = k_size (bs_k s)"
  "k_p (bs_k (extent_entry_drop s i)) = k_p (bs_k s)"
  "k_u64s (bs_k (extent_entry_drop s i)) = k_u64s (bs_k s) - word_of_nat (extent_entry_u64s (bs_ptrs s ! i))"
  by (simp_all add: extent_entry_drop_def val_u64s_sub_def)

lemma extent_entry_u64s_le: "extent_entry_u64s e \<le> 3"
  by (cases e) (simp_all add: extent_entry_u64s_def)

lemma insert_val_u64s: "val_u64s (extent_entry_insert s i e) = val_u64s s + extent_entry_u64s e"
proof -
  have "sum_list (map extent_entry_u64s (bs_ptrs s)) =
    sum_list (map extent_entry_u64s (take i (bs_ptrs s))) + sum_list (map extent_entry_u64s (drop i (bs_ptrs s)))"
    by (metis append_take_drop_id map_append sum_list_append)
  then show ?thesis by (simp add: val_u64s_def)
qed

lemma drop_val_u64s:
  assumes "i < length (bs_ptrs s)"
  shows "val_u64s (extent_entry_drop s i) + extent_entry_u64s (bs_ptrs s ! i) = val_u64s s"
proof -
  have "sum_list (map extent_entry_u64s (bs_ptrs s)) =
    sum_list (map extent_entry_u64s (take i (bs_ptrs s) @ bs_ptrs s ! i # drop (Suc i) (bs_ptrs s)))"
    using assms by (simp add: id_take_nth_drop [symmetric])
  then show ?thesis by (simp add: val_u64s_def)
qed

lemma insert_ok:
  assumes "bkey_s_ok s" "ptr_list_type (k_type (bs_k s))" "BKEY_U64s + val_u64s s + extent_entry_u64s e < 256"
  shows "bkey_s_ok (extent_entry_insert s i e)"
proof -
  have "unat (k_u64s (bs_k s) + word_of_nat (extent_entry_u64s e)) = BKEY_U64s + (val_u64s s + extent_entry_u64s e)"
    using assms extent_entry_u64s_le [of e]
    by (subst unat_plus_simple [THEN iffD1]) (simp_all add: bkey_s_ok_def word_le_nat_alt unat_word_ariths unsigned_of_nat take_bit_nat_eq_self)
  then show ?thesis using assms by (simp add: bkey_s_ok_def layout_iff insert_val_u64s)
qed

lemma drop_ok:
  assumes "bkey_s_ok s" "ptr_list_type (k_type (bs_k s))" "i < length (bs_ptrs s)"
  shows "bkey_s_ok (extent_entry_drop s i)"
proof -
  have "unat (k_u64s (bs_k s) - word_of_nat (extent_entry_u64s (bs_ptrs s ! i))) = BKEY_U64s + val_u64s (extent_entry_drop s i)"
    using assms drop_val_u64s [OF assms(3)] extent_entry_u64s_le [of "bs_ptrs s ! i"]
    by (subst unat_sub) (simp_all add: bkey_s_ok_def word_le_nat_alt unsigned_of_nat take_bit_nat_eq_self)
  then show ?thesis using assms by (simp add: bkey_s_ok_def layout_iff)
qed

section \<open>Property\<close>


definition stored_extent :: bkey_s where
  "stored_extent =
     \<lparr>bs_k = \<lparr>k_u64s = 11, k_format = 0, k_needs_whiteout = False, k_type = KEY_TYPE_reflink_v, k_pad = 0,
        k_bversion = \<lparr>bv_hi = 0, bv_lo = 0\<rparr>, k_size = 16, k_p = SPOS 1 16 0\<rparr>,
      bs_hdr = [1],
      bs_ptrs = [E_crc64 \<lparr>c64_compressed_size = 15, c64_uncompressed_size = 15, c64_offset = 0, c64_nonce = 9, c64_csum_type = 3,
          c64_compression_type = 0, c64_csum_hi = 0xbeef, c64_csum_lo = 0xdeadbeef\<rparr>,
        E_stripe_ptr \<lparr>s_block = 1, s_redundancy = 1, s_idx = 7\<rparr>,
        E_ptr \<lparr>p_cached = 0, p_unused = 0, p_unwritten = 0, p_offset = 4096, p_dev = 1, p_gen = 3\<rparr>,
        E_rebalance 77],
      bs_tail = []\<rparr>"


end
