(* ===== verification/Extent_Crc.thy ===== *)
theory Extent_Crc
  imports Extent_Entry
begin

text \<open>
  Checksum entries of extents (\<^verbatim>\<open>libbcachefs/extents.h\<close>, \<^verbatim>\<open>extents.c\<close>, with the tables
  of \<^verbatim>\<open>bcachefs_format.h\<close> and \<^verbatim>\<open>checksum.h\<close>): the unpacked form
  \<open>bch_extent_crc_unpacked\<close>, packing it into one of the three on-disk forms, unpacking it
  again, and appending the smallest form that can hold it. A store to a bit field keeps the low
  bits, \<open>ucast\<close>. \<open>None\<close> stands for \<open>BUG()\<close> and for reading past the table of checksum sizes.
\<close>

record crc_unpacked =
  u_compressed_size :: u32
  u_uncompressed_size :: u32
  u_live_size :: u32
  u_csum_type :: u8
  u_compression_type :: u8
  u_offset :: u16
  u_nonce :: u16
  u_csum :: bch_csum

text \<open>
  \<open>bch_crc_bytes\<close>, indexed by the checksum type: none, crc32c_nonzero, crc64_nonzero,
  chacha20_poly1305_80, chacha20_poly1305_128, crc32c, crc64, xxhash.
\<close>

definition bch_crc_bytes :: "u8 \<Rightarrow> nat option" where
  "bch_crc_bytes t = (if unat t < 8 then Some ([0, 4, 8, 10, 16, 4, 8, 8] ! unat t) else None)"

abbreviation (input) BCH_COMPRESSION_TYPE_incompressible :: u8 where
  "BCH_COMPRESSION_TYPE_incompressible \<equiv> 5"

definition bch2_csum_type_is_encryption :: "u8 \<Rightarrow> bool" where
  "bch2_csum_type_is_encryption t = (t = 3 \<or> t = 4)"

definition bch2_checksum_mergeable :: "u8 \<Rightarrow> bool" where
  "bch2_checksum_mergeable t = (t = 0 \<or> t = 5 \<or> t = 6)"

definition bch2_crc_cmp :: "bch_csum \<Rightarrow> bch_csum \<Rightarrow> bool" where
  "bch2_crc_cmp l r = (((cs_lo l XOR cs_lo r) OR (cs_hi l XOR cs_hi r)) \<noteq> 0)"

definition crc_is_compressed :: "crc_unpacked \<Rightarrow> bool" where
  "crc_is_compressed crc = (u_compression_type crc \<noteq> 0 \<and> u_compression_type crc \<noteq> BCH_COMPRESSION_TYPE_incompressible)"

definition crc_is_encoded :: "crc_unpacked \<Rightarrow> bool" where
  "crc_is_encoded crc = (u_csum_type crc \<noteq> 0 \<or> crc_is_compressed crc)"

definition bch2_crc_unpacked_cmp :: "crc_unpacked \<Rightarrow> crc_unpacked \<Rightarrow> bool" where
  "bch2_crc_unpacked_cmp l r =
     (u_csum_type l \<noteq> u_csum_type r \<or>
      u_compression_type l \<noteq> u_compression_type r \<or>
      u_compressed_size l \<noteq> u_compressed_size r \<or>
      u_uncompressed_size l \<noteq> u_uncompressed_size r \<or>
      u_offset l \<noteq> u_offset r \<or>
      u_live_size l \<noteq> u_live_size r \<or>
      u_nonce l \<noteq> u_nonce r \<or>
      bch2_crc_cmp (u_csum l) (u_csum r))"

definition can_narrow_crc :: "crc_unpacked \<Rightarrow> crc_unpacked \<Rightarrow> bool" where
  "can_narrow_crc u n =
     (\<not> crc_is_compressed u \<and> u_csum_type u \<noteq> 0 \<and> u_live_size u < u_uncompressed_size u \<and>
      bch2_csum_type_is_encryption (u_csum_type u) = bch2_csum_type_is_encryption (u_csum_type n))"

text \<open>\<open>bch2_extent_crc_unpack(k, NULL)\<close>: no checksum entry precedes the pointer.\<close>

definition crc_unpack_none :: "bkey \<Rightarrow> crc_unpacked" where
  "crc_unpack_none k =
     \<lparr>u_compressed_size = k_size k, u_uncompressed_size = k_size k, u_live_size = k_size k,
      u_csum_type = 0, u_compression_type = 0, u_offset = 0, u_nonce = 0, u_csum = \<lparr>cs_lo = 0, cs_hi = 0\<rparr>\<rparr>"

fun bch2_extent_crc_unpack :: "bkey \<Rightarrow> extent_entry \<Rightarrow> crc_unpacked" where
  "bch2_extent_crc_unpack k (E_crc32 c) =
     \<lparr>u_compressed_size = ucast (c32_compressed_size c) + 1, u_uncompressed_size = ucast (c32_uncompressed_size c) + 1,
      u_live_size = k_size k, u_csum_type = ucast (c32_csum_type c), u_compression_type = ucast (c32_compression_type c),
      u_offset = ucast (c32_offset c), u_nonce = 0, u_csum = \<lparr>cs_lo = ucast (c32_csum c), cs_hi = 0\<rparr>\<rparr>"
| "bch2_extent_crc_unpack k (E_crc64 c) =
     \<lparr>u_compressed_size = ucast (c64_compressed_size c) + 1, u_uncompressed_size = ucast (c64_uncompressed_size c) + 1,
      u_live_size = k_size k, u_csum_type = ucast (c64_csum_type c), u_compression_type = ucast (c64_compression_type c),
      u_offset = ucast (c64_offset c), u_nonce = ucast (c64_nonce c),
      u_csum = \<lparr>cs_lo = c64_csum_lo c, cs_hi = ucast (c64_csum_hi c)\<rparr>\<rparr>"
| "bch2_extent_crc_unpack k (E_crc128 c) =
     \<lparr>u_compressed_size = ucast (c128_compressed_size c) + 1, u_uncompressed_size = ucast (c128_uncompressed_size c) + 1,
      u_live_size = k_size k, u_csum_type = ucast (c128_csum_type c), u_compression_type = ucast (c128_compression_type c),
      u_offset = ucast (c128_offset c), u_nonce = ucast (c128_nonce c), u_csum = c128_csum c\<rparr>"
| "bch2_extent_crc_unpack k _ = crc_unpack_none k"

definition bch2_extent_crc_pack :: "crc_unpacked \<Rightarrow> nat \<Rightarrow> extent_entry option" where
  "bch2_extent_crc_pack src t =
     (if t = 1 then
        Some (E_crc32 \<lparr>c32_compressed_size = ucast (u_compressed_size src - 1),
                       c32_uncompressed_size = ucast (u_uncompressed_size src - 1), c32_offset = ucast (u_offset src),
                       c32_csum_type = ucast (u_csum_type src), c32_compression_type = ucast (u_compression_type src),
                       c32_csum = ucast (cs_lo (u_csum src))\<rparr>)
      else if t = 2 then
        Some (E_crc64 \<lparr>c64_compressed_size = ucast (u_compressed_size src - 1),
                       c64_uncompressed_size = ucast (u_uncompressed_size src - 1), c64_offset = ucast (u_offset src),
                       c64_nonce = ucast (u_nonce src),
                       c64_csum_type = ucast (u_csum_type src), c64_compression_type = ucast (u_compression_type src),
                       c64_csum_hi = ucast (cs_hi (u_csum src)), c64_csum_lo = cs_lo (u_csum src)\<rparr>)
      else if t = 3 then
        Some (E_crc128 \<lparr>c128_compressed_size = ucast (u_compressed_size src - 1),
                        c128_uncompressed_size = ucast (u_uncompressed_size src - 1), c128_offset = ucast (u_offset src),
                        c128_nonce = ucast (u_nonce src),
                        c128_csum_type = ucast (u_csum_type src), c128_compression_type = ucast (u_compression_type src),
                        c128_csum = u_csum src\<rparr>)
      else None)"

definition CRC32_SIZE_MAX :: u32 where "CRC32_SIZE_MAX = push_bit 7 1"
definition CRC32_NONCE_MAX :: u16 where "CRC32_NONCE_MAX = 0"
definition CRC64_SIZE_MAX :: u32 where "CRC64_SIZE_MAX = push_bit 9 1"
definition CRC64_NONCE_MAX :: u16 where "CRC64_NONCE_MAX = push_bit 10 1 - 1"
definition CRC128_SIZE_MAX :: u32 where "CRC128_SIZE_MAX = push_bit 13 1"
definition CRC128_NONCE_MAX :: u16 where "CRC128_NONCE_MAX = push_bit 13 1 - 1"

definition bch2_crc_field_size_max :: "nat \<Rightarrow> u32" where
  "bch2_crc_field_size_max t = [0, CRC32_SIZE_MAX, CRC64_SIZE_MAX, CRC128_SIZE_MAX] ! t"

text \<open>The choice of the entry type in \<open>bch2_extent_crc_append\<close>.\<close>

definition crc_append_type :: "crc_unpacked \<Rightarrow> nat option" where
  "crc_append_type new =
     (case bch_crc_bytes (u_csum_type new) of
        None \<Rightarrow> None
      | Some bytes \<Rightarrow>
          if bytes \<le> 4 \<and> u_uncompressed_size new \<le> CRC32_SIZE_MAX \<and> u_nonce new \<le> CRC32_NONCE_MAX then Some 1
          else if bytes \<le> 10 \<and> u_uncompressed_size new \<le> CRC64_SIZE_MAX \<and> u_nonce new \<le> CRC64_NONCE_MAX then Some 2
          else if bytes \<le> 16 \<and> u_uncompressed_size new \<le> CRC128_SIZE_MAX \<and> u_nonce new \<le> CRC128_NONCE_MAX then Some 3
          else None)"

definition bch2_extent_crc_append :: "bkey_s \<Rightarrow> crc_unpacked \<Rightarrow> bkey_s option" where
  "bch2_extent_crc_append s new =
     (case crc_append_type new of
        None \<Rightarrow> None
      | Some t \<Rightarrow>
          (case bch2_extent_crc_pack new t of
             None \<Rightarrow> None
           | Some e \<Rightarrow> Some (extent_entry_insert s (length (bs_ptrs s)) e)))"

section \<open>Packing loses nothing\<close>

text \<open>
  A checksum entry the code can build: the checksum has no more bytes than its type, the sizes
  are at least one sector, the compressed data is not larger than the uncompressed data,
  and the live data starts within it.
\<close>

definition csum_fits :: "nat \<Rightarrow> bch_csum \<Rightarrow> bool" where
  "csum_fits n c \<longleftrightarrow> unat (cs_lo c) + 2 ^ 64 * unat (cs_hi c) < 256 ^ n"

definition crc_wf :: "crc_unpacked \<Rightarrow> bool" where
  "crc_wf u \<longleftrightarrow>
     (case bch_crc_bytes (u_csum_type u) of None \<Rightarrow> False | Some n \<Rightarrow> csum_fits n (u_csum u)) \<and>
     unat (u_compression_type u) < 16 \<and>
     0 < u_compressed_size u \<and> u_compressed_size u \<le> u_uncompressed_size u \<and>
     unat (u_offset u) < unat (u_uncompressed_size u)"

lemma ucast_ucast_small:
  "unat (x :: 'b::len word) < 2 ^ LENGTH('a) \<Longrightarrow> ucast (ucast x :: 'a::len word) = x"
proof -
  assume "unat x < 2 ^ LENGTH('a)"
  then have "unat (ucast (ucast x :: 'a word) :: 'b word) = unat x"
    by (simp only: unsigned_ucast_eq unsigned_take_bit_eq take_bit_nat_eq_self take_bit_of_nat) (simp add: take_bit_nat_eq_self)
  then show ?thesis by (simp only: word_eq_iff_unsigned [where 'a = nat])
qed

lemma size_roundtrip:
  assumes "0 < (x :: u32)" "unat x \<le> 2 ^ LENGTH('a)"
  shows "ucast (ucast (x - 1) :: 'a::len word) + 1 = x"
proof -
  have "unat (x - 1) = unat x - 1" using assms(1) by (simp add: unat_sub word_le_nat_alt word_less_nat_alt)
  then have "unat (x - 1) < 2 ^ LENGTH('a)" using assms by (simp add: word_less_nat_alt)
  then show ?thesis by (simp add: ucast_ucast_small)
qed


lemma csum_fits_bytes:
  "csum_fits n c \<Longrightarrow> n \<le> 4 \<Longrightarrow> unat (cs_lo c) < 2 ^ 32 \<and> cs_hi c = 0"
  "csum_fits n c \<Longrightarrow> n \<le> 10 \<Longrightarrow> unat (cs_hi c) < 2 ^ 16"
proof -
  assume c: "csum_fits n c"
  have mono: "csum_fits m c" if "n \<le> m" for m
    using c that unfolding csum_fits_def by (meson le_trans less_le_trans power_increasing one_le_numeral)
  show "unat (cs_lo c) < 2 ^ 32 \<and> cs_hi c = 0" if "n \<le> 4"
    using mono [OF that] by (cases "unat (cs_hi c)") (simp_all add: csum_fits_def unat_eq_0)
  show "unat (cs_hi c) < 2 ^ 16" if "n \<le> 10"
    using mono [OF that] by (simp add: csum_fits_def)
qed

lemma crc_max_simps:
  "unat CRC32_SIZE_MAX = 128" "unat CRC64_SIZE_MAX = 512" "unat CRC128_SIZE_MAX = 8192"
  "unat CRC32_NONCE_MAX = 0" "unat CRC64_NONCE_MAX = 1023" "unat CRC128_NONCE_MAX = 8191"
  by (simp_all add: CRC32_SIZE_MAX_def CRC64_SIZE_MAX_def CRC128_SIZE_MAX_def CRC32_NONCE_MAX_def
    CRC64_NONCE_MAX_def CRC128_NONCE_MAX_def)

lemma csum_type_small: "bch_crc_bytes t = Some n \<Longrightarrow> unat t < 16"
  by (simp add: bch_crc_bytes_def split: if_splits)

lemma crc_pack_unpack:
  assumes "crc_wf u" "crc_append_type u = Some t"
  shows "\<exists>e. bch2_extent_crc_pack u t = Some e \<and> extent_entry_is_crc e \<and> extent_entry_type e = t \<and>
    bch2_extent_crc_unpack k e = u\<lparr>u_live_size := k_size k\<rparr>"
proof -
  obtain n where n: "bch_crc_bytes (u_csum_type u) = Some n" "csum_fits n (u_csum u)"
    using assms(1) by (auto simp: crc_wf_def split: option.splits)
  have small: "unat (u_csum_type u) < 2 ^ LENGTH(4)" "unat (u_compression_type u) < 2 ^ LENGTH(4)"
    using csum_type_small [OF n(1)] assms(1) by (simp_all add: crc_wf_def)
  have sz: "0 < u_compressed_size u" "0 < u_uncompressed_size u" "unat (u_compressed_size u) \<le> unat (u_uncompressed_size u)"
    "unat (u_offset u) < unat (u_uncompressed_size u)"
    using assms(1) by (auto simp: crc_wf_def word_le_nat_alt word_less_nat_alt)
  have cases: "t = 1 \<and> n \<le> 4 \<and> unat (u_uncompressed_size u) \<le> 2 ^ LENGTH(7) \<and> u_nonce u = 0 \<or>
    t = 2 \<and> n \<le> 10 \<and> unat (u_uncompressed_size u) \<le> 2 ^ LENGTH(9) \<and> unat (u_nonce u) < 2 ^ LENGTH(10) \<or>
    t = 3 \<and> unat (u_uncompressed_size u) \<le> 2 ^ LENGTH(13) \<and> unat (u_nonce u) < 2 ^ LENGTH(13)"
    using assms(2) n(1)
    by (auto simp: crc_append_type_def word_le_nat_alt crc_max_simps unat_eq_0 split: if_splits)
  then consider "t = 1" "n \<le> 4" "unat (u_uncompressed_size u) \<le> 2 ^ LENGTH(7)" "u_nonce u = 0"
    | "t = 2" "n \<le> 10" "unat (u_uncompressed_size u) \<le> 2 ^ LENGTH(9)" "unat (u_nonce u) < 2 ^ LENGTH(10)"
    | "t = 3" "unat (u_uncompressed_size u) \<le> 2 ^ LENGTH(13)" "unat (u_nonce u) < 2 ^ LENGTH(13)"
    by blast
  then show ?thesis
  proof cases
    case 1
    then show ?thesis using small sz csum_fits_bytes(1) [OF n(2)]
      by (simp add: bch2_extent_crc_pack_def size_roundtrip ucast_ucast_small)
  next
    case 2
    then show ?thesis using small sz csum_fits_bytes(2) [OF n(2)]
      by (simp add: bch2_extent_crc_pack_def size_roundtrip ucast_ucast_small)
  next
    case 3
    then show ?thesis using small sz
      by (simp add: bch2_extent_crc_pack_def size_roundtrip ucast_ucast_small)
  qed
qed

lemma crc_append_type_None:
  assumes "bch_crc_bytes (u_csum_type u) \<noteq> None"
  shows "crc_append_type u = None \<longleftrightarrow> 8192 < unat (u_uncompressed_size u) \<or> 8191 < unat (u_nonce u)"
proof -
  obtain n where "bch_crc_bytes (u_csum_type u) = Some n" "n \<in> set [0, 4, 8, 10, 16, 4, 8, 8]"
    using assms nth_mem [of "unat (u_csum_type u)" "[0, 4, 8, 10, 16, 4, 8, 8 :: nat]"]
    by (auto simp: bch_crc_bytes_def split: if_splits)
  then show ?thesis by (auto simp: crc_append_type_def word_le_nat_alt crc_max_simps)
qed

section \<open>Property\<close>

text \<open>C37: appending a checksum to an extent stores it in the first of the three entry formats that can
  hold it and loses nothing: unpacking the appended entry gives the checksum back, with the size of the
  key as its live size. It hits \<open>BUG()\<close> exactly when the uncompressed data has more than 8192 sectors
  or the nonce has more than 13 bits.\<close>

theorem crc_append_roundtrip:
  assumes "crc_wf u"
  shows "(bch2_extent_crc_append s u = None \<longleftrightarrow> 8192 < unat (u_uncompressed_size u) \<or> 8191 < unat (u_nonce u)) \<and>
    (\<forall>s'. bch2_extent_crc_append s u = Some s' \<longrightarrow>
      (\<exists>e. bs_ptrs s' = bs_ptrs s @ [e] \<and> extent_entry_is_crc e \<and>
        bch2_extent_crc_unpack (bs_k s') e = u\<lparr>u_live_size := k_size (bs_k s)\<rparr>))"
proof (cases "crc_append_type u")
  case None
  then show ?thesis using assms crc_append_type_None [of u]
    by (auto simp: bch2_extent_crc_append_def crc_wf_def split: option.splits)
next
  case (Some t)
  obtain e where e: "bch2_extent_crc_pack u t = Some e" "extent_entry_is_crc e"
      "bch2_extent_crc_unpack (bs_k (extent_entry_insert s (length (bs_ptrs s)) e)) e = u\<lparr>u_live_size := k_size (bs_k s)\<rparr>"
    using crc_pack_unpack [OF assms Some, of "bs_k (extent_entry_insert s n e)" for n e] by (metis extent_entry_insert_sel(5) option.inject)
  then show ?thesis using assms Some crc_append_type_None [of u]
    by (auto simp: bch2_extent_crc_append_def crc_wf_def split: option.splits)
qed

definition stored_crc :: crc_unpacked where
  "stored_crc = \<lparr>u_compressed_size = 100, u_uncompressed_size = 300, u_live_size = 16, u_csum_type = 3,
     u_compression_type = 4, u_offset = 7, u_nonce = 9, u_csum = \<lparr>cs_lo = 0xdeadbeef, cs_hi = 0xbeef\<rparr>\<rparr>"

theorem crc_append_roundtrip_witness:
  "\<exists>s' e. bch2_extent_crc_append stored_extent stored_crc = Some s' \<and> bs_ptrs s' = bs_ptrs stored_extent @ [e] \<and>
     bch2_extent_crc_unpack (bs_k s') e = stored_crc"
proof -
  have "crc_wf stored_crc" by (simp add: crc_wf_def stored_crc_def bch_crc_bytes_def csum_fits_def)
  note t = crc_append_roundtrip [OF this, of stored_extent]
  have "bch2_extent_crc_append stored_extent stored_crc \<noteq> None" using t by (simp add: stored_crc_def)
  moreover have "stored_crc\<lparr>u_live_size := k_size (bs_k stored_extent)\<rparr> = stored_crc" by (simp add: stored_crc_def stored_extent_def)
  ultimately show ?thesis using t by auto
qed

end
