(* ===== verification/Extent_Ptrs.thy ===== *)
theory Extent_Ptrs
  imports Extent_Crc
begin

text \<open>
  Pointers of a key (\<^verbatim>\<open>libbcachefs/extents.h\<close>, \<^verbatim>\<open>extents.c\<close>): the iterators that decode a
  pointer together with the checksum entry and the stripe pointer that apply to it, the counts
  the code takes over them, and the operations that add and drop pointers.

  What a value means is \<open>ptr_views\<close>: for each pointer in order, its checksum entry, the pointer,
  and its stripe pointer if it has one. The theory shows that adding and dropping a
  pointer changes this list in that one place and that the size of the key stays right.
\<close>

record extent_ptr_decoded =
  d_has_ec :: bool
  d_do_ec_reconstruct :: bool
  d_crc_retry_nr :: u8
  d_crc :: crc_unpacked
  d_ptr :: bch_extent_ptr
  d_ec :: bch_extent_stripe_ptr

section \<open>Iterators\<close>

text \<open>
  The loop of \<open>__bkey_ptr_next_decode\<close>, from the entry the iterator stands at: the decoded
  pointer and the entries from that pointer on, none when there is no further pointer.
\<close>

fun ptr_scan :: "bkey \<Rightarrow> extent_ptr_decoded \<Rightarrow> extent_entry list \<Rightarrow> extent_ptr_decoded \<times> extent_entry list" where
  "ptr_scan k p [] = (p, [])"
| "ptr_scan k p (e # es) =
     (case e of
        E_ptr q \<Rightarrow> (p\<lparr>d_ptr := q\<rparr>, e # es)
      | E_stripe_ptr s \<Rightarrow> ptr_scan k (p\<lparr>d_ec := s, d_has_ec := True\<rparr>) es
      | _ \<Rightarrow> if extent_entry_is_crc e then ptr_scan k (p\<lparr>d_crc := bch2_extent_crc_unpack k e\<rparr>) es
             else ptr_scan k p es)"

definition bkey_ptr_next_decode :: "bkey \<Rightarrow> extent_ptr_decoded \<Rightarrow> extent_entry list \<Rightarrow> extent_ptr_decoded \<times> extent_entry list" where
  "bkey_ptr_next_decode k p es =
     ptr_scan k (p\<lparr>d_has_ec := False, d_do_ec_reconstruct := False, d_crc_retry_nr := 0\<rparr>) es"

lemma ptr_scan_length: "length (snd (ptr_scan k p es)) \<le> length es"
  by (induction k p es rule: ptr_scan.induct) (auto split: extent_entry.splits intro: le_SucI)

text \<open>The pointers in order, each with the entries from it on.\<close>

function for_each_ptr_decode_from :: "bkey \<Rightarrow> extent_ptr_decoded \<Rightarrow> extent_entry list \<Rightarrow> (extent_ptr_decoded \<times> extent_entry list) list" where
  "for_each_ptr_decode_from k p es =
     (case bkey_ptr_next_decode k p es of
        (p', []) \<Rightarrow> []
      | (p', e # rest) \<Rightarrow> (p', e # rest) # for_each_ptr_decode_from k p' rest)"
  by pat_completeness auto
termination
proof (relation "measure (\<lambda>(k, p, es). length es)", goal_cases)
  case (2 k p es)
  then show ?case
    using ptr_scan_length [of k "p\<lparr>d_has_ec := False, d_do_ec_reconstruct := False, d_crc_retry_nr := 0\<rparr>" es]
    by (auto simp: bkey_ptr_next_decode_def dest!: arg_cong [where f = "\<lambda>x. length (snd x)"])
qed simp

declare for_each_ptr_decode_from.simps [simp del]

definition bkey_for_each_ptr_decode :: "bkey \<Rightarrow> extent_ptr_decoded \<Rightarrow> extent_entry list \<Rightarrow> (extent_ptr_decoded \<times> extent_entry list) list" where
  "bkey_for_each_ptr_decode k p es = for_each_ptr_decode_from k (p\<lparr>d_crc := crc_unpack_none k\<rparr>) es"

text \<open>\<open>bkey_for_each_ptr\<close> and \<open>bkey_for_each_crc\<close>, with the index of the entry, from index \<open>i\<close>.\<close>

fun bkey_for_each_ptr :: "nat \<Rightarrow> extent_entry list \<Rightarrow> (nat \<times> bch_extent_ptr) list" where
  "bkey_for_each_ptr i [] = []"
| "bkey_for_each_ptr i (e # es) =
     (case e of E_ptr p \<Rightarrow> (i, p) # bkey_for_each_ptr (Suc i) es | _ \<Rightarrow> bkey_for_each_ptr (Suc i) es)"

fun bkey_for_each_crc :: "bkey \<Rightarrow> nat \<Rightarrow> extent_entry list \<Rightarrow> (nat \<times> crc_unpacked) list" where
  "bkey_for_each_crc k i [] = []"
| "bkey_for_each_crc k i (e # es) =
     (if extent_entry_is_crc e then (i, bch2_extent_crc_unpack k e) # bkey_for_each_crc k (Suc i) es
      else bkey_for_each_crc k (Suc i) es)"

section \<open>Counts\<close>

definition bch2_bkey_devs :: "extent_entry list \<Rightarrow> u8 list" where
  "bch2_bkey_devs es = map (\<lambda>(i, p). p_dev p) (bkey_for_each_ptr 0 es)"

definition bch2_bkey_dirty_devs :: "extent_entry list \<Rightarrow> u8 list" where
  "bch2_bkey_dirty_devs es = map (\<lambda>(i, p). p_dev p) (filter (\<lambda>(i, p). p_cached p = 0) (bkey_for_each_ptr 0 es))"

definition bch2_bkey_cached_devs :: "extent_entry list \<Rightarrow> u8 list" where
  "bch2_bkey_cached_devs es = map (\<lambda>(i, p). p_dev p) (filter (\<lambda>(i, p). p_cached p \<noteq> 0) (bkey_for_each_ptr 0 es))"

definition bkey_extent_is_unwritten :: "extent_entry list \<Rightarrow> bool" where
  "bkey_extent_is_unwritten es = list_ex (\<lambda>(i, p). p_unwritten p \<noteq> 0) (bkey_for_each_ptr 0 es)"

definition bch2_bkey_nr_ptrs :: "extent_entry list \<Rightarrow> nat" where
  "bch2_bkey_nr_ptrs es = length (bch2_bkey_devs es)"

definition bch2_bkey_has_device_c :: "extent_entry list \<Rightarrow> u8 \<Rightarrow> nat option" where
  "bch2_bkey_has_device_c es dev = map_option fst (find (\<lambda>(i, p). p_dev p = dev) (bkey_for_each_ptr 0 es))"

section \<open>Adding a pointer\<close>

definition bch2_extent_ptr_decoded_append :: "bkey_s \<Rightarrow> extent_ptr_decoded \<Rightarrow> bkey_s option" where
  "bch2_extent_ptr_decoded_append s p =
     (let found = (\<lambda>s pos.
            let s = extent_entry_insert s pos (E_ptr (d_ptr p))
            in if d_has_ec p then extent_entry_insert s pos (E_stripe_ptr (d_ec p)) else s)
      in if \<not> bch2_crc_unpacked_cmp (crc_unpack_none (bs_k s)) (d_crc p) then Some (found s 0)
         else case find (\<lambda>(i, crc). \<not> bch2_crc_unpacked_cmp crc (d_crc p)) (bkey_for_each_crc (bs_k s) 0 (bs_ptrs s)) of
            Some (i, crc) \<Rightarrow> Some (found s (Suc i))
          | None \<Rightarrow> map_option (\<lambda>s. found s (length (bs_ptrs s))) (bch2_extent_crc_append s (d_crc p)))"

definition bch2_bkey_append_ptr :: "bkey_s \<Rightarrow> bch_extent_ptr \<Rightarrow> bkey_s option" where
  "bch2_bkey_append_ptr s ptr =
     (if k_type (bs_k s) \<in> {KEY_TYPE_btree_ptr, KEY_TYPE_btree_ptr_v2, KEY_TYPE_extent}
      then Some (extent_entry_insert s (length (bs_ptrs s)) (E_ptr ptr)) else None)"

section \<open>Dropping a pointer\<close>

text \<open>Whether the checksum entry before the dropped pointer goes: the scan forward from the pointer.\<close>

fun drop_crc_scan :: "extent_entry list \<Rightarrow> bool" where
  "drop_crc_scan [] = True"
| "drop_crc_scan (e # es) =
     (if extent_entry_is_crc e then True else if extent_entry_is_ptr e then False else drop_crc_scan es)"

text \<open>
  The scan backward with \<open>extent_entry_prev\<close>: \<open>entry\<close> is the entry it looks before, the first
  argument its index.
\<close>

fun drop_prev_loop :: "nat \<Rightarrow> bool \<Rightarrow> bkey_s \<Rightarrow> bkey_s" where
  "drop_prev_loop 0 drop_crc s = s"
| "drop_prev_loop (Suc i) drop_crc s =
     (let e = bs_ptrs s ! i in
      if extent_entry_is_ptr e then s
      else if extent_entry_is_crc e \<and> drop_crc \<or> extent_entry_is_stripe_ptr e
      then drop_prev_loop i drop_crc (extent_entry_drop s i)
      else drop_prev_loop i drop_crc s)"

abbreviation (input) BCH_SB_MEMBER_INVALID :: u8 where "BCH_SB_MEMBER_INVALID \<equiv> 255"

definition set_ptr_dev :: "bkey_s \<Rightarrow> nat \<Rightarrow> u8 \<Rightarrow> bkey_s" where
  "set_ptr_dev s i dev =
     (case bs_ptrs s ! i of
        E_ptr p \<Rightarrow> s\<lparr>bs_ptrs := (bs_ptrs s)[i := E_ptr (p\<lparr>p_dev := dev\<rparr>)]\<rparr>
      | _ \<Rightarrow> s)"

definition bch2_bkey_drop_ptr_noerror :: "bkey_s \<Rightarrow> nat \<Rightarrow> bkey_s" where
  "bch2_bkey_drop_ptr_noerror s i =
     (if k_type (bs_k s) = KEY_TYPE_stripe then set_ptr_dev s i BCH_SB_MEMBER_INVALID
      else let drop_crc = drop_crc_scan (drop (Suc i) (bs_ptrs s))
           in drop_prev_loop i drop_crc (extent_entry_drop s i))"

definition empty_val :: "u8 \<Rightarrow> bkey_s \<Rightarrow> bkey_s" where
  "empty_val t s = s\<lparr>bs_k := (bs_k s)\<lparr>k_type := t, k_u64s := word_of_nat BKEY_U64s\<rparr>, bs_hdr := [], bs_ptrs := [], bs_tail := []\<rparr>"

definition bch2_bkey_drop_ptr :: "extent_ptr_decoded \<Rightarrow> bkey_s \<Rightarrow> nat \<Rightarrow> bkey_s" where
  "bch2_bkey_drop_ptr p0 s i =
     (case bs_ptrs s ! i of
        E_ptr ptr \<Rightarrow>
          if k_type (bs_k s) \<noteq> KEY_TYPE_stripe \<and>
             list_ex (\<lambda>(p, _). p_dev (d_ptr p) = p_dev ptr \<and> d_has_ec p) (bkey_for_each_ptr_decode (bs_k s) p0 (bs_ptrs s))
          then set_ptr_dev s i BCH_SB_MEMBER_INVALID
          else let have_dirty = bch2_bkey_dirty_devs (bs_ptrs s) \<noteq> [];
                   s = bch2_bkey_drop_ptr_noerror s i
               in if have_dirty \<and> bch2_bkey_dirty_devs (bs_ptrs s) = [] then empty_val KEY_TYPE_error s
                  else if bch2_bkey_nr_ptrs (bs_ptrs s) = 0 then empty_val KEY_TYPE_deleted s
                  else s
      | _ \<Rightarrow> s)"

text \<open>
  \<open>bch2_bkey_drop_ptrs\<close> and \<open>bch2_bkey_drop_ptrs_noerror\<close>: drop the first pointer that meets
  the condition and start again. The loops need not end.
\<close>

partial_function (option) bch2_bkey_drop_ptrs_noerror :: "(bch_extent_ptr \<Rightarrow> bool) \<Rightarrow> bkey_s \<Rightarrow> bkey_s option" where
  "bch2_bkey_drop_ptrs_noerror cond s =
     (case find (\<lambda>(i, ptr). cond ptr) (bkey_for_each_ptr 0 (bs_ptrs s)) of
        None \<Rightarrow> Some s
      | Some (i, ptr) \<Rightarrow> bch2_bkey_drop_ptrs_noerror cond (bch2_bkey_drop_ptr_noerror s i))"

partial_function (option) bch2_bkey_drop_ptrs :: "extent_ptr_decoded \<Rightarrow> (bch_extent_ptr \<Rightarrow> bool) \<Rightarrow> bkey_s \<Rightarrow> bkey_s option" where
  "bch2_bkey_drop_ptrs p0 cond s =
     (case find (\<lambda>(i, ptr). cond ptr) (bkey_for_each_ptr 0 (bs_ptrs s)) of
        None \<Rightarrow> Some s
      | Some (i, ptr) \<Rightarrow> bch2_bkey_drop_ptrs p0 cond (bch2_bkey_drop_ptr p0 s i))"

definition bch2_bkey_drop_device_noerror :: "bkey_s \<Rightarrow> u8 \<Rightarrow> bkey_s option" where
  "bch2_bkey_drop_device_noerror s dev = bch2_bkey_drop_ptrs_noerror (\<lambda>ptr. p_dev ptr = dev) s"

definition bch2_bkey_drop_device :: "extent_ptr_decoded \<Rightarrow> bkey_s \<Rightarrow> u8 \<Rightarrow> bkey_s option" where
  "bch2_bkey_drop_device p0 s dev = bch2_bkey_drop_ptrs p0 (\<lambda>ptr. p_dev ptr = dev) s"

section \<open>What a value means\<close>

type_synonym ptr_view = "crc_unpacked \<times> bch_extent_ptr \<times> bch_extent_stripe_ptr option"
type_synonym scan_state = "crc_unpacked \<times> bch_extent_stripe_ptr option"

definition ptr_view :: "extent_ptr_decoded \<Rightarrow> ptr_view" where
  "ptr_view p = (d_crc p, d_ptr p, if d_has_ec p then Some (d_ec p) else None)"

fun view_step :: "bkey \<Rightarrow> scan_state \<Rightarrow> extent_entry \<Rightarrow> scan_state" where
  "view_step k (c, ec) (E_ptr p) = (c, None)"
| "view_step k (c, ec) (E_stripe_ptr s) = (c, Some s)"
| "view_step k (c, ec) e = (if extent_entry_is_crc e then bch2_extent_crc_unpack k e else c, ec)"

fun views_from :: "bkey \<Rightarrow> scan_state \<Rightarrow> extent_entry list \<Rightarrow> ptr_view list" where
  "views_from k st [] = []"
| "views_from k st (e # es) =
     (case e of E_ptr p \<Rightarrow> [(fst st, p, snd st)] | _ \<Rightarrow> []) @ views_from k (view_step k st e) es"

definition ptr_views :: "bkey \<Rightarrow> extent_entry list \<Rightarrow> ptr_view list" where
  "ptr_views k es = views_from k (crc_unpack_none k, None) es"


declare bch2_extent_crc_unpack.simps [simp del]

lemma ptr_scan_views:
  "views_from k (d_crc p, if d_has_ec p then Some (d_ec p) else None) es =
     (case ptr_scan k p es of (p', []) \<Rightarrow> [] | (p', e # rest) \<Rightarrow> ptr_view p' # views_from k (d_crc p', None) rest)"
proof (induction es arbitrary: p)
  case (Cons e es)
  show ?case by (cases e; cases "d_has_ec p") (use Cons [of "p\<lparr>d_crc := bch2_extent_crc_unpack k e\<rparr>"] Cons [of p]
      Cons [of "p\<lparr>d_ec := s, d_has_ec := True\<rparr>" for s] in \<open>simp_all add: ptr_view_def\<close>)
qed simp

lemma for_each_ptr_decode_from_views:
  "map (ptr_view \<circ> fst) (for_each_ptr_decode_from k p es) = views_from k (d_crc p, None) es"
proof (induction k p es rule: for_each_ptr_decode_from.induct)
  case (1 k p es)
  show ?case
    using 1 ptr_scan_views [of k "p\<lparr>d_has_ec := False, d_do_ec_reconstruct := False, d_crc_retry_nr := 0\<rparr>" es]
    by (simp add: for_each_ptr_decode_from.simps [of k p es] bkey_ptr_next_decode_def split: prod.splits list.splits)
qed

lemma for_each_ptr_decode_views: "map (ptr_view \<circ> fst) (bkey_for_each_ptr_decode k p es) = ptr_views k es"
  by (simp add: bkey_for_each_ptr_decode_def for_each_ptr_decode_from_views ptr_views_def)

lemma views_from_append: "views_from k st (xs @ ys) = views_from k st xs @ views_from k (foldl (view_step k) st xs) ys"
  by (induction xs arbitrary: st) simp_all

lemma crc_unpack_cong: "k_size k = k_size k' \<Longrightarrow> bch2_extent_crc_unpack k e = bch2_extent_crc_unpack k' e"
  by (cases e) (simp_all add: crc_unpack_none_def bch2_extent_crc_unpack.simps)

lemma view_step_cong: "k_size k = k_size k' \<Longrightarrow> view_step k st e = view_step k' st e"
  using crc_unpack_cong [of k k' e] by (cases st; cases e) simp_all

lemma views_from_cong: "k_size k = k_size k' \<Longrightarrow> views_from k st es = views_from k' st es"
  by (induction es arbitrary: st) (simp_all add: view_step_cong [of k k'])

lemma ptr_views_cong: "k_size k = k_size k' \<Longrightarrow> ptr_views k es = ptr_views k' es"
  using views_from_cong [of k k'] by (simp add: ptr_views_def crc_unpack_none_def)

lemma crc_unpacked_cmp_iff [simp]: "bch2_crc_unpacked_cmp l r \<longleftrightarrow> l \<noteq> r"
proof -
  have "bch2_crc_cmp (u_csum l) (u_csum r) \<longleftrightarrow> u_csum l \<noteq> u_csum r"
    by (auto simp: bch2_crc_cmp_def or_eq_0_iff word_xor_eq_0_iff)
  then show ?thesis by (auto simp: bch2_crc_unpacked_cmp_def)
qed


lemma nr_ptrs_views: "length (views_from k st es) = length (bkey_for_each_ptr j es)"
  by (induction es arbitrary: st j) (simp_all split: extent_entry.split)

lemma views_ptrs: "map (\<lambda>(c, p, ec). p) (views_from k st es) = map snd (bkey_for_each_ptr j es)"
  by (induction es arbitrary: st j) (simp_all split: extent_entry.split)

lemma in_for_each_ptr:
  "(i, p) \<in> set (bkey_for_each_ptr j es) \<longleftrightarrow> j \<le> i \<and> i - j < length es \<and> es ! (i - j) = E_ptr p"
proof (induction es arbitrary: j)
  case (Cons e es)
  have "(e # es) ! (i - j) = (if i = j then e else es ! (i - Suc j))" if "j \<le> i"
    using that by (auto simp: nth_Cons' Suc_diff_Suc)
  with Cons [of "Suc j"] show ?case
    by (cases e; cases "i = j") (auto simp: Suc_le_eq)
qed simp

section \<open>Dropping one pointer\<close>

lemma drop_crc_irrelevant: "drop_crc_scan es \<Longrightarrow> views_from k (c, ec) es = views_from k (c', ec) es"
  by (induction es arbitrary: ec) (auto split: extent_entry.split if_splits elim!: view_step.elims)

lemma drop_prev_loop_sel [simp]:
  "k_type (bs_k (drop_prev_loop i dc s)) = k_type (bs_k s)" "k_size (bs_k (drop_prev_loop i dc s)) = k_size (bs_k s)"
  "k_p (bs_k (drop_prev_loop i dc s)) = k_p (bs_k s)"
  by (induction i dc s rule: drop_prev_loop.induct) (simp_all add: Let_def)

lemma drop_prev_views:
  assumes "i \<le> length (bs_ptrs s)"
  shows "\<exists>pre. bs_ptrs (drop_prev_loop i dc s) = pre @ drop i (bs_ptrs s) \<and> length pre \<le> i \<and>
    views_from k (c, None) pre = views_from k (c, None) (take i (bs_ptrs s)) \<and>
    snd (foldl (view_step k) (c, None) pre) = None \<and>
    (\<not> dc \<longrightarrow> fst (foldl (view_step k) (c, None) pre) = fst (foldl (view_step k) (c, None) (take i (bs_ptrs s))))"
  using assms
proof (induction i dc s rule: drop_prev_loop.induct)
  case (2 i dc s)
  define e where "e = bs_ptrs s ! i"
  have tk: "take (Suc i) (bs_ptrs s) = take i (bs_ptrs s) @ [e]" "drop i (bs_ptrs s) = e # drop (Suc i) (bs_ptrs s)"
    using 2(3) by (simp_all add: e_def take_Suc_conv_app_nth Cons_nth_drop_Suc)
  consider (ptr) p where "e = E_ptr p" | (drp) "\<not> extent_entry_is_ptr e" "extent_entry_is_crc e \<and> dc \<or> extent_entry_is_stripe_ptr e"
    | (keep) "\<not> extent_entry_is_ptr e" "\<not> (extent_entry_is_crc e \<and> dc \<or> extent_entry_is_stripe_ptr e)"
    by (metis extent_entry_is_ptrE)
  then show ?case
  proof cases
    case ptr
    obtain a b where "foldl (view_step k) (c, None) (take i (bs_ptrs s)) = (a, b)" by fastforce
    moreover have "take i (bs_ptrs s) @ E_ptr p # drop (Suc i) (bs_ptrs s) = bs_ptrs s"
      using ptr 2(3) e_def by (metis Suc_le_lessD id_take_nth_drop)
    ultimately show ?thesis using ptr tk(1) 2(3) by (intro exI [of _ "take (Suc i) (bs_ptrs s)"]) (simp add: e_def [symmetric] Let_def)
  next
    case drp
    obtain a b where ab: "foldl (view_step k) (c, None) (take i (bs_ptrs s)) = (a, b)" by fastforce
    have e: "\<not> dc \<Longrightarrow> fst (view_step k (a, b) e) = a" "views_from k (a, b) [e] = []" using drp by (cases e; simp)+
    have "i \<le> length (bs_ptrs (extent_entry_drop s i))" using 2(3) by simp
    from 2(1) [OF e_def _ _ this] drp
    obtain pre where pre: "bs_ptrs (drop_prev_loop i dc (extent_entry_drop s i)) = pre @ drop (Suc i) (bs_ptrs s)" "length pre \<le> i"
      "views_from k (c, None) pre = views_from k (c, None) (take i (bs_ptrs s))"
      "snd (foldl (view_step k) (c, None) pre) = None"
      "\<not> dc \<longrightarrow> fst (foldl (view_step k) (c, None) pre) = a"
      using 2(3) ab by (auto simp: min_def)
    show ?thesis using drp e pre ab
      by (intro exI [of _ pre]) (simp add: e_def [symmetric] Let_def tk(1) views_from_append del: extent_entry_drop_sel)
  next
    case keep
    obtain pre where pre: "bs_ptrs (drop_prev_loop i dc s) = pre @ drop i (bs_ptrs s)" "length pre \<le> i"
      "views_from k (c, None) pre = views_from k (c, None) (take i (bs_ptrs s))"
      "snd (foldl (view_step k) (c, None) pre) = None"
      "\<not> dc \<Longrightarrow> fst (foldl (view_step k) (c, None) pre) = fst (foldl (view_step k) (c, None) (take i (bs_ptrs s)))"
      using 2(2) [OF e_def] keep 2(3) by auto
    obtain a a' b where ab: "foldl (view_step k) (c, None) (take i (bs_ptrs s)) = (a, b)"
      "foldl (view_step k) (c, None) pre = (a', None)" using pre(4) by (metis prod.collapse)
    have e: "views_from k (a, b) [e] = []" "views_from k (a', None) [e] = []" "snd (view_step k (a', None) e) = None"
      "\<not> dc \<Longrightarrow> fst (view_step k (a', None) e) = fst (view_step k (a, b) e)"
      using keep pre(5) ab by (cases e; simp)+
    show ?thesis using keep e pre(1,2,3) ab
      by (intro exI [of _ "pre @ [e]"]) (auto simp: e_def [symmetric] Let_def tk views_from_append)
  qed
qed simp


lemma drop_prev_ok:
  "bkey_s_ok s \<Longrightarrow> ptr_list_type (k_type (bs_k s)) \<Longrightarrow> i \<le> length (bs_ptrs s) \<Longrightarrow> bkey_s_ok (drop_prev_loop i dc s)"
proof (induction i dc s rule: drop_prev_loop.induct)
  case (2 i dc s)
  have "bkey_s_ok (extent_entry_drop s i)" "i \<le> length (bs_ptrs (extent_entry_drop s i))"
    using 2(3-5) by (simp_all add: drop_ok)
  with 2 show ?case by (simp add: Let_def del: extent_entry_drop_sel(1,7))
qed simp

lemma drop_ptr_views:
  assumes "k_type (bs_k s) \<noteq> KEY_TYPE_stripe" "i < length (bs_ptrs s)" "bs_ptrs s ! i = E_ptr p"
  shows "\<exists>xs c ec ys. ptr_views k (bs_ptrs s) = xs @ (c, p, ec) # ys \<and> length xs = bch2_bkey_nr_ptrs (take i (bs_ptrs s)) \<and>
    ptr_views k (bs_ptrs (bch2_bkey_drop_ptr_noerror s i)) = xs @ ys \<and>
    length (bs_ptrs (bch2_bkey_drop_ptr_noerror s i)) < length (bs_ptrs s)"
proof -
  define es where "es = bs_ptrs s"
  define dc where "dc = drop_crc_scan (drop (Suc i) es)"
  define n where "n = crc_unpack_none k"
  obtain a b where ab: "foldl (view_step k) (n, None) (take i es) = (a, b)" by fastforce
  have es: "es = take i es @ E_ptr p # drop (Suc i) es" using assms(2,3) by (metis es_def id_take_nth_drop)
  have v: "ptr_views k es = views_from k (n, None) (take i es) @ (a, p, b) # views_from k (a, None) (drop (Suc i) es)"
    using arg_cong [OF es, of "ptr_views k"] by (simp add: ptr_views_def n_def [symmetric] views_from_append ab)
  have "i \<le> length (bs_ptrs (extent_entry_drop s i))" using assms(2) by simp
  from drop_prev_views [OF this, of dc k n]
  obtain pre where pre: "bs_ptrs (drop_prev_loop i dc (extent_entry_drop s i)) = pre @ drop (Suc i) es" "length pre \<le> i"
    "views_from k (n, None) pre = views_from k (n, None) (take i es)"
    "snd (foldl (view_step k) (n, None) pre) = None"
    "\<not> dc \<longrightarrow> fst (foldl (view_step k) (n, None) pre) = a"
    using assms(2) ab by (auto simp: es_def min_def)
  obtain a' where a': "foldl (view_step k) (n, None) pre = (a', None)" using pre(4) by (metis prod.collapse)
  have "views_from k (a', None) (drop (Suc i) es) = views_from k (a, None) (drop (Suc i) es)"
    using drop_crc_irrelevant [of "drop (Suc i) es" k a' None a] pre(5) a' by (cases dc) (simp_all add: dc_def)
  then have "ptr_views k (pre @ drop (Suc i) es) = views_from k (n, None) (take i es) @ views_from k (a, None) (drop (Suc i) es)"
    by (simp add: ptr_views_def n_def [symmetric] views_from_append a' pre(3))
  moreover have "bs_ptrs (bch2_bkey_drop_ptr_noerror s i) = pre @ drop (Suc i) es"
    using assms(1) pre(1) by (simp add: bch2_bkey_drop_ptr_noerror_def Let_def dc_def es_def)
  moreover have "length (views_from k (n, None) (take i es)) = bch2_bkey_nr_ptrs (take i es)"
    by (simp add: bch2_bkey_nr_ptrs_def bch2_bkey_devs_def nr_ptrs_views [where j = 0])
  ultimately show ?thesis using v pre(2) assms(2)
    by (intro exI [of _ "views_from k (n, None) (take i es)"] exI [of _ a] exI [of _ b]
        exI [of _ "views_from k (a, None) (drop (Suc i) es)"]) (simp add: es_def)
qed

lemma drop_ptr_noerror_sel [simp]:
  "k_type (bs_k (bch2_bkey_drop_ptr_noerror s i)) = k_type (bs_k s)"
  "k_size (bs_k (bch2_bkey_drop_ptr_noerror s i)) = k_size (bs_k s)"
  "k_p (bs_k (bch2_bkey_drop_ptr_noerror s i)) = k_p (bs_k s)"
  by (simp_all add: bch2_bkey_drop_ptr_noerror_def Let_def set_ptr_dev_def split: extent_entry.split)

lemma drop_ptr_noerror_ok:
  assumes "bkey_s_ok s" "ptr_list_type (k_type (bs_k s))" "i < length (bs_ptrs s)"
  shows "bkey_s_ok (bch2_bkey_drop_ptr_noerror s i)"
proof -
  have "k_type (bs_k s) \<noteq> KEY_TYPE_stripe" using assms(2) by (auto simp: ptr_list_type_def)
  then show ?thesis using assms drop_prev_ok [of "extent_entry_drop s i" i] by (simp add: bch2_bkey_drop_ptr_noerror_def Let_def drop_ok)
qed

section \<open>Dropping a device\<close>

lemma find_SomeD: "find P xs = Some x \<Longrightarrow> x \<in> set xs \<and> P x"
  by (auto simp: find_Some_iff)

lemma drop_device_noerror_views:
  assumes "ptr_list_type (k_type (bs_k s))" "bkey_s_ok s"
  shows "\<exists>s'. bch2_bkey_drop_ptrs_noerror cond s = Some s' \<and> bkey_s_ok s' \<and>
    k_type (bs_k s') = k_type (bs_k s) \<and> k_size (bs_k s') = k_size (bs_k s) \<and> k_p (bs_k s') = k_p (bs_k s) \<and>
    ptr_views k (bs_ptrs s') = filter (\<lambda>(c, p, ec). \<not> cond p) (ptr_views k (bs_ptrs s))"
  using assms
proof (induction "length (bs_ptrs s)" arbitrary: s rule: less_induct)
  case less
  have t: "k_type (bs_k s) \<noteq> KEY_TYPE_stripe" using less.prems(1) by (auto simp: ptr_list_type_def)
  show ?case
  proof (cases "find (\<lambda>(i, ptr). cond ptr) (bkey_for_each_ptr 0 (bs_ptrs s))")
    case None
    then have "\<forall>p \<in> set (map snd (bkey_for_each_ptr 0 (bs_ptrs s))). \<not> cond p" by (auto simp: find_None_iff)
    then have "\<forall>p \<in> set (map (\<lambda>(c, p, ec). p) (ptr_views k (bs_ptrs s))). \<not> cond p"
      unfolding ptr_views_def views_ptrs [where j = 0] .
    then have "filter (\<lambda>(c, p, ec). \<not> cond p) (ptr_views k (bs_ptrs s)) = ptr_views k (bs_ptrs s)"
      by (auto intro!: filter_True)
    then show ?thesis using None less.prems by (simp add: bch2_bkey_drop_ptrs_noerror.simps [of cond s])
  next
    case (Some x)
    obtain i p where x: "x = (i, p)" by fastforce
    have "(i, p) \<in> set (bkey_for_each_ptr 0 (bs_ptrs s))" "cond p"
      using find_SomeD [OF Some] x by simp_all
    then have i: "i < length (bs_ptrs s)" "bs_ptrs s ! i = E_ptr p" "cond p" by (simp_all add: in_for_each_ptr)
    obtain xs c ec ys where v: "ptr_views k (bs_ptrs s) = xs @ (c, p, ec) # ys"
      "ptr_views k (bs_ptrs (bch2_bkey_drop_ptr_noerror s i)) = xs @ ys"
      "length (bs_ptrs (bch2_bkey_drop_ptr_noerror s i)) < length (bs_ptrs s)"
      using drop_ptr_views [OF t i(1,2), of k] by blast
    have "bkey_s_ok (bch2_bkey_drop_ptr_noerror s i)" using drop_ptr_noerror_ok less.prems i(1) by blast
    from less.hyps [OF v(3) _ this] less.prems(1) v(1,2) i(3) Some x show ?thesis
      by (simp add: bch2_bkey_drop_ptrs_noerror.simps [of cond s])
  qed
qed

end
