(* ===== verification/Extent_Update.thy ===== *)
theory Extent_Update
  imports Extent_Ptrs
begin

text \<open>
  Adding and dropping pointers keeps values well formed and changes what they mean only at the
  pointer concerned. A value is well formed when every stripe pointer stands directly before
  the pointer it belongs to (\<open>stripes_ok\<close>), which is how
  \<open>bch2_extent_ptr_decoded_append\<close> stores it.
\<close>

fun stripes_ok :: "extent_entry list \<Rightarrow> bool" where
  "stripes_ok [] = True"
| "stripes_ok (e # es) =
     ((extent_entry_is_stripe_ptr e \<longrightarrow> (case es of [] \<Rightarrow> False | e' # _ \<Rightarrow> extent_entry_is_ptr e')) \<and> stripes_ok es)"

lemma stripes_ok_append:
  "xs = [] \<or> \<not> extent_entry_is_stripe_ptr (last xs) \<Longrightarrow> stripes_ok (xs @ ys) \<longleftrightarrow> stripes_ok xs \<and> stripes_ok ys"
proof (induction xs)
  case (Cons x xs)
  then show ?case by (cases xs) auto
qed simp

lemma stripes_ok_appendD: "stripes_ok (xs @ ys) \<Longrightarrow> stripes_ok ys"
  by (induction xs) auto

lemma stripes_ok_last:
  "stripes_ok (xs @ ys) \<Longrightarrow> (case ys of [] \<Rightarrow> True | y # _ \<Rightarrow> \<not> extent_entry_is_ptr y) \<Longrightarrow>
   xs = [] \<or> \<not> extent_entry_is_stripe_ptr (last xs)"
proof (induction xs)
  case (Cons x xs)
  then show ?case by (cases xs; cases ys) auto
qed simp

lemma stripes_ok_state:
  "stripes_ok xs \<Longrightarrow> xs = [] \<or> \<not> extent_entry_is_stripe_ptr (last xs) \<Longrightarrow> snd (foldl (view_step k) (c, None) xs) = None"
proof (induction xs rule: rev_induct)
  case (snoc x xs)
  show ?case
  proof (cases "extent_entry_is_ptr x")
    case True
    then show ?thesis by (cases "foldl (view_step k) (c, None) xs") (auto elim: extent_entry_is_ptrE)
  next
    case False
    then have l: "xs = [] \<or> \<not> extent_entry_is_stripe_ptr (last xs)" using stripes_ok_last [of xs "[x]"] snoc.prems(1) by simp
    then have "snd (foldl (view_step k) (c, None) xs) = None" using snoc by (simp add: stripes_ok_append)
    with False snoc.prems(2) show ?thesis
      by (cases "foldl (view_step k) (c, None) xs"; cases x) auto
  qed
qed simp

section \<open>Adding a pointer\<close>

lemma in_for_each_crc:
  "(i, c) \<in> set (bkey_for_each_crc k j es) \<longleftrightarrow>
   j \<le> i \<and> i - j < length es \<and> extent_entry_is_crc (es ! (i - j)) \<and> c = bch2_extent_crc_unpack k (es ! (i - j))"
proof (induction es arbitrary: j)
  case (Cons e es)
  have "(e # es) ! (i - j) = (if i = j then e else es ! (i - Suc j))" if "j \<le> i"
    using that by (auto simp: nth_Cons' Suc_diff_Suc)
  with Cons [of "Suc j"] show ?case by (cases "i = j") (auto simp: Suc_le_eq)
qed simp

definition ptr_entries :: "extent_ptr_decoded \<Rightarrow> extent_entry list" where
  "ptr_entries p = (if d_has_ec p then [E_stripe_ptr (d_ec p)] else []) @ [E_ptr (d_ptr p)]"

lemma views_insert:
  assumes "stripes_ok (pre @ post)" "pre = [] \<or> \<not> extent_entry_is_stripe_ptr (last pre)"
    and "fst (foldl (view_step k) (crc_unpack_none k, None) pre) = d_crc p"
  shows "\<exists>xs ys. ptr_views k (pre @ post) = xs @ ys \<and> ptr_views k (pre @ ptr_entries p @ post) = xs @ ptr_view p # ys \<and>
    stripes_ok (pre @ ptr_entries p @ post)"
proof -
  have ok: "stripes_ok pre" "stripes_ok post" using assms(1) stripes_ok_append [OF assms(2)] by simp_all
  have "snd (foldl (view_step k) (crc_unpack_none k, None) pre) = None"
    by (rule stripes_ok_state [OF ok(1) assms(2)])
  then have "foldl (view_step k) (crc_unpack_none k, None) pre = (d_crc p, None)" using assms(3) by (simp add: prod_eq_iff)
  with ok show ?thesis
    by (intro exI [of _ "views_from k (crc_unpack_none k, None) pre"] exI [of _ "views_from k (d_crc p, None) post"])
      (simp add: ptr_views_def views_from_append ptr_entries_def ptr_view_def stripes_ok_append [OF assms(2)])
qed

definition insert_decoded :: "extent_ptr_decoded \<Rightarrow> bkey_s \<Rightarrow> nat \<Rightarrow> bkey_s" where
  "insert_decoded p s pos =
     (let s = extent_entry_insert s pos (E_ptr (d_ptr p))
      in if d_has_ec p then extent_entry_insert s pos (E_stripe_ptr (d_ec p)) else s)"

lemma insert_decoded_sel [simp]:
  "pos \<le> length (bs_ptrs s) \<Longrightarrow> bs_ptrs (insert_decoded p s pos) = take pos (bs_ptrs s) @ ptr_entries p @ drop pos (bs_ptrs s)"
  "k_type (bs_k (insert_decoded p s pos)) = k_type (bs_k s)" "k_size (bs_k (insert_decoded p s pos)) = k_size (bs_k s)"
  "k_p (bs_k (insert_decoded p s pos)) = k_p (bs_k s)"
  by (simp_all add: insert_decoded_def ptr_entries_def min_def Let_def)

lemma insert_decoded_ok:
  assumes "bkey_s_ok s" "ptr_list_type (k_type (bs_k s))" "val_u64s s + 2 < 251"
  shows "bkey_s_ok (insert_decoded p s pos)"
proof -
  have u: "extent_entry_u64s (E_ptr q) = 1" "extent_entry_u64s (E_stripe_ptr r) = 1" for q r
    by (simp_all add: extent_entry_u64s_def)
  have "bkey_s_ok (extent_entry_insert s pos (E_ptr (d_ptr p)))" using assms by (intro insert_ok) (simp_all add: u)
  then show ?thesis using assms by (auto simp: insert_decoded_def Let_def insert_val_u64s u intro!: insert_ok)
qed

lemma crc_append_some:
  assumes "crc_wf u" "crc_append_type u \<noteq> None"
  obtains e where "bch2_extent_crc_append s u = Some (extent_entry_insert s (length (bs_ptrs s)) e)"
    "extent_entry_is_crc e" "\<And>k. bch2_extent_crc_unpack k e = u\<lparr>u_live_size := k_size k\<rparr>"
proof -
  obtain t where t: "crc_append_type u = Some t" using assms(2) by blast
  obtain e where e: "bch2_extent_crc_pack u t = Some e" using crc_pack_unpack [OF assms(1) t] by blast
  show thesis
  proof (rule that [of e])
    show "bch2_extent_crc_append s u = Some (extent_entry_insert s (length (bs_ptrs s)) e)"
      by (simp add: bch2_extent_crc_append_def t e)
  qed (use crc_pack_unpack [OF assms(1) t] e in auto)
qed

text \<open>Where the pointer goes: after an entry for its checksum, which is added when there is none.\<close>

lemma decoded_append_cases:
  assumes "crc_wf (d_crc p)" "crc_append_type (d_crc p) \<noteq> None" "u_live_size (d_crc p) = k_size (bs_k s)"
  obtains (start) "bch2_extent_ptr_decoded_append s p = Some (insert_decoded p s 0)" "d_crc p = crc_unpack_none (bs_k s)"
  | (found) i where "bch2_extent_ptr_decoded_append s p = Some (insert_decoded p s (Suc i))" "i < length (bs_ptrs s)"
      "extent_entry_is_crc (bs_ptrs s ! i)" "bch2_extent_crc_unpack (bs_k s) (bs_ptrs s ! i) = d_crc p"
  | (new) e where "bch2_extent_ptr_decoded_append s p = Some (insert_decoded p (extent_entry_insert s (length (bs_ptrs s)) e) (Suc (length (bs_ptrs s))))"
      "extent_entry_is_crc e" "bch2_extent_crc_unpack (bs_k s) e = d_crc p"
proof (cases "d_crc p = crc_unpack_none (bs_k s)")
  case True
  then show thesis by (intro start) (simp_all add: bch2_extent_ptr_decoded_append_def insert_decoded_def Let_def)
next
  case ne: False
  show thesis
  proof (cases "find (\<lambda>(i, crc). \<not> bch2_crc_unpacked_cmp crc (d_crc p)) (bkey_for_each_crc (bs_k s) 0 (bs_ptrs s))")
    case None
    obtain e where e: "bch2_extent_crc_append s (d_crc p) = Some (extent_entry_insert s (length (bs_ptrs s)) e)"
      "extent_entry_is_crc e" "\<And>k. bch2_extent_crc_unpack k e = (d_crc p)\<lparr>u_live_size := k_size k\<rparr>"
      using crc_append_some [OF assms(1,2)] by blast
    show thesis using None ne e(1) assms(3)
      by (intro new [OF _ e(2)]) (simp_all add: bch2_extent_ptr_decoded_append_def insert_decoded_def Let_def e(3) del: crc_unpacked_cmp_iff,
          simp_all)
  next
    case (Some x)
    obtain i c where x: "x = (i, c)" by fastforce
    show thesis using find_SomeD [OF Some] Some ne
      by (intro found [of i]) (auto simp: x in_for_each_crc bch2_extent_ptr_decoded_append_def insert_decoded_def Let_def)
  qed
qed


lemma crc_state: "extent_entry_is_crc e \<Longrightarrow> fst (foldl (view_step k) st (xs @ [e])) = bch2_extent_crc_unpack k e"
  by (cases "foldl (view_step k) st xs"; cases e) auto

lemma crc_not_stripe: "extent_entry_is_crc e \<Longrightarrow> \<not> extent_entry_is_stripe_ptr e \<and> \<not> extent_entry_is_ptr e"
  by (cases e) auto

lemma append_views:
  assumes "stripes_ok (bs_ptrs s)"
    and "crc_wf (d_crc p)" "crc_append_type (d_crc p) \<noteq> None" "u_live_size (d_crc p) = k_size (bs_k s)"
  shows "\<exists>s'. bch2_extent_ptr_decoded_append s p = Some s' \<and> (\<exists>xs ys.
    ptr_views (bs_k s) (bs_ptrs s) = xs @ ys \<and> ptr_views (bs_k s) (bs_ptrs s') = xs @ ptr_view p # ys \<and>
    stripes_ok (bs_ptrs s'))"
proof -
  let ?k = "bs_k s" and ?es = "bs_ptrs s"
  have last: "?es = [] \<or> \<not> extent_entry_is_stripe_ptr (last ?es)" using stripes_ok_last [of ?es "[]"] assms(1) by simp
  show ?thesis
  proof (cases rule: decoded_append_cases [OF assms(2-4), case_names start found new])
    case start
    then show ?thesis using views_insert [of "[]" ?es ?k p] assms(1) by simp
  next
    case (found i)
    have tk: "take (Suc i) ?es = take i ?es @ [?es ! i]" using found(2) by (simp add: take_Suc_conv_app_nth)
    have "fst (foldl (view_step ?k) (crc_unpack_none ?k, None) (take (Suc i) ?es)) = d_crc p"
      unfolding tk using crc_state [OF found(3)] found(4) by simp
    moreover have "\<not> extent_entry_is_stripe_ptr (last (take (Suc i) ?es))" using tk crc_not_stripe [OF found(3)] by simp
    ultimately show ?thesis using views_insert [of "take (Suc i) ?es" "drop (Suc i) ?es" ?k p] assms(1) found(1,2) by simp
  next
    case (new e)
    have "stripes_ok (?es @ [e])" using assms(1) last crc_not_stripe [OF new(2)] by (simp add: stripes_ok_append)
    moreover have "fst (foldl (view_step ?k) (crc_unpack_none ?k, None) (?es @ [e])) = d_crc p"
      using crc_state [OF new(2)] new(3) by metis
    moreover have "ptr_views ?k (?es @ [e]) = ptr_views ?k ?es"
      using crc_not_stripe [OF new(2)] by (cases e) (simp_all add: ptr_views_def views_from_append)
    ultimately show ?thesis using views_insert [of "?es @ [e]" "[]" ?k p] new(1) crc_not_stripe [OF new(2)]
      by simp
  qed
qed

lemma append_ok:
  assumes "bkey_s_ok s" "ptr_list_type (k_type (bs_k s))" "val_u64s s + 5 < 251"
    and "crc_wf (d_crc p)" "crc_append_type (d_crc p) \<noteq> None" "u_live_size (d_crc p) = k_size (bs_k s)"
    and "bch2_extent_ptr_decoded_append s p = Some s'"
  shows "bkey_s_ok s' \<and> k_type (bs_k s') = k_type (bs_k s) \<and> k_size (bs_k s') = k_size (bs_k s) \<and> k_p (bs_k s') = k_p (bs_k s)"
proof (cases rule: decoded_append_cases [OF assms(4-6), case_names start found new])
  case (new e)
  have "bkey_s_ok (extent_entry_insert s (length (bs_ptrs s)) e)"
    using assms(1-3) extent_entry_u64s_le [of e] by (intro insert_ok) simp_all
  then show ?thesis using new(1) assms extent_entry_u64s_le [of e] by (auto simp: insert_val_u64s intro!: insert_decoded_ok)
qed (use assms in \<open>auto intro!: insert_decoded_ok\<close>)

section \<open>Dropping a pointer keeps the value well formed\<close>

lemma drop_prev_stripes:
  "i \<le> length (bs_ptrs s) \<Longrightarrow> stripes_ok (take i (bs_ptrs s) @ [E_ptr p]) \<Longrightarrow> stripes_ok (drop i (bs_ptrs s)) \<Longrightarrow>
   stripes_ok (bs_ptrs (drop_prev_loop i dc s))"
proof (induction i dc s rule: drop_prev_loop.induct)
  case (2 i dc s)
  define e where "e = bs_ptrs s ! i"
  have tk: "take (Suc i) (bs_ptrs s) = take i (bs_ptrs s) @ [e]" "drop i (bs_ptrs s) = e # drop (Suc i) (bs_ptrs s)"
    using 2(3) by (simp_all add: e_def take_Suc_conv_app_nth Cons_nth_drop_Suc)
  have "stripes_ok (take i (bs_ptrs s) @ [e, E_ptr p])" using 2(4) by (simp add: tk)
  note l = stripes_ok_last [OF this] stripes_ok_append [of "take i (bs_ptrs s)"] this
  show ?case
  proof (cases "extent_entry_is_ptr e")
    case True
    then have "\<not> extent_entry_is_stripe_ptr e" by (auto elim: extent_entry_is_ptrE)
    moreover have "bs_ptrs s = take (Suc i) (bs_ptrs s) @ drop (Suc i) (bs_ptrs s)" by simp
    moreover have "stripes_ok (take (Suc i) (bs_ptrs s))"
      using 2(4) stripes_ok_append [of "take (Suc i) (bs_ptrs s)" "[E_ptr p]"] calculation(1) by (simp add: tk)
    ultimately have "stripes_ok (bs_ptrs s)" using 2(5) stripes_ok_append [of "take (Suc i) (bs_ptrs s)"] by (metis last_snoc tk(1))
    then show ?thesis using True by (simp add: e_def Let_def)
  next
    case False
    then have "stripes_ok (take i (bs_ptrs s) @ [E_ptr p])" using l by simp
    moreover have "i \<le> length (bs_ptrs s) - Suc 0" using 2(3) by simp
    ultimately show ?thesis using False 2(1) [OF e_def False] 2(2) [OF e_def False] 2(3,5) tk(2)
      by (auto simp: e_def [symmetric] Let_def min_def)
  qed
next
  case (1 dc s)
  then show ?case by simp
qed

lemma drop_ptr_stripes:
  assumes "stripes_ok (bs_ptrs s)" "k_type (bs_k s) \<noteq> KEY_TYPE_stripe" "i < length (bs_ptrs s)" "bs_ptrs s ! i = E_ptr p"
  shows "stripes_ok (bs_ptrs (bch2_bkey_drop_ptr_noerror s i))"
proof -
  have es: "bs_ptrs s = (take i (bs_ptrs s) @ [E_ptr p]) @ drop (Suc i) (bs_ptrs s)"
    using id_take_nth_drop [OF assms(3)] assms(4) by simp
  have "stripes_ok (take i (bs_ptrs s) @ [E_ptr p])" "stripes_ok (drop (Suc i) (bs_ptrs s))"
    using assms(1) stripes_ok_append [of "take i (bs_ptrs s) @ [E_ptr p]" "drop (Suc i) (bs_ptrs s)"] es by simp_all
  then show ?thesis
    using drop_prev_stripes [of i "extent_entry_drop s i" p] assms(2,3) by (simp add: bch2_bkey_drop_ptr_noerror_def Let_def min_def)
qed

section \<open>Dropping a pointer with its error cases\<close>

definition ec_on_dev :: "u8 \<Rightarrow> ptr_view list \<Rightarrow> bool" where
  "ec_on_dev dev vs \<longleftrightarrow> (\<exists>(c, p, ec) \<in> set vs. p_dev p = dev \<and> ec \<noteq> None)"

definition has_dirty :: "ptr_view list \<Rightarrow> bool" where
  "has_dirty vs \<longleftrightarrow> (\<exists>(c, p, ec) \<in> set vs. p_cached p = 0)"

lemma ec_on_dev_decode:
  "list_ex (\<lambda>(p, _). p_dev (d_ptr p) = dev \<and> d_has_ec p) (bkey_for_each_ptr_decode k p0 es) \<longleftrightarrow> ec_on_dev dev (ptr_views k es)"
  by (force simp: list_ex_iff ec_on_dev_def ptr_view_def for_each_ptr_decode_views [of k p0 es, symmetric])

lemma ptrs_in_views: "(\<exists>(c, p, ec) \<in> set (ptr_views k es). P p) \<longleftrightarrow> (\<exists>(i, p) \<in> set (bkey_for_each_ptr 0 es). P p)"
proof -
  have "(\<exists>(c, p, ec) \<in> set (ptr_views k es). P p) \<longleftrightarrow> (\<exists>p \<in> set (map (\<lambda>(c, p, ec). p) (ptr_views k es)). P p)" by force
  also have "\<dots> \<longleftrightarrow> (\<exists>p \<in> set (map snd (bkey_for_each_ptr 0 es)). P p)"
    unfolding ptr_views_def views_ptrs [where j = 0] ..
  finally show ?thesis by force
qed

lemma dirty_devs_views: "bch2_bkey_dirty_devs es = [] \<longleftrightarrow> \<not> has_dirty (ptr_views k es)"
  unfolding has_dirty_def ptrs_in_views by (auto simp: bch2_bkey_dirty_devs_def filter_empty_conv)

lemma nr_ptrs_0_views: "bch2_bkey_nr_ptrs es = 0 \<longleftrightarrow> ptr_views k es = []"
  using nr_ptrs_views [of k _ es 0] by (simp add: bch2_bkey_nr_ptrs_def bch2_bkey_devs_def ptr_views_def flip: length_0_conv)

lemma set_ptr_dev_sel [simp]:
  "bs_k (set_ptr_dev s i d) = bs_k s" "bs_hdr (set_ptr_dev s i d) = bs_hdr s" "bs_tail (set_ptr_dev s i d) = bs_tail s"
  by (simp_all add: set_ptr_dev_def split: extent_entry.split)

lemma set_ptr_dev_views:
  assumes "i < length (bs_ptrs s)" "bs_ptrs s ! i = E_ptr p"
  shows "\<exists>xs c ec ys. ptr_views k (bs_ptrs s) = xs @ (c, p, ec) # ys \<and> length xs = bch2_bkey_nr_ptrs (take i (bs_ptrs s)) \<and>
    ptr_views k (bs_ptrs (set_ptr_dev s i d)) = xs @ (c, p\<lparr>p_dev := d\<rparr>, ec) # ys"
proof -
  let ?n = "crc_unpack_none k" and ?es = "bs_ptrs s"
  have es: "?es = take i ?es @ E_ptr p # drop (Suc i) ?es" using id_take_nth_drop [OF assms(1)] assms(2) by simp
  have es': "bs_ptrs (set_ptr_dev s i d) = take i ?es @ E_ptr (p\<lparr>p_dev := d\<rparr>) # drop (Suc i) ?es"
    using assms by (simp add: set_ptr_dev_def upd_conv_take_nth_drop)
  obtain a b where ab: "foldl (view_step k) (?n, None) (take i ?es) = (a, b)" by fastforce
  have "length (views_from k (?n, None) (take i ?es)) = bch2_bkey_nr_ptrs (take i ?es)"
    by (simp add: bch2_bkey_nr_ptrs_def bch2_bkey_devs_def nr_ptrs_views [where j = 0])
  then show ?thesis
    using arg_cong [OF es, of "ptr_views k"] es' ab
    by (intro exI [of _ "views_from k (?n, None) (take i ?es)"] exI [of _ a] exI [of _ b]
        exI [of _ "views_from k (a, None) (drop (Suc i) ?es)"]) (simp add: ptr_views_def views_from_append)
qed

lemma drop_ptr_cases:
  assumes "k_type (bs_k s) \<noteq> KEY_TYPE_stripe" "i < length (bs_ptrs s)" "bs_ptrs s ! i = E_ptr p"
  shows "\<exists>xs c ec ys. ptr_views (bs_k s) (bs_ptrs s) = xs @ (c, p, ec) # ys \<and> length xs = bch2_bkey_nr_ptrs (take i (bs_ptrs s)) \<and>
    (let s' = bch2_bkey_drop_ptr p0 s i in
     if ec_on_dev (p_dev p) (ptr_views (bs_k s) (bs_ptrs s))
     then bs_k s' = bs_k s \<and> ptr_views (bs_k s) (bs_ptrs s') = xs @ (c, p\<lparr>p_dev := BCH_SB_MEMBER_INVALID\<rparr>, ec) # ys
     else if has_dirty (ptr_views (bs_k s) (bs_ptrs s)) \<and> \<not> has_dirty (xs @ ys) then s' = empty_val KEY_TYPE_error (bch2_bkey_drop_ptr_noerror s i)
     else if xs @ ys = [] then s' = empty_val KEY_TYPE_deleted (bch2_bkey_drop_ptr_noerror s i)
     else s' = bch2_bkey_drop_ptr_noerror s i \<and> ptr_views (bs_k s) (bs_ptrs s') = xs @ ys)"
proof (cases "ec_on_dev (p_dev p) (ptr_views (bs_k s) (bs_ptrs s))")
  case True
  then show ?thesis using set_ptr_dev_views [OF assms(2,3), of "bs_k s" BCH_SB_MEMBER_INVALID] assms
    by (simp add: bch2_bkey_drop_ptr_def Let_def ec_on_dev_decode)
next
  case False
  obtain xs c ec ys where v: "ptr_views (bs_k s) (bs_ptrs s) = xs @ (c, p, ec) # ys"
    "length xs = bch2_bkey_nr_ptrs (take i (bs_ptrs s))"
    "ptr_views (bs_k s) (bs_ptrs (bch2_bkey_drop_ptr_noerror s i)) = xs @ ys"
    using drop_ptr_views [OF assms, of "bs_k s"] by blast
  show ?thesis
    by (rule exI [of _ xs], rule exI [of _ c], rule exI [of _ ec], rule exI [of _ ys])
      (use False assms v in \<open>simp add: bch2_bkey_drop_ptr_def Let_def ec_on_dev_decode
        dirty_devs_views [of _ "bs_k s"] nr_ptrs_0_views [of _ "bs_k s"]\<close>)
qed

section \<open>Dropping a device\<close>

lemma find_dev_None:
  "find (\<lambda>(i, ptr). p_dev ptr = d) (bkey_for_each_ptr 0 es) = None \<longleftrightarrow> (\<forall>(c, p, ec) \<in> set (ptr_views k es). p_dev p \<noteq> d)"
  using ptrs_in_views [of k es "\<lambda>p. p_dev p = d"] by (auto simp: find_None_iff)

lemma devs_views: "bch2_bkey_devs es = map (\<lambda>(c, p, ec). p_dev p) (ptr_views k es)"
proof -
  have "map (\<lambda>(c, p, ec). p_dev p) (ptr_views k es) = map p_dev (map (\<lambda>(c, p, ec). p) (ptr_views k es))" by auto
  also have "\<dots> = map p_dev (map snd (bkey_for_each_ptr 0 es))" unfolding ptr_views_def views_ptrs [where j = 0] ..
  finally show ?thesis by (auto simp: bch2_bkey_devs_def)
qed

definition invalidate_dev :: "u8 \<Rightarrow> ptr_view \<Rightarrow> ptr_view" where
  "invalidate_dev d = (\<lambda>(c, p, ec). (c, if p_dev p = d then p\<lparr>p_dev := BCH_SB_MEMBER_INVALID\<rparr> else p, ec))"

definition views_off_dev :: "u8 \<Rightarrow> ptr_view list \<Rightarrow> ptr_view list" where
  "views_off_dev d vs = filter (\<lambda>(c, p, ec). p_dev p \<noteq> d) vs"

lemma views_split:
  assumes "distinct (map (\<lambda>(c, p, ec). p_dev p) (xs @ (c, p, ec) # ys))"
  shows "views_off_dev (p_dev p) (xs @ (c, p, ec) # ys) = xs @ ys"
    and "map (invalidate_dev (p_dev p)) (xs @ (c, p, ec) # ys) = xs @ (c, p\<lparr>p_dev := BCH_SB_MEMBER_INVALID\<rparr>, ec) # ys"
    and "\<forall>c q ec. (c, q, ec) \<in> set (xs @ ys) \<longrightarrow> p_dev q \<noteq> p_dev p"
proof -
  show d: "\<forall>c q ec. (c, q, ec) \<in> set (xs @ ys) \<longrightarrow> p_dev q \<noteq> p_dev p" using assms by force
  have "filter (\<lambda>(c, q, ec). p_dev q \<noteq> p_dev p) zs = zs" if "set zs \<subseteq> set (xs @ ys)" for zs
    using that d by (intro filter_True) fastforce
  then show "views_off_dev (p_dev p) (xs @ (c, p, ec) # ys) = xs @ ys" by (simp add: views_off_dev_def)
  have "map (invalidate_dev (p_dev p)) zs = zs" if "set zs \<subseteq> set (xs @ ys)" for zs
    using that d by (intro map_idI) (fastforce simp: invalidate_dev_def)
  then show "map (invalidate_dev (p_dev p)) (xs @ (c, p, ec) # ys) = xs @ (c, p\<lparr>p_dev := BCH_SB_MEMBER_INVALID\<rparr>, ec) # ys"
    by (simp add: invalidate_dev_def)
qed

lemma drop_device_cases:
  assumes "k_type (bs_k s) \<noteq> KEY_TYPE_stripe" "distinct (bch2_bkey_devs (bs_ptrs s))" "d \<noteq> BCH_SB_MEMBER_INVALID"
    and "d \<in> set (bch2_bkey_devs (bs_ptrs s))"
  shows "\<exists>s'. bch2_bkey_drop_device p0 s d = Some s' \<and>
    (let vs = ptr_views (bs_k s) (bs_ptrs s); rest = views_off_dev d vs
     in if ec_on_dev d vs then bs_k s' = bs_k s \<and> ptr_views (bs_k s) (bs_ptrs s') = map (invalidate_dev d) vs
        else if has_dirty vs \<and> \<not> has_dirty rest then k_type (bs_k s') = KEY_TYPE_error \<and> bs_ptrs s' = []
        else if rest = [] then k_type (bs_k s') = KEY_TYPE_deleted \<and> bs_ptrs s' = []
        else k_type (bs_k s') = k_type (bs_k s) \<and> ptr_views (bs_k s) (bs_ptrs s') = rest)"
proof -
  let ?k = "bs_k s" and ?find = "\<lambda>s. find (\<lambda>(i, ptr). p_dev ptr = d) (bkey_for_each_ptr 0 (bs_ptrs s))"
  obtain v where "v \<in> set (ptr_views ?k (bs_ptrs s))" "(case v of (c, p, ec) \<Rightarrow> p_dev p) = d"
    using assms(4) by (auto simp: devs_views [of _ ?k])
  then have "?find s \<noteq> None" using find_dev_None [of d "bs_ptrs s" ?k] by (auto split: prod.splits)
  then obtain i p where ip: "?find s = Some (i, p)" by fastforce
  then have i: "i < length (bs_ptrs s)" "bs_ptrs s ! i = E_ptr p" "p_dev p = d" using find_SomeD [OF ip] by (simp_all add: in_for_each_ptr)
  define s' where "s' = bch2_bkey_drop_ptr p0 s i"
  obtain xs c ec ys where v: "ptr_views ?k (bs_ptrs s) = xs @ (c, p, ec) # ys"
    and c: "if ec_on_dev d (ptr_views ?k (bs_ptrs s))
     then bs_k s' = bs_k s \<and> ptr_views ?k (bs_ptrs s') = xs @ (c, p\<lparr>p_dev := BCH_SB_MEMBER_INVALID\<rparr>, ec) # ys
     else if has_dirty (ptr_views ?k (bs_ptrs s)) \<and> \<not> has_dirty (xs @ ys) then s' = empty_val KEY_TYPE_error (bch2_bkey_drop_ptr_noerror s i)
     else if xs @ ys = [] then s' = empty_val KEY_TYPE_deleted (bch2_bkey_drop_ptr_noerror s i)
     else s' = bch2_bkey_drop_ptr_noerror s i \<and> ptr_views ?k (bs_ptrs s') = xs @ ys"
    using drop_ptr_cases [OF assms(1) i(1,2), of p0] i(3) unfolding Let_def s'_def by blast
  note sp = views_split [of xs c p ec ys, folded v, OF assms(2) [unfolded devs_views [of _ ?k]]]
  have "\<forall>(c, q, ec) \<in> set (ptr_views ?k (bs_ptrs s')). p_dev q \<noteq> d"
    using c sp(3) assms(3) i(3) by (auto simp: empty_val_def ptr_views_def split: if_splits)
  then have "?find s' = None" by (simp add: find_dev_None [where k = ?k])
  then have "bch2_bkey_drop_ptrs p0 (\<lambda>ptr. p_dev ptr = d) s' = Some s'" by (simp add: bch2_bkey_drop_ptrs.simps [of _ _ s'])
  then have "bch2_bkey_drop_device p0 s d = Some s'"
    using ip by (simp add: bch2_bkey_drop_device_def bch2_bkey_drop_ptrs.simps [of _ _ s] s'_def)
  then show ?thesis using c sp(1,2) v i(3)
    by (intro exI [of _ s']) (auto simp: Let_def empty_val_def split: if_splits)
qed

section \<open>The size of the key\<close>

lemma empty_val_ok: "t \<in> {KEY_TYPE_error, KEY_TYPE_deleted} \<Longrightarrow> bkey_s_ok (empty_val t s)"
  by (auto simp: empty_val_def bkey_s_ok_def bkey_s_layout_def ptrs_span_def bkey_s_words_def value_words_def val_u64s_def)

lemma set_ptr_dev_ok:
  assumes "bkey_s_ok s" "ptr_list_type (k_type (bs_k s))" "i < length (bs_ptrs s)"
  shows "bkey_s_ok (set_ptr_dev s i d)"
proof (cases "bs_ptrs s ! i")
  case (E_ptr p)
  then have "map extent_entry_u64s (bs_ptrs (set_ptr_dev s i d)) = map extent_entry_u64s (bs_ptrs s)"
    using assms(3) by (intro nth_equalityI) (auto simp: set_ptr_dev_def nth_list_update extent_entry_u64s_def)
  then show ?thesis using assms by (simp add: bkey_s_ok_def layout_iff val_u64s_def)
qed (use assms in \<open>simp_all add: set_ptr_dev_def\<close>)

lemma drop_ptr_ok:
  assumes "bkey_s_ok s" "ptr_list_type (k_type (bs_k s))" "i < length (bs_ptrs s)"
  shows "bkey_s_ok (bch2_bkey_drop_ptr p0 s i)"
  using set_ptr_dev_ok [OF assms] drop_ptr_noerror_ok [OF assms] empty_val_ok assms(1)
  by (simp add: bch2_bkey_drop_ptr_def Let_def split: extent_entry.split)

lemma crc_append_ok:
  assumes "bkey_s_ok s" "ptr_list_type (k_type (bs_k s))" "val_u64s s + 3 < 251" "bch2_extent_crc_append s u = Some s'"
  shows "bkey_s_ok s' \<and> k_type (bs_k s') = k_type (bs_k s)"
proof -
  obtain e where e: "s' = extent_entry_insert s (length (bs_ptrs s)) e"
    using assms(4) by (auto simp: bch2_extent_crc_append_def split: option.splits)
  have "bkey_s_ok (extent_entry_insert s (length (bs_ptrs s)) e)"
    using extent_entry_u64s_le [of e] assms(1-3) by (intro insert_ok) simp_all
  then show ?thesis by (simp add: e)
qed

section \<open>Properties\<close>

text \<open>An extent of 16 sectors on devices 1 (with a checksum and a stripe pointer) and 2.\<close>

definition example_ptr :: "u8 \<Rightarrow> bch_extent_ptr" where
  "example_ptr d = \<lparr>p_cached = 0, p_unused = 0, p_unwritten = 0, p_offset = 4096, p_dev = d, p_gen = 3\<rparr>"

definition example_crc :: crc_unpacked where
  "example_crc = \<lparr>u_compressed_size = 16, u_uncompressed_size = 16, u_live_size = 16, u_csum_type = 5,
     u_compression_type = 0, u_offset = 0, u_nonce = 0, u_csum = \<lparr>cs_lo = 0xdeadbeef, cs_hi = 0\<rparr>\<rparr>"

definition example_entries :: "extent_entry list" where
  "example_entries =
     [E_crc32 \<lparr>c32_compressed_size = 15, c32_uncompressed_size = 15, c32_offset = 0, c32_csum_type = 5,
        c32_compression_type = 0, c32_csum = 0xdeadbeef\<rparr>,
      E_stripe_ptr \<lparr>s_block = 1, s_redundancy = 1, s_idx = 7\<rparr>, E_ptr (example_ptr 1), E_ptr (example_ptr 2)]"

definition example_extent :: bkey_s where
  "example_extent =
     \<lparr>bs_k = \<lparr>k_u64s = 9, k_format = 0, k_needs_whiteout = False, k_type = KEY_TYPE_extent, k_pad = 0,
        k_bversion = \<lparr>bv_hi = 0, bv_lo = 0\<rparr>, k_size = 16, k_p = SPOS 1 16 0\<rparr>,
      bs_hdr = [], bs_ptrs = example_entries, bs_tail = []\<rparr>"

definition example_decoded :: extent_ptr_decoded where
  "example_decoded = \<lparr>d_has_ec = False, d_do_ec_reconstruct = False, d_crc_retry_nr = 0, d_crc = example_crc,
     d_ptr = example_ptr 3, d_ec = \<lparr>s_block = 0, s_redundancy = 0, s_idx = 0\<rparr>\<rparr>"

lemma example_facts:
  "stripes_ok (bs_ptrs example_extent)" "crc_wf (d_crc example_decoded)" "crc_append_type (d_crc example_decoded) \<noteq> None"
  "u_live_size (d_crc example_decoded) = k_size (bs_k example_extent)" "bkey_s_ok example_extent"
  "ptr_list_type (k_type (bs_k example_extent))" "val_u64s example_extent + 5 < 251"
  by (simp_all add: example_extent_def example_entries_def example_decoded_def example_crc_def crc_wf_def csum_fits_def
      bch_crc_bytes_def crc_append_type_def CRC32_SIZE_MAX_def CRC32_NONCE_MAX_def ptr_list_type_def layout_iff
      bkey_s_ok_def hdr_u64s_def val_u64s_def extent_entry_u64s_def)



text \<open>C8: dropping pointer \<open>i\<close> of a key removes exactly that pointer from what the value means:
  every other pointer keeps its checksum and its stripe pointer, although checksum entries no pointer uses
  any more are dropped with it. If a pointer on the device is erasure coded the pointer
  stays and loses its device. When the last dirty pointer goes the key becomes an error, when the
  last pointer goes it becomes deleted.\<close>

theorem drop_ptr_correct:
  assumes "k_type (bs_k s) \<noteq> KEY_TYPE_stripe" "i < length (bs_ptrs s)" "bs_ptrs s ! i = E_ptr p"
  shows "\<exists>xs c ec ys. map (ptr_view \<circ> fst) (bkey_for_each_ptr_decode (bs_k s) p0 (bs_ptrs s)) = xs @ (c, p, ec) # ys \<and>
    length xs = bch2_bkey_nr_ptrs (take i (bs_ptrs s)) \<and>
    (let s' = bch2_bkey_drop_ptr p0 s i; vs = map (ptr_view \<circ> fst) (bkey_for_each_ptr_decode (bs_k s) p0 (bs_ptrs s'))
     in if ec_on_dev (p_dev p) (xs @ (c, p, ec) # ys)
        then k_type (bs_k s') = k_type (bs_k s) \<and> vs = xs @ (c, p\<lparr>p_dev := BCH_SB_MEMBER_INVALID\<rparr>, ec) # ys
        else if has_dirty (xs @ (c, p, ec) # ys) \<and> \<not> has_dirty (xs @ ys) then k_type (bs_k s') = KEY_TYPE_error \<and> bs_ptrs s' = []
        else if xs @ ys = [] then k_type (bs_k s') = KEY_TYPE_deleted \<and> bs_ptrs s' = []
        else k_type (bs_k s') = k_type (bs_k s) \<and> vs = xs @ ys)"
proof -
  obtain xs c ec ys where v: "ptr_views (bs_k s) (bs_ptrs s) = xs @ (c, p, ec) # ys" "length xs = bch2_bkey_nr_ptrs (take i (bs_ptrs s))"
    and c: "let s' = bch2_bkey_drop_ptr p0 s i in
     if ec_on_dev (p_dev p) (ptr_views (bs_k s) (bs_ptrs s))
     then bs_k s' = bs_k s \<and> ptr_views (bs_k s) (bs_ptrs s') = xs @ (c, p\<lparr>p_dev := BCH_SB_MEMBER_INVALID\<rparr>, ec) # ys
     else if has_dirty (ptr_views (bs_k s) (bs_ptrs s)) \<and> \<not> has_dirty (xs @ ys) then s' = empty_val KEY_TYPE_error (bch2_bkey_drop_ptr_noerror s i)
     else if xs @ ys = [] then s' = empty_val KEY_TYPE_deleted (bch2_bkey_drop_ptr_noerror s i)
     else s' = bch2_bkey_drop_ptr_noerror s i \<and> ptr_views (bs_k s) (bs_ptrs s') = xs @ ys"
    using drop_ptr_cases [OF assms, of p0] by blast
  show ?thesis unfolding for_each_ptr_decode_views
    by (rule exI [of _ xs], rule exI [of _ c], rule exI [of _ ec], rule exI [of _ ys])
      (use v c in \<open>auto simp: Let_def empty_val_def split: if_splits\<close>)
qed

theorem drop_ptr_correct_witness:
  "\<exists>xs c ec ys. map (ptr_view \<circ> fst) (bkey_for_each_ptr_decode (bs_k example_extent) example_decoded (bs_ptrs example_extent)) =
    xs @ (c, example_ptr 2, ec) # ys"
  using drop_ptr_correct [of example_extent 3 "example_ptr 2" example_decoded]
  by (auto simp: example_extent_def example_entries_def)



text \<open>C40: the header of the value and the size in \<open>k.u64s\<close> agree with the type of the key and with
  the entries stored in it, and every operation on the pointers keeps it so: dropping a pointer, adding a
  decoded pointer, and adding a checksum entry, for a key that stays below the 255 words \<open>u64s\<close>
  can count.\<close>

theorem ptr_ops_keep_key_type:
  assumes "bkey_s_ok s" "ptr_list_type (k_type (bs_k s))"
  shows "(\<forall>i < length (bs_ptrs s). bkey_s_ok (bch2_bkey_drop_ptr p0 s i) \<and> bkey_s_ok (bch2_bkey_drop_ptr_noerror s i)) \<and>
    (\<forall>u s'. val_u64s s + 3 < 251 \<and> bch2_extent_crc_append s u = Some s' \<longrightarrow> bkey_s_ok s' \<and> k_type (bs_k s') = k_type (bs_k s)) \<and>
    (\<forall>p s'. val_u64s s + 5 < 251 \<and> crc_wf (d_crc p) \<and> crc_append_type (d_crc p) \<noteq> None \<and>
       u_live_size (d_crc p) = k_size (bs_k s) \<and> bch2_extent_ptr_decoded_append s p = Some s' \<longrightarrow>
       bkey_s_ok s' \<and> k_type (bs_k s') = k_type (bs_k s))"
proof (intro conjI)
  show "\<forall>i < length (bs_ptrs s). bkey_s_ok (bch2_bkey_drop_ptr p0 s i) \<and> bkey_s_ok (bch2_bkey_drop_ptr_noerror s i)"
    using drop_ptr_ok drop_ptr_noerror_ok assms by blast
qed (use crc_append_ok append_ok assms in blast)+

theorem ptr_ops_keep_key_type_witness:
  "bkey_s_ok (bch2_bkey_drop_ptr example_decoded example_extent 3)"
  using ptr_ops_keep_key_type [OF example_facts(5,6), of example_decoded] by (simp add: example_extent_def example_entries_def)

end
