(* ===== verification/Extent_Cut.thy ===== *)
theory Extent_Cut
  imports Extent_Update
begin

text \<open>
  Trimming extents (\<^verbatim>\<open>libbcachefs/extents.c\<close>, \<^verbatim>\<open>extents.h\<close>, \<^verbatim>\<open>bkey.h\<close>):
  \<open>bch2_cut_front_s\<close> and \<open>bch2_cut_back_s\<close> for every type of extent, the test whether two extents refer to the
  same data, and how extents overlap.

  An extent says where the data of each of its sectors is (\<open>data_addr\<close>). The theory shows that trimming
  changes the range and not the place of the data, that the trimmed extent still refers to the same data for
  \<open>bch2_extents_match\<close>, and that the sizes in the key stay right.
\<close>

section \<open>Trimming\<close>

definition bkey_start_offset :: "bkey \<Rightarrow> u64" where
  "bkey_start_offset k = bp_offset (k_p k) - ucast (k_size k)"

definition bkey_start_pos :: "bkey \<Rightarrow> bpos" where
  "bkey_start_pos k = SPOS (bp_inode (k_p k)) (bkey_start_offset k) (bp_snapshot (k_p k))"

definition bkey_inline_data_offset :: "u8 \<Rightarrow> nat" where
  "bkey_inline_data_offset t = (if t = KEY_TYPE_inline_data then 0 else 8)"

text \<open>The loop over the entries in \<open>bch2_cut_front_s\<close>; bit fields wrap at their width.\<close>

fun cut_front_entries :: "u64 \<Rightarrow> bool \<Rightarrow> extent_entry list \<Rightarrow> extent_entry list" where
  "cut_front_entries sub seen_crc [] = []"
| "cut_front_entries sub seen_crc (e # es) =
     (case e of
        E_ptr p \<Rightarrow> if \<not> seen_crc then E_ptr (p\<lparr>p_offset := p_offset p + ucast sub\<rparr>) else e
      | E_crc32 c \<Rightarrow> E_crc32 (c\<lparr>c32_offset := c32_offset c + ucast sub\<rparr>)
      | E_crc64 c \<Rightarrow> E_crc64 (c\<lparr>c64_offset := c64_offset c + ucast sub\<rparr>)
      | E_crc128 c \<Rightarrow> E_crc128 (c\<lparr>c128_offset := c128_offset c + ucast sub\<rparr>)
      | _ \<Rightarrow> e) # cut_front_entries sub (seen_crc \<or> extent_entry_is_crc e) es"

text \<open>\<open>SET_REFLINK_P_IDX(p, REFLINK_P_IDX(p) + sub)\<close>: the index is the low 56 bits of the first word.\<close>

definition reflink_p_advance :: "u64 \<Rightarrow> u64 \<Rightarrow> u64" where
  "reflink_p_advance sub w =
     (let m = NOT (push_bit 56 (NOT 0)) in (w AND NOT m) OR (((w AND m) + sub) AND m))"

definition set_val_u64s :: "nat \<Rightarrow> bkey \<Rightarrow> bkey" where
  "set_val_u64s n k = k\<lparr>k_u64s := word_of_nat (BKEY_U64s + n)\<rparr>"

definition drop_val :: "bkey_s \<Rightarrow> bkey_s" where
  "drop_val s = s\<lparr>bs_hdr := [], bs_ptrs := [], bs_tail := []\<rparr>"

text \<open>
  Inline data is a multiple of 8 bytes and is moved by a multiple of 512, so the move is one of words.
  The result is the change of the size of the value, in words, with the key.
\<close>

definition bch2_cut_front_s :: "bpos \<Rightarrow> bkey_s \<Rightarrow> int \<times> bkey_s" where
  "bch2_cut_front_s wpos s =
     (if bkey_le wpos (bkey_start_pos (bs_k s)) then (0, s)
      else
        let old_val_u64s = bkey_val_u64s (bs_k s);
            sub = bp_offset wpos - bkey_start_offset (bs_k s);
            k = (bs_k s)\<lparr>k_size := k_size (bs_k s) - ucast sub\<rparr>
        in if k_size k = 0
           then (- old_val_u64s, drop_val (s\<lparr>bs_k := set_val_u64s 0 (k\<lparr>k_type := KEY_TYPE_deleted\<rparr>)\<rparr>))
           else let s = s\<lparr>bs_k := k\<rparr> in
             if k_type k = KEY_TYPE_extent \<or> k_type k = KEY_TYPE_reflink_v
             then (0, s\<lparr>bs_ptrs := cut_front_entries sub False (bs_ptrs s)\<rparr>)
             else if k_type k = KEY_TYPE_reflink_p
             then (0, s\<lparr>bs_hdr := (case bs_hdr s of [] \<Rightarrow> [] | w # ws \<Rightarrow> reflink_p_advance sub w # ws)\<rparr>)
             else if k_type k = KEY_TYPE_inline_data \<or> k_type k = KEY_TYPE_indirect_inline_data
             then let h = bkey_inline_data_offset (k_type k) div 8;
                      bytes = 8 * length (bs_hdr s) - bkey_inline_data_offset (k_type k);
                      n = min (unat (push_bit 9 sub)) bytes div 8
                  in (- int n, s\<lparr>bs_hdr := take h (bs_hdr s) @ drop (h + n) (bs_hdr s),
                                 bs_k := set_val_u64s (length (bs_hdr s) - n) k\<rparr>)
             else (0, s))"

definition bch2_cut_back_s :: "bpos \<Rightarrow> bkey_s \<Rightarrow> int \<times> bkey_s" where
  "bch2_cut_back_s wpos s =
     (if bkey_ge wpos (k_p (bs_k s)) then (0, s)
      else
        let old_val_u64s = bkey_val_u64s (bs_k s);
            len = bp_offset wpos - bkey_start_offset (bs_k s);
            k = (bs_k s)\<lparr>k_p := SPOS (bp_inode (k_p (bs_k s))) (bp_offset wpos) (bp_snapshot (k_p (bs_k s))), k_size := ucast len\<rparr>
        in if len = 0
           then (- old_val_u64s, drop_val (s\<lparr>bs_k := set_val_u64s 0 (k\<lparr>k_type := KEY_TYPE_deleted\<rparr>)\<rparr>))
           else if k_type k = KEY_TYPE_inline_data \<or> k_type k = KEY_TYPE_indirect_inline_data
           then let bytes = 8 * length (bs_hdr s) - bkey_inline_data_offset (k_type k);
                    n = (bkey_inline_data_offset (k_type k) + min bytes (unat (push_bit 9 (k_size k)))) div 8
                in (int n - old_val_u64s, s\<lparr>bs_hdr := take n (bs_hdr s), bs_k := set_val_u64s n k\<rparr>)
           else (0, s\<lparr>bs_k := k\<rparr>))"

definition bch2_key_resize :: "bkey \<Rightarrow> u32 \<Rightarrow> bkey" where
  "bch2_key_resize k new_size =
     k\<lparr>k_p := SPOS (bp_inode (k_p k)) (bp_offset (k_p k) - ucast (k_size k) + ucast new_size) (bp_snapshot (k_p k)),
       k_size := new_size\<rparr>"

section \<open>Comparing extents\<close>

datatype extent_overlap = BCH_EXTENT_OVERLAP_ALL | BCH_EXTENT_OVERLAP_BACK | BCH_EXTENT_OVERLAP_FRONT | BCH_EXTENT_OVERLAP_MIDDLE

definition bch2_extent_overlap :: "bkey \<Rightarrow> bkey \<Rightarrow> extent_overlap" where
  "bch2_extent_overlap k m =
     (let cmp1 = bkey_lt (k_p k) (k_p m); cmp2 = bkey_gt (bkey_start_pos k) (bkey_start_pos m)
      in if cmp1 then (if cmp2 then BCH_EXTENT_OVERLAP_MIDDLE else BCH_EXTENT_OVERLAP_FRONT)
         else (if cmp2 then BCH_EXTENT_OVERLAP_BACK else BCH_EXTENT_OVERLAP_ALL))"

definition bkey_extent_is_direct_data :: "bkey \<Rightarrow> bool" where
  "bkey_extent_is_direct_data k =
     (k_type k \<in> {KEY_TYPE_btree_ptr, KEY_TYPE_btree_ptr_v2, KEY_TYPE_extent, KEY_TYPE_reflink_v})"

text \<open>
  Both pointers of the inner test of \<open>bch2_extents_match\<close>: the arithmetic is that of 64 bit integers.
\<close>

definition ptrs_match :: "bkey \<Rightarrow> bkey \<Rightarrow> extent_ptr_decoded \<Rightarrow> extent_ptr_decoded \<Rightarrow> bool" where
  "ptrs_match k1 k2 p1 p2 =
     (let o1 = ucast (p_offset (d_ptr p1)) :: u64; o2 = ucast (p_offset (d_ptr p2)) :: u64
      in p_dev (d_ptr p1) = p_dev (d_ptr p2) \<and> p_gen (d_ptr p1) = p_gen (d_ptr p2) \<and>
         o1 + ucast (u_offset (d_crc p1)) - bkey_start_offset k1 = o2 + ucast (u_offset (d_crc p2)) - bkey_start_offset k2 \<and>
         (o1 \<ge> o2 \<and> o1 < o2 + ucast (u_compressed_size (d_crc p2)) \<or>
          o2 \<ge> o1 \<and> o2 < o1 + ucast (u_compressed_size (d_crc p1))))"

definition bch2_extents_match :: "extent_ptr_decoded \<Rightarrow> bkey_s \<Rightarrow> bkey_s \<Rightarrow> bool" where
  "bch2_extents_match p0 k1 k2 =
     (if k_type (bs_k k1) \<noteq> k_type (bs_k k2) then False
      else if bkey_extent_is_direct_data (bs_k k1) then
        if bkey_extent_is_unwritten (bs_ptrs k1) \<noteq> bkey_extent_is_unwritten (bs_ptrs k2) then False
        else list_ex (\<lambda>(p1, _). list_ex (\<lambda>(p2, _). ptrs_match (bs_k k1) (bs_k k2) p1 p2)
               (bkey_for_each_ptr_decode (bs_k k2) p0 (bs_ptrs k2)))
             (bkey_for_each_ptr_decode (bs_k k1) p0 (bs_ptrs k1))
      else True)"

section \<open>Where the data is\<close>

text \<open>
  The address of sector \<open>x\<close> of the file, for one pointer: the device and the generation, and the sector on the
  device, or for compressed data the start of the compressed extent and the position in the uncompressed data.
\<close>

definition data_addr :: "bkey \<Rightarrow> ptr_view \<Rightarrow> int \<Rightarrow> u8 \<times> u8 \<times> int \<times> int" where
  "data_addr k v x =
     (case v of (c, p, ec) \<Rightarrow>
        let pos = uint (u_offset c) + (x - uint (bkey_start_offset k))
        in (p_dev p, p_gen p,
            if crc_is_compressed c then (uint (p_offset p), pos) else (0, uint (p_offset p) + pos)))"

text \<open>
  What \<open>bch2_bkey_ptrs_validate\<close> ensures for the offsets: the live part of an extent is within the data its
  checksum covers, and pointers stay within the device.
\<close>

fun entry_offsets_ok :: "bkey \<Rightarrow> extent_entry \<Rightarrow> bool" where
  "entry_offsets_ok k (E_ptr p) = (unat (p_offset p) + unat (k_size k) < 2 ^ 44)"
| "entry_offsets_ok k e =
     (extent_entry_is_crc e \<longrightarrow>
      unat (u_offset (bch2_extent_crc_unpack k e)) + unat (k_size k) \<le> unat (u_uncompressed_size (bch2_extent_crc_unpack k e)))"

definition extent_offsets_ok :: "bkey_s \<Rightarrow> bool" where
  "extent_offsets_ok s \<longleftrightarrow> unat (k_size (bs_k s)) \<le> unat (bp_offset (k_p (bs_k s))) \<and> list_all (entry_offsets_ok (bs_k s)) (bs_ptrs s)"

text \<open>How trimming the front by \<open>sub\<close> changes a pointer: without a checksum entry the pointer moves, with one the offset in it.\<close>

definition cut_view :: "u64 \<Rightarrow> bkey \<Rightarrow> bkey \<Rightarrow> ptr_view \<Rightarrow> ptr_view \<Rightarrow> bool" where
  "cut_view sub k k' v v' \<longleftrightarrow>
     (case (v, v') of ((c, p, ec), (c', p', ec')) \<Rightarrow>
        ec' = ec \<and>
        (c = crc_unpack_none k \<and> c' = crc_unpack_none k' \<and> p' = p\<lparr>p_offset := p_offset p + ucast sub\<rparr> \<or>
         c' = c\<lparr>u_offset := u_offset c + ucast sub, u_live_size := k_size k'\<rparr> \<and> p' = p \<and> unat (u_offset c) + unat sub < 2 ^ 16))"

lemma unat_add_ucast:
  assumes "unat (a :: 'a::len word) + unat (b :: 'b::len word) < 2 ^ LENGTH('a)"
  shows "unat (a + ucast b) = unat a + unat b"
proof -
  have "unat (ucast b :: 'a word) = unat b" using assms by (simp add: unat_ucast_small)
  with assms show ?thesis by (subst unat_add_lem [THEN iffD1]) simp_all
qed

lemma ucast_add_ucast:
  assumes "unat (a :: 'a::len word) + unat (b :: u64) < 2 ^ LENGTH('a)" "LENGTH('a) \<le> LENGTH('c)"
  shows "(ucast (a + ucast b) :: 'c::len word) = ucast a + ucast b"
proof -
  have le: "(2::nat) ^ LENGTH('a) \<le> 2 ^ LENGTH('c)" using assms(2) by simp
  then have c: "unat a + unat b < 2 ^ LENGTH('c)" using assms(1) by linarith
  have "unat (ucast (a + ucast b) :: 'c word) = unat a + unat b"
    using c unat_add_ucast [OF assms(1)] by (subst unat_ucast_small) simp_all
  moreover have "unat (ucast a + ucast b :: 'c word) = unat a + unat b"
    using c by (subst unat_add_ucast) (simp_all add: unat_ucast_small)
  ultimately show ?thesis by (simp only: word_eq_iff_unsigned [where 'a = nat])
qed

lemma unat_biased_size: "unat (ucast (x :: 'a::len word) + 1 :: u32) = unat x + 1" if "LENGTH('a) < 32"
proof -
  have "unat x < 2 ^ LENGTH('a)" by (rule unsigned_less)
  moreover have "(2::nat) ^ LENGTH('a) < 2 ^ 32" using that by (intro power_strict_increasing) simp_all
  ultimately have "1 + unat x < 2 ^ 32" by linarith
  then have "unat (1 + ucast x :: u32) = 1 + unat x" using unat_add_ucast [of "1 :: u32" x] by simp
  then show ?thesis by (simp only: add.commute)
qed

lemma uncompressed_le: "unat (ucast (x :: 'a::len word) + 1 :: u32) \<le> 2 ^ LENGTH('a)" if "LENGTH('a) < 32"
  using unat_biased_size [OF that, of x] unsigned_less [of x, where ?'a = nat] by linarith

lemma cut_crc_unpack:
  assumes "extent_entry_is_crc e" "entry_offsets_ok k e" "unat sub < unat (k_size k)"
  shows "\<exists>e'. cut_front_entries sub b (e # es) = e' # cut_front_entries sub True es \<and> extent_entry_is_crc e' \<and>
    bch2_extent_crc_unpack k' e' = (bch2_extent_crc_unpack k e)\<lparr>u_offset := u_offset (bch2_extent_crc_unpack k e) + ucast sub, u_live_size := k_size k'\<rparr> \<and>
    unat (u_offset (bch2_extent_crc_unpack k e)) + unat sub < 2 ^ 16"
proof (cases e)
  case (E_crc32 c)
  have "unat (c32_offset c) + unat (k_size k) \<le> unat (ucast (c32_uncompressed_size c) + 1 :: u32)"
    using assms(2) by (simp add: E_crc32 bch2_extent_crc_unpack.simps unat_ucast_up)
  then have lt: "unat (c32_offset c) + unat sub < 2 ^ LENGTH(7)"
    using assms(3) uncompressed_le [of "c32_uncompressed_size c"] by simp
  then have "(ucast (c32_offset c + ucast sub) :: u16) = ucast (c32_offset c) + ucast sub" by (rule ucast_add_ucast) simp
  then show ?thesis using lt by (simp add: E_crc32 bch2_extent_crc_unpack.simps unat_ucast_up)
next
  case (E_crc64 c)
  have "unat (c64_offset c) + unat (k_size k) \<le> unat (ucast (c64_uncompressed_size c) + 1 :: u32)"
    using assms(2) by (simp add: E_crc64 bch2_extent_crc_unpack.simps unat_ucast_up)
  then have lt: "unat (c64_offset c) + unat sub < 2 ^ LENGTH(9)"
    using assms(3) uncompressed_le [of "c64_uncompressed_size c"] by simp
  then have "(ucast (c64_offset c + ucast sub) :: u16) = ucast (c64_offset c) + ucast sub" by (rule ucast_add_ucast) simp
  then show ?thesis using lt by (simp add: E_crc64 bch2_extent_crc_unpack.simps unat_ucast_up)
next
  case (E_crc128 c)
  have "unat (c128_offset c) + unat (k_size k) \<le> unat (ucast (c128_uncompressed_size c) + 1 :: u32)"
    using assms(2) by (simp add: E_crc128 bch2_extent_crc_unpack.simps unat_ucast_up)
  then have lt: "unat (c128_offset c) + unat sub < 2 ^ LENGTH(13)"
    using assms(3) uncompressed_le [of "c128_uncompressed_size c"] by simp
  then have "(ucast (c128_offset c + ucast sub) :: u16) = ucast (c128_offset c) + ucast sub" by (rule ucast_add_ucast) simp
  then show ?thesis using lt by (simp add: E_crc128 bch2_extent_crc_unpack.simps unat_ucast_up)
qed (use assms(1) in simp_all)

lemma views_crc: "extent_entry_is_crc e \<Longrightarrow> views_from k st (e # es) = views_from k (bch2_extent_crc_unpack k e, snd st) es"
  by (cases st; cases e) simp_all

definition cut_state :: "u64 \<Rightarrow> bkey \<Rightarrow> bkey \<Rightarrow> bool \<Rightarrow> crc_unpacked \<Rightarrow> crc_unpacked \<Rightarrow> bool" where
  "cut_state sub k k' seen c c' \<longleftrightarrow>
     (if seen then c' = c\<lparr>u_offset := u_offset c + ucast sub, u_live_size := k_size k'\<rparr> \<and> unat (u_offset c) + unat sub < 2 ^ 16
      else c = crc_unpack_none k \<and> c' = crc_unpack_none k')"

lemma cut_state_view:
  "cut_state sub k k' seen c c' \<Longrightarrow>
   cut_view sub k k' (c, p, ec) (c', if seen then p else p\<lparr>p_offset := p_offset p + ucast sub\<rparr>, ec)"
  by (auto simp: cut_view_def cut_state_def)

lemma cut_entries_views:
  assumes "list_all (entry_offsets_ok k) es" "unat sub < unat (k_size k)" "cut_state sub k k' seen c c'"
  shows "list_all2 (cut_view sub k k') (views_from k (c, ec) es) (views_from k' (c', ec) (cut_front_entries sub seen es))"
  using assms
proof (induction es arbitrary: seen c c' ec)
  case (Cons e es)
  show ?case
  proof (cases "extent_entry_is_crc e")
    case True
    have "entry_offsets_ok k e" using Cons.prems(1) by simp
    from cut_crc_unpack [OF True this Cons.prems(2), of seen es k']
    obtain e' where e': "cut_front_entries sub seen (e # es) = e' # cut_front_entries sub True es" "extent_entry_is_crc e'"
      "cut_state sub k k' True (bch2_extent_crc_unpack k e) (bch2_extent_crc_unpack k' e')"
      unfolding cut_state_def by auto
    show ?thesis unfolding e'(1) views_crc [OF True] views_crc [OF e'(2)] using Cons.IH [OF _ Cons.prems(2) e'(3)] Cons.prems(1) by simp
  next
    case False
    have IH: "list_all2 (cut_view sub k k') (views_from k (c, ec') es) (views_from k' (c', ec') (cut_front_entries sub seen es))" for ec'
      using Cons.IH [OF _ Cons.prems(2,3)] Cons.prems(1) by simp
    show ?thesis using False IH cut_state_view [OF Cons.prems(3)] by (cases e; cases seen) simp_all
  qed
qed simp

lemma list_all2_mono_in:
  "list_all2 P xs ys \<Longrightarrow> (\<And>x y. x \<in> set xs \<Longrightarrow> P x y \<Longrightarrow> Q x y) \<Longrightarrow> list_all2 Q xs ys"
  by (auto simp: list_all2_conv_all_nth)

lemma cut_viewE:
  assumes "cut_view sub k k' (c, p, ec) v'"
  obtains (plain) "c = crc_unpack_none k" "v' = (crc_unpack_none k', p\<lparr>p_offset := p_offset p + ucast sub\<rparr>, ec)"
  | (crc) "v' = (c\<lparr>u_offset := u_offset c + ucast sub, u_live_size := k_size k'\<rparr>, p, ec)" "unat (u_offset c) + unat sub < 2 ^ 16"
  using assms by (cases v') (auto simp: cut_view_def)

lemma cut_view_addr:
  assumes "cut_view sub k k' (c, p, ec) v'" "uint (bkey_start_offset k') = uint (bkey_start_offset k) + uint sub"
    and "unat (p_offset p) + unat sub < 2 ^ 44"
  shows "data_addr k (c, p, ec) x = data_addr k' v' x"
  using assms(1)
proof (cases rule: cut_viewE)
  case plain
  have "unat (p_offset p + ucast sub) = unat (p_offset p) + unat sub" by (rule unat_add_ucast) (use assms(3) in simp)
  from arg_cong [OF this, of int] have "uint (p_offset p + ucast sub) = uint (p_offset p) + uint sub" by simp
  then show ?thesis using plain assms(2) by (simp add: data_addr_def Let_def crc_unpack_none_def crc_is_compressed_def)
next
  case crc
  have "unat (u_offset c + ucast sub) = unat (u_offset c) + unat sub" by (rule unat_add_ucast) (use crc(2) in simp)
  from arg_cong [OF this, of int] have "uint (u_offset c + ucast sub) = uint (u_offset c) + uint sub" by simp
  then show ?thesis using crc assms(2) by (simp add: data_addr_def Let_def crc_is_compressed_def)
qed

lemma views_from_cases:
  "(c, p, ec) \<in> set (views_from k st es) \<Longrightarrow>
   E_ptr p \<in> set es \<and> (c = fst st \<or> (\<exists>e \<in> set es. extent_entry_is_crc e \<and> c = bch2_extent_crc_unpack k e))"
proof (induction es arbitrary: st)
  case (Cons e es)
  show ?case
  proof (cases "extent_entry_is_crc e")
    case True
    then show ?thesis using Cons.IH [OF Cons.prems [unfolded views_crc [OF True]]] by auto
  next
    case False
    then have "fst (view_step k st e) = fst st" by (cases st; cases e) simp_all
    then show ?thesis using Cons.IH [of "view_step k st e"] Cons.prems by (auto split: extent_entry.splits)
  qed
qed simp

lemma ptr_offset_ok:
  "list_all (entry_offsets_ok k) es \<Longrightarrow> (c, p, ec) \<in> set (ptr_views k es) \<Longrightarrow> unat (p_offset p) + unat (k_size k) < 2 ^ 44"
  unfolding ptr_views_def by (drule views_from_cases) (auto simp: list_all_iff)

lemma compressed_size_pos:
  assumes "(c, p, ec) \<in> set (ptr_views k es)" "0 < k_size k"
  shows "0 < u_compressed_size c"
proof -
  show ?thesis using views_from_cases [OF assms(1) [unfolded ptr_views_def]]
  proof (elim conjE disjE bexE)
    fix e assume "extent_entry_is_crc e" "c = bch2_extent_crc_unpack k e"
    then show ?thesis by (cases e) (simp_all add: bch2_extent_crc_unpack.simps word_less_nat_alt unat_biased_size)
  qed (use assms(2) in \<open>simp add: crc_unpack_none_def\<close>)
qed

section \<open>Trimming the front\<close>

lemma start_offset_unat: "extent_offsets_ok s \<Longrightarrow> unat (bkey_start_offset (bs_k s)) = unat (bp_offset (k_p (bs_k s))) - unat (k_size (bs_k s))"
  by (simp add: bkey_start_offset_def extent_offsets_ok_def unat_sub word_le_nat_alt unat_ucast_up)

text \<open>A position strictly inside the extent.\<close>

definition inside :: "bpos \<Rightarrow> bkey \<Rightarrow> bool" where
  "inside wpos k \<longleftrightarrow> bp_inode wpos = bp_inode (k_p k) \<and> bkey_start_offset k < bp_offset wpos \<and> bp_offset wpos < bp_offset (k_p k)"

definition cut_front_key :: "bpos \<Rightarrow> bkey \<Rightarrow> bkey" where
  "cut_front_key wpos k = k\<lparr>k_size := k_size k - ucast (bp_offset wpos - bkey_start_offset k)\<rparr>"

lemma cut_front_arith:
  assumes "extent_offsets_ok s" "inside wpos (bs_k s)"
  defines "sub \<equiv> bp_offset wpos - bkey_start_offset (bs_k s)" and "k' \<equiv> cut_front_key wpos (bs_k s)"
  shows "unat sub < unat (k_size (bs_k s))" "unat (k_size k') = unat (k_size (bs_k s)) - unat sub" "0 < unat sub"
    "bkey_start_offset k' = bp_offset wpos"
    "uint (bkey_start_offset k') = uint (bkey_start_offset (bs_k s)) + uint sub"
proof -
  let ?k = "bs_k s"
  have le: "unat (k_size ?k) \<le> unat (bp_offset (k_p ?k))" using assms(1) by (simp add: extent_offsets_ok_def)
  have st: "unat (bkey_start_offset ?k) = unat (bp_offset (k_p ?k)) - unat (k_size ?k)" by (rule start_offset_unat [OF assms(1)])
  have w: "unat (bkey_start_offset ?k) < unat (bp_offset wpos)" "unat (bp_offset wpos) < unat (bp_offset (k_p ?k))"
    using assms(2) by (simp_all add: inside_def word_less_nat_alt)
  have sub: "unat sub = unat (bp_offset wpos) - unat (bkey_start_offset ?k)"
    using w by (simp add: sub_def unat_sub word_le_nat_alt)
  show lt: "unat sub < unat (k_size ?k)" "0 < unat sub" using w st le sub by linarith+
  then have c: "unat (ucast sub :: u32) = unat sub"
    using unsigned_less [of "k_size ?k", where ?'a = nat] by (intro unat_ucast_small) (simp del: unsigned_less)
  show sz: "unat (k_size k') = unat (k_size ?k) - unat sub"
    using lt c by (simp add: k'_def cut_front_key_def sub_def [symmetric] unat_sub word_le_nat_alt)
  have "unat (bkey_start_offset k') = unat (bp_offset (k_p ?k)) - unat (k_size k')"
    using le sz by (simp add: k'_def cut_front_key_def bkey_start_offset_def unat_sub word_le_nat_alt unat_ucast_up)
  also have "\<dots> = unat (bp_offset wpos)" using sz st w le sub by linarith
  finally show e: "bkey_start_offset k' = bp_offset wpos" by (simp only: word_eq_iff_unsigned [where 'a = nat])
  have "unat (bp_offset wpos) = unat (bkey_start_offset ?k) + unat sub" using sub w by simp
  from arg_cong [OF this, of int] show "uint (bkey_start_offset k') = uint (bkey_start_offset ?k) + uint sub" by (simp add: e)
qed

lemma cut_front_result:
  assumes "extent_offsets_ok s" "inside wpos (bs_k s)" "k_type (bs_k s) = KEY_TYPE_extent \<or> k_type (bs_k s) = KEY_TYPE_reflink_v"
  shows "bch2_cut_front_s wpos s =
    (0, s\<lparr>bs_k := cut_front_key wpos (bs_k s),
          bs_ptrs := cut_front_entries (bp_offset wpos - bkey_start_offset (bs_k s)) False (bs_ptrs s)\<rparr>)"
proof -
  have "\<not> bkey_le wpos (bkey_start_pos (bs_k s))"
    using assms(2) by (auto simp: bkey_le_def bkey_start_pos_def inside_def)
  moreover have "k_size (cut_front_key wpos (bs_k s)) \<noteq> 0"
    using cut_front_arith(1,2) [OF assms(1,2)] by (metis diff_is_0_eq not_less unsigned_0)
  ultimately show ?thesis using assms(3) by (auto simp: bch2_cut_front_s_def Let_def cut_front_key_def)
qed

lemma cut_entries_ok:
  assumes "list_all (entry_offsets_ok k) es" "unat sub < unat (k_size k)" "unat (k_size k') = unat (k_size k) - unat sub"
  shows "list_all (entry_offsets_ok k') (cut_front_entries sub seen es)"
  using assms(1)
proof (induction es arbitrary: seen)
  case (Cons e es)
  have ok: "entry_offsets_ok k e" "list_all (entry_offsets_ok k) es" using Cons.prems by simp_all
  show ?case
  proof (cases "extent_entry_is_crc e")
    case True
    obtain e' where e': "cut_front_entries sub seen (e # es) = e' # cut_front_entries sub True es" "extent_entry_is_crc e'"
      "bch2_extent_crc_unpack k' e' = (bch2_extent_crc_unpack k e)\<lparr>u_offset := u_offset (bch2_extent_crc_unpack k e) + ucast sub, u_live_size := k_size k'\<rparr>"
      "unat (u_offset (bch2_extent_crc_unpack k e)) + unat sub < 2 ^ 16"
      using cut_crc_unpack [OF True ok(1) assms(2), of seen es k'] by blast
    have "unat (u_offset (bch2_extent_crc_unpack k e) + ucast sub) = unat (u_offset (bch2_extent_crc_unpack k e)) + unat sub"
      by (rule unat_add_ucast) (use e'(4) in simp)
    moreover have "unat (u_offset (bch2_extent_crc_unpack k e)) + unat (k_size k) \<le> unat (u_uncompressed_size (bch2_extent_crc_unpack k e))"
      using ok(1) True by (cases e) simp_all
    ultimately have "entry_offsets_ok k' e'" using e'(2,3) assms(2,3) by (cases e') simp_all
    then show ?thesis unfolding e'(1) using Cons.IH [OF ok(2)] by simp
  next
    case False
    have "unat (p_offset p + ucast sub) = unat (p_offset p) + unat sub" if "e = E_ptr p" for p
      by (rule unat_add_ucast) (use ok(1) that assms(2) in simp)
    then show ?thesis using False Cons.IH [OF ok(2)] ok(1) assms(2,3) by (cases e) auto
  qed
qed simp

lemma cut_front_views:
  assumes "extent_offsets_ok s" "inside wpos (bs_k s)"
  defines "sub \<equiv> bp_offset wpos - bkey_start_offset (bs_k s)" and "k' \<equiv> cut_front_key wpos (bs_k s)"
  shows "list_all2 (cut_view sub (bs_k s) k') (ptr_views (bs_k s) (bs_ptrs s)) (ptr_views k' (cut_front_entries sub False (bs_ptrs s)))"
  unfolding ptr_views_def
  by (rule cut_entries_views) (use assms(1) cut_front_arith(1) [OF assms(1,2)] in \<open>simp_all add: extent_offsets_ok_def sub_def cut_state_def\<close>)

lemma cut_front_data:
  assumes "extent_offsets_ok s" "inside wpos (bs_k s)" "k_type (bs_k s) = KEY_TYPE_extent \<or> k_type (bs_k s) = KEY_TYPE_reflink_v"
  shows "\<exists>s'. bch2_cut_front_s wpos s = (0, s') \<and> extent_offsets_ok s' \<and>
    bkey_start_offset (bs_k s') = bp_offset wpos \<and> k_p (bs_k s') = k_p (bs_k s) \<and> k_type (bs_k s') = k_type (bs_k s) \<and>
    list_all2 (\<lambda>v v'. \<forall>x. data_addr (bs_k s) v x = data_addr (bs_k s') v' x)
      (ptr_views (bs_k s) (bs_ptrs s)) (ptr_views (bs_k s') (bs_ptrs s'))"
proof -
  define sub where "sub = bp_offset wpos - bkey_start_offset (bs_k s)"
  define k' where "k' = cut_front_key wpos (bs_k s)"
  note ar = cut_front_arith [OF assms(1,2), folded sub_def k'_def]
  have ok: "list_all (entry_offsets_ok (bs_k s)) (bs_ptrs s)" using assms(1) by (simp add: extent_offsets_ok_def)
  have "list_all2 (\<lambda>v v'. \<forall>x. data_addr (bs_k s) v x = data_addr k' v' x)
      (ptr_views (bs_k s) (bs_ptrs s)) (ptr_views k' (cut_front_entries sub False (bs_ptrs s)))"
  proof (rule list_all2_mono_in [OF cut_front_views [OF assms(1,2), folded sub_def k'_def]])
    fix v v' assume v: "v \<in> set (ptr_views (bs_k s) (bs_ptrs s))" "cut_view sub (bs_k s) k' v v'"
    obtain c p ec where c: "v = (c, p, ec)" using prod_cases3 by blast
    have "unat (p_offset p) + unat sub < 2 ^ 44" using ptr_offset_ok [OF ok v(1) [unfolded c]] ar(1) by linarith
    from cut_view_addr [OF v(2) [unfolded c] ar(5) this] show "\<forall>x. data_addr (bs_k s) v x = data_addr k' v' x" by (simp add: c)
  qed
  moreover have "extent_offsets_ok (s\<lparr>bs_k := k', bs_ptrs := cut_front_entries sub False (bs_ptrs s)\<rparr>)"
    using cut_entries_ok [OF ok ar(1,2)] ar(2) assms(1) by (auto simp: extent_offsets_ok_def k'_def cut_front_key_def)
  ultimately show ?thesis using cut_front_result [OF assms] ar(4)
    by (intro exI [of _ "s\<lparr>bs_k := k', bs_ptrs := cut_front_entries sub False (bs_ptrs s)\<rparr>"])
      (simp add: sub_def [symmetric] k'_def [symmetric], simp add: k'_def cut_front_key_def)
qed

section \<open>Trimming the back\<close>

definition same_place :: "ptr_view \<Rightarrow> ptr_view \<Rightarrow> bool" where
  "same_place v v' \<longleftrightarrow>
     (case (v, v') of ((c, p, ec), (c', p', ec')) \<Rightarrow>
        p' = p \<and> ec' = ec \<and> u_offset c' = u_offset c \<and> u_compression_type c' = u_compression_type c)"

lemma views_same_place:
  assumes "u_offset c' = u_offset c" "u_compression_type c' = u_compression_type c"
  shows "list_all2 same_place (views_from k (c, ec) es) (views_from k' (c', ec) es)"
  using assms
proof (induction es arbitrary: c c' ec)
  case (Cons e es)
  show ?case
  proof (cases "extent_entry_is_crc e")
    case True
    have "u_offset (bch2_extent_crc_unpack k' e) = u_offset (bch2_extent_crc_unpack k e)"
      "u_compression_type (bch2_extent_crc_unpack k' e) = u_compression_type (bch2_extent_crc_unpack k e)"
      using True by (cases e; simp add: bch2_extent_crc_unpack.simps)+
    then show ?thesis unfolding views_crc [OF True] using Cons.IH by simp
  next
    case False
    have "list_all2 same_place (views_from k (c, ec') es) (views_from k' (c', ec') es)" for ec'
      using Cons.IH Cons.prems by simp
    moreover have "same_place (c, p, ec) (c', p, ec)" for p using Cons.prems by (simp add: same_place_def)
    ultimately show ?thesis using False by (cases e) simp_all
  qed
qed simp

lemma same_place_addr:
  "same_place v v' \<Longrightarrow> bkey_start_offset k' = bkey_start_offset k \<Longrightarrow> data_addr k v x = data_addr k' v' x"
  by (cases v; cases v') (simp add: same_place_def data_addr_def crc_is_compressed_def)

definition cut_back_key :: "bpos \<Rightarrow> bkey \<Rightarrow> bkey" where
  "cut_back_key wpos k = k\<lparr>k_p := SPOS (bp_inode (k_p k)) (bp_offset wpos) (bp_snapshot (k_p k)),
     k_size := ucast (bp_offset wpos - bkey_start_offset k)\<rparr>"

lemma cut_back_arith:
  assumes "extent_offsets_ok s" "inside wpos (bs_k s)"
  defines "len \<equiv> bp_offset wpos - bkey_start_offset (bs_k s)" and "k' \<equiv> cut_back_key wpos (bs_k s)"
  shows "len \<noteq> 0" "unat (k_size k') = unat len" "unat (k_size k') < unat (k_size (bs_k s))" "unat (k_size k') \<le> unat (bp_offset wpos)"
    "bkey_start_offset k' = bkey_start_offset (bs_k s)"
proof -
  note ar = cut_front_arith [OF assms(1,2), folded len_def]
  show "len \<noteq> 0" using ar(3) by auto
  have w: "unat (bkey_start_offset (bs_k s)) < unat (bp_offset wpos)" using assms(2) by (simp add: inside_def word_less_nat_alt)
  have sub: "unat len = unat (bp_offset wpos) - unat (bkey_start_offset (bs_k s))"
    using w by (simp add: len_def unat_sub word_le_nat_alt)
  have c: "unat (ucast len :: u32) = unat len"
    using ar(1) unsigned_less [of "k_size (bs_k s)", where ?'a = nat] by (intro unat_ucast_small) (simp del: unsigned_less)
  then show sz: "unat (k_size k') = unat len" by (simp add: k'_def cut_back_key_def len_def)
  then show "unat (k_size k') < unat (k_size (bs_k s))" "unat (k_size k') \<le> unat (bp_offset wpos)" using ar(1) sub by simp_all
  have "unat (bkey_start_offset k') = unat (bp_offset wpos) - unat len"
    using sub c by (simp add: k'_def cut_back_key_def bkey_start_offset_def len_def [unfolded bkey_start_offset_def, symmetric] unat_sub word_le_nat_alt unat_ucast_up)
  also have "\<dots> = unat (bkey_start_offset (bs_k s))" using sub w by simp
  finally show "bkey_start_offset k' = bkey_start_offset (bs_k s)" by (simp only: word_eq_iff_unsigned [where 'a = nat])
qed

lemma cut_back_result:
  assumes "extent_offsets_ok s" "inside wpos (bs_k s)" "k_type (bs_k s) = KEY_TYPE_extent \<or> k_type (bs_k s) = KEY_TYPE_reflink_v"
  shows "bch2_cut_back_s wpos s = (0, s\<lparr>bs_k := cut_back_key wpos (bs_k s)\<rparr>)"
proof -
  have "\<not> bkey_ge wpos (k_p (bs_k s))"
    using assms(2) by (auto simp: bkey_ge_def bkey_le_def inside_def)
  then show ?thesis using assms(3) cut_back_arith(1) [OF assms(1,2)] by (auto simp: bch2_cut_back_s_def Let_def cut_back_key_def)
qed

lemma unpack_sizes: "u_offset (bch2_extent_crc_unpack k' e) = u_offset (bch2_extent_crc_unpack k e) \<and>
  u_uncompressed_size (bch2_extent_crc_unpack k' e) = u_uncompressed_size (bch2_extent_crc_unpack k e)" if "extent_entry_is_crc e"
  using that by (cases e) (simp_all add: bch2_extent_crc_unpack.simps)

lemma entry_offsets_mono: "entry_offsets_ok k e \<Longrightarrow> unat (k_size k') \<le> unat (k_size k) \<Longrightarrow> entry_offsets_ok k' e"
  using unpack_sizes [of e k' k] by (cases e) auto

lemma cut_back_data:
  assumes "extent_offsets_ok s" "inside wpos (bs_k s)" "k_type (bs_k s) = KEY_TYPE_extent \<or> k_type (bs_k s) = KEY_TYPE_reflink_v"
  shows "\<exists>s'. bch2_cut_back_s wpos s = (0, s') \<and> extent_offsets_ok s' \<and>
    bkey_start_offset (bs_k s') = bkey_start_offset (bs_k s) \<and> bp_offset (k_p (bs_k s')) = bp_offset wpos \<and> k_type (bs_k s') = k_type (bs_k s) \<and>
    list_all2 (\<lambda>v v'. \<forall>x. data_addr (bs_k s) v x = data_addr (bs_k s') v' x)
      (ptr_views (bs_k s) (bs_ptrs s)) (ptr_views (bs_k s') (bs_ptrs s'))"
proof -
  define k' where "k' = cut_back_key wpos (bs_k s)"
  note ar = cut_back_arith [OF assms(1,2), folded k'_def]
  have "list_all (entry_offsets_ok k') (bs_ptrs s)"
    using assms(1) ar(3) entry_offsets_mono [of "bs_k s" _ k'] by (auto simp: extent_offsets_ok_def list_all_iff)
  moreover have "list_all2 same_place (ptr_views (bs_k s) (bs_ptrs s)) (ptr_views k' (bs_ptrs s))"
    unfolding ptr_views_def by (rule views_same_place) (simp_all add: crc_unpack_none_def)
  ultimately show ?thesis using cut_back_result [OF assms] ar(4,5)
    by (intro exI [of _ "s\<lparr>bs_k := k'\<rparr>"])
      (auto simp: k'_def [symmetric] extent_offsets_ok_def simp: k'_def cut_back_key_def intro: list_all2_mono_in same_place_addr)
qed

section \<open>Trimmed extents match\<close>

definition views_match :: "bkey \<Rightarrow> bkey \<Rightarrow> ptr_view \<Rightarrow> ptr_view \<Rightarrow> bool" where
  "views_match k1 k2 v1 v2 \<longleftrightarrow>
     (case (v1, v2) of ((c1, p1, _), (c2, p2, _)) \<Rightarrow>
        \<forall>d1 d2. d_crc d1 = c1 \<and> d_ptr d1 = p1 \<and> d_crc d2 = c2 \<and> d_ptr d2 = p2 \<longrightarrow> ptrs_match k1 k2 d1 d2)"

lemma extents_match_views:
  assumes "k_type (bs_k s) = k_type (bs_k s')" "bkey_extent_is_direct_data (bs_k s)"
    and "bkey_extent_is_unwritten (bs_ptrs s) = bkey_extent_is_unwritten (bs_ptrs s')"
    and "list_all2 (views_match (bs_k s) (bs_k s')) (ptr_views (bs_k s) (bs_ptrs s)) (ptr_views (bs_k s') (bs_ptrs s'))"
    and "ptr_views (bs_k s) (bs_ptrs s) \<noteq> []"
  shows "bch2_extents_match p0 s s'"
proof -
  let ?d = "bkey_for_each_ptr_decode (bs_k s) p0 (bs_ptrs s)" and ?d' = "bkey_for_each_ptr_decode (bs_k s') p0 (bs_ptrs s')"
  obtain v vs v' vs' where v: "ptr_views (bs_k s) (bs_ptrs s) = v # vs" "ptr_views (bs_k s') (bs_ptrs s') = v' # vs'"
    "views_match (bs_k s) (bs_k s') v v'"
    using assms(4,5) by (auto simp: neq_Nil_conv list_all2_Cons1)
  then obtain x xs x' xs' where x: "?d = x # xs" "ptr_view (fst x) = v" "?d' = x' # xs'" "ptr_view (fst x') = v'"
    using for_each_ptr_decode_views [of "bs_k s" p0 "bs_ptrs s"] for_each_ptr_decode_views [of "bs_k s'" p0 "bs_ptrs s'"]
    by (auto simp: map_eq_Cons_conv)
  have "ptrs_match (bs_k s) (bs_k s') (fst x) (fst x')" using v(3) x(2,4) by (auto simp: views_match_def ptr_view_def)
  then show ?thesis using assms(1-3) x(1,3) by (auto simp: bch2_extents_match_def split: prod.splits)
qed

lemma unwritten_views: "bkey_extent_is_unwritten es \<longleftrightarrow> (\<exists>u \<in> set (map (\<lambda>(c, p, ec). p_unwritten p) (ptr_views k es)). u \<noteq> 0)"
proof -
  have "bkey_extent_is_unwritten es \<longleftrightarrow> (\<exists>(c, p, ec) \<in> set (ptr_views k es). p_unwritten p \<noteq> 0)"
    unfolding ptrs_in_views by (simp add: bkey_extent_is_unwritten_def list_ex_iff)
  then show ?thesis by (simp add: case_prod_unfold)
qed

lemma sector_no_wrap:
  assumes "unat (p :: 44 word) + unat (n :: u32) < 2 ^ 44" "unat (m :: 'a::len word) < unat n"
  shows "ucast p \<le> (ucast p + ucast m :: u64)" "(ucast p + ucast m :: u64) < ucast p + ucast n"
proof -
  have u: "unat (ucast p :: u64) = unat p" by (simp add: unat_ucast_up)
  have n: "unat (ucast p + ucast n :: u64) = unat p + unat n" using assms(1) u by (subst unat_add_ucast) simp_all
  moreover have m: "unat (ucast p + ucast m :: u64) = unat p + unat m" using assms u by (subst unat_add_ucast) simp_all
  ultimately show "ucast p \<le> (ucast p + ucast m :: u64)" "(ucast p + ucast m :: u64) < ucast p + ucast n"
    using assms(2) u by (simp_all add: word_le_nat_alt word_less_nat_alt)
qed

lemma cut_view_match:
  assumes "cut_view sub k k' (c, p, ec) v'" "bkey_start_offset k' = bkey_start_offset k + sub" "unat sub < unat (k_size k)"
    and "unat (p_offset p) + unat (k_size k) < 2 ^ 44" "0 < u_compressed_size c"
  shows "views_match k k' (c, p, ec) v'"
  using assms(1)
proof (cases rule: cut_viewE)
  case plain
  have "(ucast (p_offset p + ucast sub) :: u64) = ucast (p_offset p) + ucast sub" by (rule ucast_add_ucast) (use assms(3,4) in simp_all)
  then show ?thesis using plain assms(2) sector_no_wrap [OF assms(4) assms(3)]
    by (simp add: views_match_def ptrs_match_def Let_def crc_unpack_none_def)
next
  case crc
  have "(ucast (u_offset c + ucast sub) :: u64) = ucast (u_offset c) + ucast sub" by (rule ucast_add_ucast) (use crc(2) in simp_all)
  moreover have "unat (ucast (p_offset p) + ucast (u_compressed_size c) :: u64) = unat (p_offset p) + unat (u_compressed_size c)"
    using unsigned_less [of "u_compressed_size c", where ?'a = nat] unsigned_less [of "p_offset p", where ?'a = nat]
    by (subst unat_add_ucast) (simp_all add: unat_ucast_up del: unsigned_less)
  ultimately show ?thesis using crc assms(2,5)
    by (simp add: views_match_def ptrs_match_def Let_def word_less_nat_alt unat_ucast_up)
qed

lemma same_place_match:
  assumes "same_place (c, p, ec) (c', p', ec')" "bkey_start_offset k' = bkey_start_offset k" "0 < u_compressed_size c'"
  shows "views_match k k' (c, p, ec) (c', p', ec')"
proof -
  have "unat (ucast (p_offset p) + ucast (u_compressed_size c') :: u64) = unat (p_offset p) + unat (u_compressed_size c')"
    using unsigned_less [of "u_compressed_size c'", where ?'a = nat] unsigned_less [of "p_offset p", where ?'a = nat]
    by (subst unat_add_ucast) (simp_all add: unat_ucast_up del: unsigned_less)
  with assms show ?thesis by (simp add: same_place_def views_match_def ptrs_match_def Let_def word_less_nat_alt unat_ucast_up)
qed

lemma unwritten_same:
  assumes "list_all2 R (ptr_views k es) (ptr_views k' es')"
    and "\<And>c p ec c' p' ec'. R (c, p, ec) (c', p', ec') \<Longrightarrow> p_unwritten p = p_unwritten p'"
  shows "bkey_extent_is_unwritten es = bkey_extent_is_unwritten es'"
proof -
  have "list_all2 (=) (map (\<lambda>(c, p, ec). p_unwritten p) (ptr_views k es)) (map (\<lambda>(c, p, ec). p_unwritten p) (ptr_views k' es'))"
    unfolding list_all2_map1 list_all2_map2 by (rule list_all2_mono [OF assms(1)]) (auto intro: assms(2))
  then have "map (\<lambda>(c, p, ec). p_unwritten p) (ptr_views k es) = map (\<lambda>(c, p, ec). p_unwritten p) (ptr_views k' es')"
    by (simp only: list_all2_eq)
  then show ?thesis unfolding unwritten_views [of es k] unwritten_views [of es' k'] by (rule arg_cong)
qed

lemma cut_front_match:
  assumes "extent_offsets_ok s" "inside wpos (bs_k s)" "k_type (bs_k s) = KEY_TYPE_extent \<or> k_type (bs_k s) = KEY_TYPE_reflink_v"
    and "ptr_views (bs_k s) (bs_ptrs s) \<noteq> []"
  shows "bch2_extents_match p0 s (snd (bch2_cut_front_s wpos s))"
proof -
  define sub where "sub = bp_offset wpos - bkey_start_offset (bs_k s)"
  define k' where "k' = cut_front_key wpos (bs_k s)"
  note ar = cut_front_arith [OF assms(1,2), folded sub_def k'_def]
  note v = cut_front_views [OF assms(1,2), folded sub_def k'_def]
  have ok: "list_all (entry_offsets_ok (bs_k s)) (bs_ptrs s)" using assms(1) by (simp add: extent_offsets_ok_def)
  have st: "bkey_start_offset k' = bkey_start_offset (bs_k s) + sub" using ar(4) by (simp add: sub_def)
  have sz: "0 < k_size (bs_k s)" using ar(1) by (simp add: word_less_nat_alt)
  have m: "list_all2 (views_match (bs_k s) k') (ptr_views (bs_k s) (bs_ptrs s)) (ptr_views k' (cut_front_entries sub False (bs_ptrs s)))"
  proof (rule list_all2_mono_in [OF v])
    fix x v' assume x: "x \<in> set (ptr_views (bs_k s) (bs_ptrs s))" "cut_view sub (bs_k s) k' x v'"
    obtain c p ec where c: "x = (c, p, ec)" using prod_cases3 by blast
    show "views_match (bs_k s) k' x v'"
      unfolding c by (rule cut_view_match [OF x(2) [unfolded c] st ar(1) ptr_offset_ok [OF ok x(1) [unfolded c]] compressed_size_pos [OF x(1) [unfolded c] sz]])
  qed
  have "bkey_extent_is_unwritten (bs_ptrs s) = bkey_extent_is_unwritten (cut_front_entries sub False (bs_ptrs s))"
    by (rule unwritten_same [OF v]) (auto elim: cut_viewE)
  moreover have "k_type k' = k_type (bs_k s)" by (simp add: k'_def cut_front_key_def)
  ultimately show ?thesis
    using m assms(3,4) cut_front_result [OF assms(1-3), folded sub_def k'_def]
    by (intro extents_match_views) (auto simp: bkey_extent_is_direct_data_def)
qed

lemma cut_back_match:
  assumes "extent_offsets_ok s" "inside wpos (bs_k s)" "k_type (bs_k s) = KEY_TYPE_extent \<or> k_type (bs_k s) = KEY_TYPE_reflink_v"
    and "ptr_views (bs_k s) (bs_ptrs s) \<noteq> []"
  shows "bch2_extents_match p0 s (snd (bch2_cut_back_s wpos s))"
proof -
  define k' where "k' = cut_back_key wpos (bs_k s)"
  note ar = cut_back_arith [OF assms(1,2), folded k'_def]
  have sz: "0 < k_size k'" using ar(1,2) by (simp add: word_gt_0 unat_eq_0 [symmetric] del: unat_eq_0)
  have v: "list_all2 same_place (ptr_views (bs_k s) (bs_ptrs s)) (ptr_views k' (bs_ptrs s))"
    unfolding ptr_views_def by (rule views_same_place) (simp_all add: crc_unpack_none_def)
  have "list_all2 (views_match (bs_k s) k') (ptr_views (bs_k s) (bs_ptrs s)) (ptr_views k' (bs_ptrs s))"
    unfolding list_all2_conv_all_nth
  proof (intro conjI allI impI)
    show l: "length (ptr_views (bs_k s) (bs_ptrs s)) = length (ptr_views k' (bs_ptrs s))" using v by (rule list_all2_lengthD)
    fix i assume i: "i < length (ptr_views (bs_k s) (bs_ptrs s))"
    obtain c p ec c' p' ec' where x: "ptr_views (bs_k s) (bs_ptrs s) ! i = (c, p, ec)" "ptr_views k' (bs_ptrs s) ! i = (c', p', ec')"
      using prod_cases3 by metis
    have "(c', p', ec') \<in> set (ptr_views k' (bs_ptrs s))" using i l x(2) by (metis nth_mem)
    from compressed_size_pos [OF this sz] list_all2_nthD [OF v i] show "views_match (bs_k s) k' (ptr_views (bs_k s) (bs_ptrs s) ! i) (ptr_views k' (bs_ptrs s) ! i)"
      unfolding x by (intro same_place_match) (simp_all add: ar(5))
  qed
  moreover have "k_type k' = k_type (bs_k s)" by (simp add: k'_def cut_back_key_def)
  ultimately show ?thesis
    using assms(3,4) cut_back_result [OF assms(1-3), folded k'_def]
    by (intro extents_match_views) (auto simp: bkey_extent_is_direct_data_def)
qed

section \<open>Properties\<close>

text \<open>C5: trimming an extent at a position inside it changes its range to start or end there and nothing
  else: the data of every sector of the file stays at the address where each pointer had it, also
  behind a checksum or compression, no offset wraps, and the value keeps its size. What is left refers to
  the same data as the extent for \<open>bch2_extents_match\<close>.\<close>

theorem trim_keeps_data:
  assumes "extent_offsets_ok s" "inside wpos (bs_k s)" "k_type (bs_k s) = KEY_TYPE_extent \<or> k_type (bs_k s) = KEY_TYPE_reflink_v"
  shows "(\<exists>s'. bch2_cut_front_s wpos s = (0, s') \<and> extent_offsets_ok s' \<and>
      bkey_start_offset (bs_k s') = bp_offset wpos \<and> k_p (bs_k s') = k_p (bs_k s) \<and> k_type (bs_k s') = k_type (bs_k s) \<and>
      list_all2 (\<lambda>v v'. \<forall>x. data_addr (bs_k s) v x = data_addr (bs_k s') v' x)
        (ptr_views (bs_k s) (bs_ptrs s)) (ptr_views (bs_k s') (bs_ptrs s'))) \<and>
    (\<exists>s'. bch2_cut_back_s wpos s = (0, s') \<and> extent_offsets_ok s' \<and>
      bkey_start_offset (bs_k s') = bkey_start_offset (bs_k s) \<and> bp_offset (k_p (bs_k s')) = bp_offset wpos \<and> k_type (bs_k s') = k_type (bs_k s) \<and>
      list_all2 (\<lambda>v v'. \<forall>x. data_addr (bs_k s) v x = data_addr (bs_k s') v' x)
        (ptr_views (bs_k s) (bs_ptrs s)) (ptr_views (bs_k s') (bs_ptrs s'))) \<and>
    (ptr_views (bs_k s) (bs_ptrs s) \<noteq> [] \<longrightarrow>
      bch2_extents_match p0 s (snd (bch2_cut_front_s wpos s)) \<and> bch2_extents_match p0 s (snd (bch2_cut_back_s wpos s)))"
  using cut_front_data [OF assms] cut_back_data [OF assms] cut_front_match [OF assms] cut_back_match [OF assms] by blast

lemma example_trim:
  "extent_offsets_ok example_extent" "inside (SPOS 1 5 0) (bs_k example_extent)"
  "k_type (bs_k example_extent) = KEY_TYPE_extent \<or> k_type (bs_k example_extent) = KEY_TYPE_reflink_v"
  "ptr_views (bs_k example_extent) (bs_ptrs example_extent) \<noteq> []"
  by (simp_all add: extent_offsets_ok_def example_extent_def example_entries_def example_ptr_def inside_def
    bkey_start_offset_def bch2_extent_crc_unpack.simps ptr_views_def)

theorem trim_keeps_data_witness:
  "\<exists>s'. bch2_cut_front_s (SPOS 1 5 0) example_extent = (0, s') \<and> bkey_start_offset (bs_k s') = 5 \<and>
    list_all2 (\<lambda>v v'. \<forall>x. data_addr (bs_k example_extent) v x = data_addr (bs_k s') v' x)
      (ptr_views (bs_k example_extent) (bs_ptrs example_extent)) (ptr_views (bs_k s') (bs_ptrs s')) \<and>
    bch2_extents_match example_decoded example_extent s'"
  using trim_keeps_data [OF example_trim(1-3), of example_decoded] example_trim(4) by auto

end
