(* ===== verification/Crc_Tables.thy ===== *)
theory Crc_Tables
  imports Bch_Prelude
begin

text \<open>
  The lookup tables of the two cyclic redundancy checks, as the code has them
  (\<^verbatim>\<open>linux/crc64table.h\<close>, \<^verbatim>\<open>c_src/tools-util.c\<close>), and that each entry is the remainder of its
  index by the polynomial: eight shifts by one bit.
\<close>

definition crc64table :: "u64 list" where
  "crc64table =
    [0x0000000000000000, 0x42f0e1eba9ea3693, 0x85e1c3d753d46d26, 0xc711223cfa3e5bb5,
     0x493366450e42ecdf, 0x0bc387aea7a8da4c, 0xccd2a5925d9681f9, 0x8e224479f47cb76a,
     0x9266cc8a1c85d9be, 0xd0962d61b56fef2d, 0x17870f5d4f51b498, 0x5577eeb6e6bb820b,
     0xdb55aacf12c73561, 0x99a54b24bb2d03f2, 0x5eb4691841135847, 0x1c4488f3e8f96ed4,
     0x663d78ff90e185ef, 0x24cd9914390bb37c, 0xe3dcbb28c335e8c9, 0xa12c5ac36adfde5a,
     0x2f0e1eba9ea36930, 0x6dfeff5137495fa3, 0xaaefdd6dcd770416, 0xe81f3c86649d3285,
     0xf45bb4758c645c51, 0xb6ab559e258e6ac2, 0x71ba77a2dfb03177, 0x334a9649765a07e4,
     0xbd68d2308226b08e, 0xff9833db2bcc861d, 0x388911e7d1f2dda8, 0x7a79f00c7818eb3b,
     0xcc7af1ff21c30bde, 0x8e8a101488293d4d, 0x499b3228721766f8, 0x0b6bd3c3dbfd506b,
     0x854997ba2f81e701, 0xc7b97651866bd192, 0x00a8546d7c558a27, 0x4258b586d5bfbcb4,
     0x5e1c3d753d46d260, 0x1cecdc9e94ace4f3, 0xdbfdfea26e92bf46, 0x990d1f49c77889d5,
     0x172f5b3033043ebf, 0x55dfbadb9aee082c, 0x92ce98e760d05399, 0xd03e790cc93a650a,
     0xaa478900b1228e31, 0xe8b768eb18c8b8a2, 0x2fa64ad7e2f6e317, 0x6d56ab3c4b1cd584,
     0xe374ef45bf6062ee, 0xa1840eae168a547d, 0x66952c92ecb40fc8, 0x2465cd79455e395b,
     0x3821458aada7578f, 0x7ad1a461044d611c, 0xbdc0865dfe733aa9, 0xff3067b657990c3a,
     0x711223cfa3e5bb50, 0x33e2c2240a0f8dc3, 0xf4f3e018f031d676, 0xb60301f359dbe0e5,
     0xda050215ea6c212f, 0x98f5e3fe438617bc, 0x5fe4c1c2b9b84c09, 0x1d14202910527a9a,
     0x93366450e42ecdf0, 0xd1c685bb4dc4fb63, 0x16d7a787b7faa0d6, 0x5427466c1e109645,
     0x4863ce9ff6e9f891, 0x0a932f745f03ce02, 0xcd820d48a53d95b7, 0x8f72eca30cd7a324,
     0x0150a8daf8ab144e, 0x43a04931514122dd, 0x84b16b0dab7f7968, 0xc6418ae602954ffb,
     0xbc387aea7a8da4c0, 0xfec89b01d3679253, 0x39d9b93d2959c9e6, 0x7b2958d680b3ff75,
     0xf50b1caf74cf481f, 0xb7fbfd44dd257e8c, 0x70eadf78271b2539, 0x321a3e938ef113aa,
     0x2e5eb66066087d7e, 0x6cae578bcfe24bed, 0xabbf75b735dc1058, 0xe94f945c9c3626cb,
     0x676dd025684a91a1, 0x259d31cec1a0a732, 0xe28c13f23b9efc87, 0xa07cf2199274ca14,
     0x167ff3eacbaf2af1, 0x548f120162451c62, 0x939e303d987b47d7, 0xd16ed1d631917144,
     0x5f4c95afc5edc62e, 0x1dbc74446c07f0bd, 0xdaad56789639ab08, 0x985db7933fd39d9b,
     0x84193f60d72af34f, 0xc6e9de8b7ec0c5dc, 0x01f8fcb784fe9e69, 0x43081d5c2d14a8fa,
     0xcd2a5925d9681f90, 0x8fdab8ce70822903, 0x48cb9af28abc72b6, 0x0a3b7b1923564425,
     0x70428b155b4eaf1e, 0x32b26afef2a4998d, 0xf5a348c2089ac238, 0xb753a929a170f4ab,
     0x3971ed50550c43c1, 0x7b810cbbfce67552, 0xbc902e8706d82ee7, 0xfe60cf6caf321874,
     0xe224479f47cb76a0, 0xa0d4a674ee214033, 0x67c58448141f1b86, 0x253565a3bdf52d15,
     0xab1721da49899a7f, 0xe9e7c031e063acec, 0x2ef6e20d1a5df759, 0x6c0603e6b3b7c1ca,
     0xf6fae5c07d3274cd, 0xb40a042bd4d8425e, 0x731b26172ee619eb, 0x31ebc7fc870c2f78,
     0xbfc9838573709812, 0xfd39626eda9aae81, 0x3a28405220a4f534, 0x78d8a1b9894ec3a7,
     0x649c294a61b7ad73, 0x266cc8a1c85d9be0, 0xe17dea9d3263c055, 0xa38d0b769b89f6c6,
     0x2daf4f0f6ff541ac, 0x6f5faee4c61f773f, 0xa84e8cd83c212c8a, 0xeabe6d3395cb1a19,
     0x90c79d3fedd3f122, 0xd2377cd44439c7b1, 0x15265ee8be079c04, 0x57d6bf0317edaa97,
     0xd9f4fb7ae3911dfd, 0x9b041a914a7b2b6e, 0x5c1538adb04570db, 0x1ee5d94619af4648,
     0x02a151b5f156289c, 0x4051b05e58bc1e0f, 0x87409262a28245ba, 0xc5b073890b687329,
     0x4b9237f0ff14c443, 0x0962d61b56fef2d0, 0xce73f427acc0a965, 0x8c8315cc052a9ff6,
     0x3a80143f5cf17f13, 0x7870f5d4f51b4980, 0xbf61d7e80f251235, 0xfd913603a6cf24a6,
     0x73b3727a52b393cc, 0x31439391fb59a55f, 0xf652b1ad0167feea, 0xb4a25046a88dc879,
     0xa8e6d8b54074a6ad, 0xea16395ee99e903e, 0x2d071b6213a0cb8b, 0x6ff7fa89ba4afd18,
     0xe1d5bef04e364a72, 0xa3255f1be7dc7ce1, 0x64347d271de22754, 0x26c49cccb40811c7,
     0x5cbd6cc0cc10fafc, 0x1e4d8d2b65facc6f, 0xd95caf179fc497da, 0x9bac4efc362ea149,
     0x158e0a85c2521623, 0x577eeb6e6bb820b0, 0x906fc95291867b05, 0xd29f28b9386c4d96,
     0xcedba04ad0952342, 0x8c2b41a1797f15d1, 0x4b3a639d83414e64, 0x09ca82762aab78f7,
     0x87e8c60fded7cf9d, 0xc51827e4773df90e, 0x020905d88d03a2bb, 0x40f9e43324e99428,
     0x2cffe7d5975e55e2, 0x6e0f063e3eb46371, 0xa91e2402c48a38c4, 0xebeec5e96d600e57,
     0x65cc8190991cb93d, 0x273c607b30f68fae, 0xe02d4247cac8d41b, 0xa2dda3ac6322e288,
     0xbe992b5f8bdb8c5c, 0xfc69cab42231bacf, 0x3b78e888d80fe17a, 0x7988096371e5d7e9,
     0xf7aa4d1a85996083, 0xb55aacf12c735610, 0x724b8ecdd64d0da5, 0x30bb6f267fa73b36,
     0x4ac29f2a07bfd00d, 0x08327ec1ae55e69e, 0xcf235cfd546bbd2b, 0x8dd3bd16fd818bb8,
     0x03f1f96f09fd3cd2, 0x41011884a0170a41, 0x86103ab85a2951f4, 0xc4e0db53f3c36767,
     0xd8a453a01b3a09b3, 0x9a54b24bb2d03f20, 0x5d45907748ee6495, 0x1fb5719ce1045206,
     0x919735e51578e56c, 0xd367d40ebc92d3ff, 0x1476f63246ac884a, 0x568617d9ef46bed9,
     0xe085162ab69d5e3c, 0xa275f7c11f7768af, 0x6564d5fde549331a, 0x279434164ca30589,
     0xa9b6706fb8dfb2e3, 0xeb46918411358470, 0x2c57b3b8eb0bdfc5, 0x6ea7525342e1e956,
     0x72e3daa0aa188782, 0x30133b4b03f2b111, 0xf7021977f9cceaa4, 0xb5f2f89c5026dc37,
     0x3bd0bce5a45a6b5d, 0x79205d0e0db05dce, 0xbe317f32f78e067b, 0xfcc19ed95e6430e8,
     0x86b86ed5267cdbd3, 0xc4488f3e8f96ed40, 0x0359ad0275a8b6f5, 0x41a94ce9dc428066,
     0xcf8b0890283e370c, 0x8d7be97b81d4019f, 0x4a6acb477bea5a2a, 0x089a2aacd2006cb9,
     0x14dea25f3af9026d, 0x562e43b4931334fe, 0x913f6188692d6f4b, 0xd3cf8063c0c759d8,
     0x5dedc41a34bbeeb2, 0x1f1d25f19d51d821, 0xd80c07cd676f8394, 0x9afce626ce85b507]"

definition crc32c_tab :: "u32 list" where
  "crc32c_tab =
    [0x00000000, 0xf26b8303, 0xe13b70f7, 0x1350f3f4, 0xc79a971f, 0x35f1141c,
     0x26a1e7e8, 0xd4ca64eb, 0x8ad958cf, 0x78b2dbcc, 0x6be22838, 0x9989ab3b,
     0x4d43cfd0, 0xbf284cd3, 0xac78bf27, 0x5e133c24, 0x105ec76f, 0xe235446c,
     0xf165b798, 0x030e349b, 0xd7c45070, 0x25afd373, 0x36ff2087, 0xc494a384,
     0x9a879fa0, 0x68ec1ca3, 0x7bbcef57, 0x89d76c54, 0x5d1d08bf, 0xaf768bbc,
     0xbc267848, 0x4e4dfb4b, 0x20bd8ede, 0xd2d60ddd, 0xc186fe29, 0x33ed7d2a,
     0xe72719c1, 0x154c9ac2, 0x061c6936, 0xf477ea35, 0xaa64d611, 0x580f5512,
     0x4b5fa6e6, 0xb93425e5, 0x6dfe410e, 0x9f95c20d, 0x8cc531f9, 0x7eaeb2fa,
     0x30e349b1, 0xc288cab2, 0xd1d83946, 0x23b3ba45, 0xf779deae, 0x05125dad,
     0x1642ae59, 0xe4292d5a, 0xba3a117e, 0x4851927d, 0x5b016189, 0xa96ae28a,
     0x7da08661, 0x8fcb0562, 0x9c9bf696, 0x6ef07595, 0x417b1dbc, 0xb3109ebf,
     0xa0406d4b, 0x522bee48, 0x86e18aa3, 0x748a09a0, 0x67dafa54, 0x95b17957,
     0xcba24573, 0x39c9c670, 0x2a993584, 0xd8f2b687, 0x0c38d26c, 0xfe53516f,
     0xed03a29b, 0x1f682198, 0x5125dad3, 0xa34e59d0, 0xb01eaa24, 0x42752927,
     0x96bf4dcc, 0x64d4cecf, 0x77843d3b, 0x85efbe38, 0xdbfc821c, 0x2997011f,
     0x3ac7f2eb, 0xc8ac71e8, 0x1c661503, 0xee0d9600, 0xfd5d65f4, 0x0f36e6f7,
     0x61c69362, 0x93ad1061, 0x80fde395, 0x72966096, 0xa65c047d, 0x5437877e,
     0x4767748a, 0xb50cf789, 0xeb1fcbad, 0x197448ae, 0x0a24bb5a, 0xf84f3859,
     0x2c855cb2, 0xdeeedfb1, 0xcdbe2c45, 0x3fd5af46, 0x7198540d, 0x83f3d70e,
     0x90a324fa, 0x62c8a7f9, 0xb602c312, 0x44694011, 0x5739b3e5, 0xa55230e6,
     0xfb410cc2, 0x092a8fc1, 0x1a7a7c35, 0xe811ff36, 0x3cdb9bdd, 0xceb018de,
     0xdde0eb2a, 0x2f8b6829, 0x82f63b78, 0x709db87b, 0x63cd4b8f, 0x91a6c88c,
     0x456cac67, 0xb7072f64, 0xa457dc90, 0x563c5f93, 0x082f63b7, 0xfa44e0b4,
     0xe9141340, 0x1b7f9043, 0xcfb5f4a8, 0x3dde77ab, 0x2e8e845f, 0xdce5075c,
     0x92a8fc17, 0x60c37f14, 0x73938ce0, 0x81f80fe3, 0x55326b08, 0xa759e80b,
     0xb4091bff, 0x466298fc, 0x1871a4d8, 0xea1a27db, 0xf94ad42f, 0x0b21572c,
     0xdfeb33c7, 0x2d80b0c4, 0x3ed04330, 0xccbbc033, 0xa24bb5a6, 0x502036a5,
     0x4370c551, 0xb11b4652, 0x65d122b9, 0x97baa1ba, 0x84ea524e, 0x7681d14d,
     0x2892ed69, 0xdaf96e6a, 0xc9a99d9e, 0x3bc21e9d, 0xef087a76, 0x1d63f975,
     0x0e330a81, 0xfc588982, 0xb21572c9, 0x407ef1ca, 0x532e023e, 0xa145813d,
     0x758fe5d6, 0x87e466d5, 0x94b49521, 0x66df1622, 0x38cc2a06, 0xcaa7a905,
     0xd9f75af1, 0x2b9cd9f2, 0xff56bd19, 0x0d3d3e1a, 0x1e6dcdee, 0xec064eed,
     0xc38d26c4, 0x31e6a5c7, 0x22b65633, 0xd0ddd530, 0x0417b1db, 0xf67c32d8,
     0xe52cc12c, 0x1747422f, 0x49547e0b, 0xbb3ffd08, 0xa86f0efc, 0x5a048dff,
     0x8ecee914, 0x7ca56a17, 0x6ff599e3, 0x9d9e1ae0, 0xd3d3e1ab, 0x21b862a8,
     0x32e8915c, 0xc083125f, 0x144976b4, 0xe622f5b7, 0xf5720643, 0x07198540,
     0x590ab964, 0xab613a67, 0xb831c993, 0x4a5a4a90, 0x9e902e7b, 0x6cfbad78,
     0x7fab5e8c, 0x8dc0dd8f, 0xe330a81a, 0x115b2b19, 0x020bd8ed, 0xf0605bee,
     0x24aa3f05, 0xd6c1bc06, 0xc5914ff2, 0x37faccf1, 0x69e9f0d5, 0x9b8273d6,
     0x88d28022, 0x7ab90321, 0xae7367ca, 0x5c18e4c9, 0x4f48173d, 0xbd23943e,
     0xf36e6f75, 0x0105ec76, 0x12551f82, 0xe03e9c81, 0x34f4f86a, 0xc69f7b69,
     0xd5cf889d, 0x27a40b9e, 0x79b737ba, 0x8bdcb4b9, 0x988c474d, 0x6ae7c44e,
     0xbe2da0a5, 0x4c4623a6, 0x5f16d052, 0xad7d5351]"

text \<open>One bit of the division: most significant bit first for ECMA-182, least significant first for Castagnoli.\<close>

definition crc64_shift :: "u64 \<Rightarrow> u64" where
  "crc64_shift x = (if bit x 63 then push_bit 1 x XOR 0x42f0e1eba9ea3693 else push_bit 1 x)"

definition crc32c_shift :: "u32 \<Rightarrow> u32" where
  "crc32c_shift x = (if bit x 0 then drop_bit 1 x XOR 0x82f63b78 else drop_bit 1 x)"

definition crc64_entry :: "u8 \<Rightarrow> u64" where
  "crc64_entry i = (crc64_shift ^^ 8) (push_bit 56 (ucast i))"

definition crc32c_entry :: "u8 \<Rightarrow> u32" where
  "crc32c_entry i = (crc32c_shift ^^ 8) (ucast i)"

section \<open>The tables are generated by eight entries\<close>

definition xor_span :: "'a::len word list \<Rightarrow> 'a word list" where
  "xor_span es = foldl (\<lambda>t e. t @ map (\<lambda>x. e XOR x) t) [0] es"

lemma funpow_8: "(f ^^ 8) x = f (f (f (f (f (f (f (f x)))))))"
  by (simp add: numeral_eq_Suc)

lemma crc64_basis:
  "crc64_entry 1 = 0x42f0e1eba9ea3693" "crc64_entry 2 = 0x85e1c3d753d46d26" "crc64_entry 4 = 0x493366450e42ecdf"
  "crc64_entry 8 = 0x9266cc8a1c85d9be" "crc64_entry 16 = 0x663d78ff90e185ef" "crc64_entry 32 = 0xcc7af1ff21c30bde"
  "crc64_entry 64 = 0xda050215ea6c212f" "crc64_entry 128 = 0xf6fae5c07d3274cd"
  by (simp_all add: crc64_entry_def crc64_shift_def funpow_8)

lemma crc32c_basis:
  "crc32c_entry 1 = 0xf26b8303" "crc32c_entry 2 = 0xe13b70f7" "crc32c_entry 4 = 0xc79a971f" "crc32c_entry 8 = 0x8ad958cf"
  "crc32c_entry 16 = 0x105ec76f" "crc32c_entry 32 = 0x20bd8ede" "crc32c_entry 64 = 0x417b1dbc" "crc32c_entry 128 = 0x82f63b78"
  by (simp_all add: crc32c_entry_def crc32c_shift_def funpow_8)

lemma crc64table_span:
  "crc64table = xor_span [0x42f0e1eba9ea3693, 0x85e1c3d753d46d26, 0x493366450e42ecdf, 0x9266cc8a1c85d9be, 0x663d78ff90e185ef,
     0xcc7af1ff21c30bde, 0xda050215ea6c212f, 0xf6fae5c07d3274cd]"
  by (simp add: xor_span_def crc64table_def)

lemma crc32c_tab_span:
  "crc32c_tab = xor_span [0xf26b8303, 0xe13b70f7, 0xc79a971f, 0x8ad958cf, 0x105ec76f, 0x20bd8ede, 0x417b1dbc, 0x82f63b78]"
  by (simp add: xor_span_def crc32c_tab_def)

section \<open>Entries are remainders\<close>

lemma crc64_shift_xor: "crc64_shift (a XOR b) = crc64_shift a XOR crc64_shift b"
  by (simp add: crc64_shift_def bit_xor_iff push_bit_xor xor.assoc xor.commute xor.left_commute)

lemma crc32c_shift_xor: "crc32c_shift (a XOR b) = crc32c_shift a XOR crc32c_shift b"
  by (simp add: crc32c_shift_def bit_xor_iff drop_bit_xor xor.assoc xor.commute xor.left_commute)

lemma crc64_entry_xor: "crc64_entry (a XOR b) = crc64_entry a XOR crc64_entry b"
proof -
  have "(crc64_shift ^^ n) (x XOR y) = (crc64_shift ^^ n) x XOR (crc64_shift ^^ n) y" for n x y
    by (induction n) (simp_all add: crc64_shift_xor)
  then show ?thesis by (simp add: crc64_entry_def push_bit_xor unsigned_xor_eq)
qed

lemma crc32c_entry_xor: "crc32c_entry (a XOR b) = crc32c_entry a XOR crc32c_entry b"
proof -
  have "(crc32c_shift ^^ n) (x XOR y) = (crc32c_shift ^^ n) x XOR (crc32c_shift ^^ n) y" for n x y
    by (induction n) (simp_all add: crc32c_shift_xor)
  then show ?thesis by (simp add: crc32c_entry_def unsigned_xor_eq)
qed

lemma xor_span_entries:
  fixes f :: "u8 \<Rightarrow> 'a::len word"
  assumes lin: "\<And>a b. f (a XOR b) = f a XOR f b" and "k \<le> 8"
  shows "xor_span (map (\<lambda>j. f (2 ^ j)) [0..<k]) = map (\<lambda>i. f (word_of_nat i)) [0..<2 ^ k]"
  using assms(2)
proof (induction k)
  case 0
  show ?case using lin [of 0 0] by (simp add: xor_span_def)
next
  case (Suc k)
  have "f (2 ^ k) XOR f (word_of_nat i) = f (word_of_nat (2 ^ k + i))" if "i < 2 ^ k" for i
  proof -
    have "(2 ^ k :: nat) + i = 2 ^ k XOR i"
    proof (rule disjunctive_add_eq_xor)
      show "(2 ^ k :: nat) AND i = 0"
        using that by (simp add: and.commute [of "2 ^ k"] and_exp_eq_0_iff_not_bit bit_iff_odd)
    qed
    then show ?thesis by (simp flip: lin add: of_nat_xor_eq)
  qed
  then have "map (\<lambda>i. f (2 ^ k) XOR f (word_of_nat i)) [0..<2 ^ k] = map (\<lambda>i. f (word_of_nat i)) [2 ^ k..<2 ^ k + 2 ^ k]"
    by (intro nth_equalityI) (auto simp: add.commute)
  moreover have "[0..<2 ^ Suc k] = [0..<2 ^ k] @ [2 ^ k..<2 ^ k + 2 ^ k :: nat]"
    using upt_add_eq_append [of 0 "2 ^ k" "2 ^ k"] by (simp add: mult_2)
  ultimately show ?case using Suc by (simp add: xor_span_def comp_def)
qed

lemma upt_8: "[0..<8] = [0, 1, 2, 3, 4, 5, 6, 7 :: nat]"
  by (simp add: upt_rec)

lemma table_lookup: "map (\<lambda>i. f (word_of_nat i)) [0..<256] ! unat (i :: u8) = f i"
  using unsigned_less [of i, where ?'a = nat] by (simp del: unsigned_less)

lemma crc64table_entry: "crc64table ! unat (i :: u8) = crc64_entry i"
  using xor_span_entries [of crc64_entry 8] crc64_entry_xor table_lookup [of crc64_entry i]
  by (simp add: crc64table_span upt_8 crc64_basis)

lemma crc32c_tab_entry: "crc32c_tab ! unat (i :: u8) = crc32c_entry i"
  using xor_span_entries [of crc32c_entry 8] crc32c_entry_xor table_lookup [of crc32c_entry i]
  by (simp add: crc32c_tab_span upt_8 crc32c_basis)

lemma length_crc_tables: "length crc64table = 256" "length crc32c_tab = 256"
  by (simp_all add: crc64table_def crc32c_tab_def)

end
