(* ===== verification/Xxhash.thy ===== *)
theory Xxhash
  imports Varint
begin

text \<open>
  The xxHash functions of \<^verbatim>\<open>linux/xxhash.c\<close>, which \<^verbatim>\<open>libbcachefs/checksum.c\<close> uses for the checksum type
  \<open>xxhash\<close>: \<open>xxh32\<close> and \<open>xxh64\<close> over a buffer, and the streaming interface (\<open>reset\<close>,
  \<open>update\<close>, \<open>digest\<close>), which keeps an incomplete block in a buffer of 16 or 32 bytes.

  A pointer into a buffer and the end of the buffer are the list of the bytes between them; a null
  pointer is \<open>None\<close>. The four accumulators are a tuple. The locale \<open>block_hash\<close> is what the streaming
  interfaces rely on: the accumulators take in one block of a fixed size at a time. The theory shows that hashing a
  buffer in pieces gives the hash of the whole.
\<close>

unbundle bit_operations_syntax

section \<open>Rounds\<close>

definition xxh_rotl32 :: "u32 \<Rightarrow> nat \<Rightarrow> u32" where
  "xxh_rotl32 x r = push_bit r x OR drop_bit (32 - r) x"

definition xxh_rotl64 :: "u64 \<Rightarrow> nat \<Rightarrow> u64" where
  "xxh_rotl64 x r = push_bit r x OR drop_bit (64 - r) x"

definition PRIME32_1 :: u32 where "PRIME32_1 = 2654435761"
definition PRIME32_2 :: u32 where "PRIME32_2 = 2246822519"
definition PRIME32_3 :: u32 where "PRIME32_3 = 3266489917"
definition PRIME32_4 :: u32 where "PRIME32_4 = 668265263"
definition PRIME32_5 :: u32 where "PRIME32_5 = 374761393"
definition PRIME64_1 :: u64 where "PRIME64_1 = 11400714785074694791"
definition PRIME64_2 :: u64 where "PRIME64_2 = 14029467366897019727"
definition PRIME64_3 :: u64 where "PRIME64_3 = 1609587929392839161"
definition PRIME64_4 :: u64 where "PRIME64_4 = 9650029242287828579"
definition PRIME64_5 :: u64 where "PRIME64_5 = 2870177450012600261"

definition get_unaligned_le32 :: "u8 list \<Rightarrow> u32" where
  "get_unaligned_le32 p = word_of_nat (le_nat (take 4 p))"

definition xxh32_round :: "u32 \<Rightarrow> u32 \<Rightarrow> u32" where
  "xxh32_round seed input =
     (let seed = seed + input * PRIME32_2;
          seed = xxh_rotl32 seed 13;
          seed = seed * PRIME32_1
      in seed)"

definition xxh64_round :: "u64 \<Rightarrow> u64 \<Rightarrow> u64" where
  "xxh64_round acc input =
     (let acc = acc + input * PRIME64_2;
          acc = xxh_rotl64 acc 31;
          acc = acc * PRIME64_1
      in acc)"

definition xxh64_merge_round :: "u64 \<Rightarrow> u64 \<Rightarrow> u64" where
  "xxh64_merge_round acc val =
     (let val = xxh64_round 0 val;
          acc = acc XOR val;
          acc = acc * PRIME64_1 + PRIME64_4
      in acc)"

type_synonym lanes32 = "u32 \<times> u32 \<times> u32 \<times> u32"
type_synonym lanes64 = "u64 \<times> u64 \<times> u64 \<times> u64"

text \<open>The body of the loops over blocks, and of the step for a full buffer in the streaming interface.\<close>

fun xxh32_block :: "lanes32 \<Rightarrow> u8 list \<Rightarrow> lanes32" where
  "xxh32_block (v1, v2, v3, v4) p =
     (xxh32_round v1 (get_unaligned_le32 p), xxh32_round v2 (get_unaligned_le32 (drop 4 p)),
      xxh32_round v3 (get_unaligned_le32 (drop 8 p)), xxh32_round v4 (get_unaligned_le32 (drop 12 p)))"

fun xxh64_block :: "lanes64 \<Rightarrow> u8 list \<Rightarrow> lanes64" where
  "xxh64_block (v1, v2, v3, v4) p =
     (xxh64_round v1 (get_unaligned_le64 p), xxh64_round v2 (get_unaligned_le64 (drop 8 p)),
      xxh64_round v3 (get_unaligned_le64 (drop 16 p)), xxh64_round v4 (get_unaligned_le64 (drop 24 p)))"

text \<open>The loops: \<open>do { ... } while (p <= limit)\<close>, where \<open>limit\<close> is one block before the end.\<close>

function xxh32_loop :: "lanes32 \<Rightarrow> u8 list \<Rightarrow> lanes32 \<times> u8 list" where
  "xxh32_loop v p =
     (let v = xxh32_block v p; p = drop 16 p in if 16 \<le> length p then xxh32_loop v p else (v, p))"
  by pat_completeness auto
termination by (relation "measure (\<lambda>(v, p). length p)") auto

function xxh64_loop :: "lanes64 \<Rightarrow> u8 list \<Rightarrow> lanes64 \<times> u8 list" where
  "xxh64_loop v p =
     (let v = xxh64_block v p; p = drop 32 p in if 32 \<le> length p then xxh64_loop v p else (v, p))"
  by pat_completeness auto
termination by (relation "measure (\<lambda>(v, p). length p)") auto

declare xxh32_loop.simps [simp del] xxh64_loop.simps [simp del]

section \<open>The bytes after the last block\<close>

function xxh32_tail_words :: "u32 \<Rightarrow> u8 list \<Rightarrow> u32 \<times> u8 list" where
  "xxh32_tail_words h32 p =
     (if 4 \<le> length p
      then let h32 = h32 + get_unaligned_le32 p * PRIME32_3;
               h32 = xxh_rotl32 h32 17 * PRIME32_4
           in xxh32_tail_words h32 (drop 4 p)
      else (h32, p))"
  by pat_completeness auto
termination by (relation "measure (\<lambda>(h, p). length p)") auto

fun xxh32_tail_bytes :: "u32 \<Rightarrow> u8 list \<Rightarrow> u32" where
  "xxh32_tail_bytes h32 [] = h32"
| "xxh32_tail_bytes h32 (b # p) =
     (let h32 = h32 + ucast b * PRIME32_5;
          h32 = xxh_rotl32 h32 11 * PRIME32_1
      in xxh32_tail_bytes h32 p)"

definition xxh32_finish :: "u32 \<Rightarrow> u8 list \<Rightarrow> u32" where
  "xxh32_finish h32 p =
     (let (h32, p) = xxh32_tail_words h32 p;
          h32 = xxh32_tail_bytes h32 p;
          h32 = h32 XOR drop_bit 15 h32;
          h32 = h32 * PRIME32_2;
          h32 = h32 XOR drop_bit 13 h32;
          h32 = h32 * PRIME32_3;
          h32 = h32 XOR drop_bit 16 h32
      in h32)"

function xxh64_tail_words :: "u64 \<Rightarrow> u8 list \<Rightarrow> u64 \<times> u8 list" where
  "xxh64_tail_words h64 p =
     (if 8 \<le> length p
      then let k1 = xxh64_round 0 (get_unaligned_le64 p);
               h64 = h64 XOR k1;
               h64 = xxh_rotl64 h64 27 * PRIME64_1 + PRIME64_4
           in xxh64_tail_words h64 (drop 8 p)
      else (h64, p))"
  by pat_completeness auto
termination by (relation "measure (\<lambda>(h, p). length p)") auto

declare xxh32_tail_words.simps [simp del] xxh64_tail_words.simps [simp del]

definition xxh64_tail_half :: "u64 \<Rightarrow> u8 list \<Rightarrow> u64 \<times> u8 list" where
  "xxh64_tail_half h64 p =
     (if 4 \<le> length p
      then let h64 = h64 XOR ucast (get_unaligned_le32 p) * PRIME64_1;
               h64 = xxh_rotl64 h64 23 * PRIME64_2 + PRIME64_3
           in (h64, drop 4 p)
      else (h64, p))"

fun xxh64_tail_bytes :: "u64 \<Rightarrow> u8 list \<Rightarrow> u64" where
  "xxh64_tail_bytes h64 [] = h64"
| "xxh64_tail_bytes h64 (b # p) =
     (let h64 = h64 XOR ucast b * PRIME64_5;
          h64 = xxh_rotl64 h64 11 * PRIME64_1
      in xxh64_tail_bytes h64 p)"

definition xxh64_finish :: "u64 \<Rightarrow> u8 list \<Rightarrow> u64" where
  "xxh64_finish h64 p =
     (let (h64, p) = xxh64_tail_words h64 p;
          (h64, p) = xxh64_tail_half h64 p;
          h64 = xxh64_tail_bytes h64 p;
          h64 = h64 XOR drop_bit 33 h64;
          h64 = h64 * PRIME64_2;
          h64 = h64 XOR drop_bit 29 h64;
          h64 = h64 * PRIME64_3;
          h64 = h64 XOR drop_bit 32 h64
      in h64)"

section \<open>Hashing a buffer\<close>

fun xxh32_converge :: "lanes32 \<Rightarrow> u32" where
  "xxh32_converge (v1, v2, v3, v4) = xxh_rotl32 v1 1 + xxh_rotl32 v2 7 + xxh_rotl32 v3 12 + xxh_rotl32 v4 18"

fun xxh64_converge :: "lanes64 \<Rightarrow> u64" where
  "xxh64_converge (v1, v2, v3, v4) =
     (let h64 = xxh_rotl64 v1 1 + xxh_rotl64 v2 7 + xxh_rotl64 v3 12 + xxh_rotl64 v4 18;
          h64 = xxh64_merge_round h64 v1;
          h64 = xxh64_merge_round h64 v2;
          h64 = xxh64_merge_round h64 v3;
          h64 = xxh64_merge_round h64 v4
      in h64)"

definition xxh32 :: "u8 list \<Rightarrow> u32 \<Rightarrow> u32" where
  "xxh32 input seed =
     (let len = length input;
          (h32, p) = (if 16 \<le> len
            then let (v, p) = xxh32_loop (seed + PRIME32_1 + PRIME32_2, seed + PRIME32_2, seed + 0, seed - PRIME32_1) input
                 in (xxh32_converge v, p)
            else (seed + PRIME32_5, input));
          h32 = h32 + of_nat len
      in xxh32_finish h32 p)"

definition xxh64 :: "u8 list \<Rightarrow> u64 \<Rightarrow> u64" where
  "xxh64 input seed =
     (let len = length input;
          (h64, p) = (if 32 \<le> len
            then let (v, p) = xxh64_loop (seed + PRIME64_1 + PRIME64_2, seed + PRIME64_2, seed + 0, seed - PRIME64_1) input
                 in (xxh64_converge v, p)
            else (seed + PRIME64_5, input));
          h64 = h64 + of_nat len
      in xxh64_finish h64 p)"

section \<open>The streaming interface\<close>

text \<open>The words \<open>v1\<close> to \<open>v4\<close> of the state are one tuple; the buffers \<open>mem32\<close> and \<open>mem64\<close> are their bytes.\<close>

record xxh32_state =
  total_len_32 :: u32
  large_len :: bool
  v32 :: lanes32
  mem32 :: "u8 list"
  memsize32 :: u32

record xxh64_state =
  total_len :: u64
  v64 :: lanes64
  mem64 :: "u8 list"
  memsize64 :: u32

definition EINVAL :: int where "EINVAL = 22"

text \<open>\<open>memcpy\<close> of \<open>xs\<close> to offset \<open>i\<close> of a buffer.\<close>

definition mem_put :: "u8 list \<Rightarrow> nat \<Rightarrow> u8 list \<Rightarrow> u8 list" where
  "mem_put mem i xs = take i mem @ xs @ drop (i + length xs) mem"

definition xxh32_reset :: "u32 \<Rightarrow> xxh32_state" where
  "xxh32_reset seed =
     \<lparr>total_len_32 = 0, large_len = False, v32 = (seed + PRIME32_1 + PRIME32_2, seed + PRIME32_2, seed + 0, seed - PRIME32_1),
      mem32 = replicate 16 0, memsize32 = 0\<rparr>"

definition xxh64_reset :: "u64 \<Rightarrow> xxh64_state" where
  "xxh64_reset seed =
     \<lparr>total_len = 0, v64 = (seed + PRIME64_1 + PRIME64_2, seed + PRIME64_2, seed + 0, seed - PRIME64_1),
      mem64 = replicate 32 0, memsize64 = 0\<rparr>"

definition xxh32_update :: "xxh32_state \<Rightarrow> u8 list option \<Rightarrow> int \<times> xxh32_state" where
  "xxh32_update state input =
     (case input of
        None \<Rightarrow> (- EINVAL, state)
      | Some p \<Rightarrow>
          let len = length p;
              state = state\<lparr>total_len_32 := total_len_32 state + of_nat len\<rparr>;
              state = state\<lparr>large_len := large_len state \<or> 16 \<le> len \<or> 16 \<le> total_len_32 state\<rparr>
          in if unat (memsize32 state) + len < 16
             then (0, state\<lparr>mem32 := mem_put (mem32 state) (unat (memsize32 state)) p, memsize32 := memsize32 state + of_nat len\<rparr>)
             else
               let (state, p) =
                     (if memsize32 state \<noteq> 0
                      then let n = 16 - unat (memsize32 state);
                               state = state\<lparr>mem32 := mem_put (mem32 state) (unat (memsize32 state)) (take n p)\<rparr>
                           in (state\<lparr>v32 := xxh32_block (v32 state) (mem32 state), memsize32 := 0\<rparr>, drop n p)
                      else (state, p));
                   (state, p) =
                     (if 16 \<le> length p
                      then let (v, p) = xxh32_loop (v32 state) p in (state\<lparr>v32 := v\<rparr>, p)
                      else (state, p))
               in (0, if 0 < length p then state\<lparr>mem32 := mem_put (mem32 state) 0 p, memsize32 := of_nat (length p)\<rparr> else state))"

definition xxh32_digest :: "xxh32_state \<Rightarrow> u32" where
  "xxh32_digest state =
     (let p = take (unat (memsize32 state)) (mem32 state);
          h32 = (if large_len state then xxh32_converge (v32 state) else fst (snd (snd (v32 state))) + PRIME32_5);
          h32 = h32 + total_len_32 state
      in xxh32_finish h32 p)"

definition xxh64_update :: "xxh64_state \<Rightarrow> u8 list option \<Rightarrow> int \<times> xxh64_state" where
  "xxh64_update state input =
     (case input of
        None \<Rightarrow> (- EINVAL, state)
      | Some p \<Rightarrow>
          let len = length p;
              state = state\<lparr>total_len := total_len state + of_nat len\<rparr>
          in if unat (memsize64 state) + len < 32
             then (0, state\<lparr>mem64 := mem_put (mem64 state) (unat (memsize64 state)) p, memsize64 := memsize64 state + of_nat len\<rparr>)
             else
               let (state, p) =
                     (if memsize64 state \<noteq> 0
                      then let n = 32 - unat (memsize64 state);
                               state = state\<lparr>mem64 := mem_put (mem64 state) (unat (memsize64 state)) (take n p)\<rparr>
                           in (state\<lparr>v64 := xxh64_block (v64 state) (mem64 state), memsize64 := 0\<rparr>, drop n p)
                      else (state, p));
                   (state, p) =
                     (if 32 \<le> length p
                      then let (v, p) = xxh64_loop (v64 state) p in (state\<lparr>v64 := v\<rparr>, p)
                      else (state, p))
               in (0, if 0 < length p then state\<lparr>mem64 := mem_put (mem64 state) 0 p, memsize64 := of_nat (length p)\<rparr> else state))"

definition xxh64_digest :: "xxh64_state \<Rightarrow> u64" where
  "xxh64_digest state =
     (let p = take (unat (memsize64 state)) (mem64 state);
          h64 = (if 32 \<le> total_len state then xxh64_converge (v64 state) else fst (snd (snd (v64 state))) + PRIME64_5);
          h64 = h64 + total_len state
      in xxh64_finish h64 p)"

section \<open>Hashing by blocks\<close>

text \<open>What the accumulators are for: all complete blocks of the data are taken in, the rest is left.\<close>

function blocks :: "nat \<Rightarrow> ('v \<Rightarrow> u8 list \<Rightarrow> 'v) \<Rightarrow> 'v \<Rightarrow> u8 list \<Rightarrow> 'v \<times> u8 list" where
  "blocks n block v p = (if 0 < n \<and> n \<le> length p then blocks n block (block v p) (drop n p) else (v, p))"
  by pat_completeness auto
termination by (relation "measure (\<lambda>(n, block, v, p). length p)") auto

declare blocks.simps [simp del]

locale block_hash =
  fixes n :: nat and block :: "'v \<Rightarrow> u8 list \<Rightarrow> 'v" and loop :: "'v \<Rightarrow> u8 list \<Rightarrow> 'v \<times> u8 list"
  assumes n_pos: "0 < n"
    and block_prefix: "n \<le> length p \<Longrightarrow> block v (p @ q) = block v p"
    and loop_unfold: "loop v p = (if n \<le> length (drop n p) then loop (block v p) (drop n p) else (block v p, drop n p))"
begin

lemma blocks_short: "length p < n \<Longrightarrow> blocks n block v p = (v, p)"
  by (simp add: blocks.simps)

lemma blocks_long: "n \<le> length p \<Longrightarrow> blocks n block v p = blocks n block (block v p) (drop n p)"
  by (subst blocks.simps) (simp add: n_pos)

lemma loop_blocks: "n \<le> length p \<Longrightarrow> loop v p = blocks n block v p"
proof (induction "length p" arbitrary: v p rule: less_induct)
  case less
  show ?case
  proof (cases "n \<le> length (drop n p)")
    case True
    then have "loop (block v p) (drop n p) = blocks n block (block v p) (drop n p)"
      using n_pos less.prems by (intro less.hyps) auto
    then show ?thesis using True less.prems by (simp add: loop_unfold [of v p] blocks_long [of p])
  next
    case False
    then show ?thesis using less.prems by (simp add: loop_unfold [of v p] blocks_long [of p] blocks_short)
  qed
qed

lemma blocks_append: "blocks n block v p = (w, r) \<Longrightarrow> blocks n block v (p @ q) = blocks n block w (r @ q)"
proof (induction "length p" arbitrary: v p rule: less_induct)
  case less
  show ?case
  proof (cases "n \<le> length p")
    case True
    then show ?thesis
      using less.hyps [of "drop n p" "block v p"] less.prems n_pos by (simp add: blocks_long [of "p @ q"] blocks_long [of p] block_prefix)
  next
    case False
    then show ?thesis using less.prems by (simp add: blocks_short)
  qed
qed

lemma blocks_rest: "blocks n block v p = (w, r) \<Longrightarrow> length r < n"
proof (induction "length p" arbitrary: v p rule: less_induct)
  case less
  show ?case
  proof (cases "n \<le> length p")
    case True
    then show ?thesis using less.hyps [of "drop n p" "block v p"] less.prems n_pos by (simp add: blocks_long [of p])
  next
    case False
    then show ?thesis using less.prems by (auto simp: blocks_short)
  qed
qed

text \<open>What an update does with the bytes \<open>buf\<close> left over and the new ones.\<close>

lemma buffer_step:
  assumes "blocks n block v0 xs = (v, buf)" "n \<le> length buf + length p"
    "(v', p') = (if buf \<noteq> [] then (block v (buf @ take (n - length buf) p), drop (n - length buf) p) else (v, p))"
  shows "blocks n block v0 (xs @ p) = (if n \<le> length p' then loop v' p' else (v', p'))"
proof -
  have "blocks n block v (buf @ p) = blocks n block v' p'"
  proof (cases "buf = []")
    case False
    have b: "block v (buf @ p) = block v (buf @ take (n - length buf) p)"
      using block_prefix [of "buf @ take (n - length buf) p" v "drop (n - length buf) p"] assms(2) by simp
    then show ?thesis using False assms(2,3) blocks_rest [OF assms(1)] by (simp add: blocks_long [of "buf @ p"])
  qed (use assms(3) in simp)
  moreover have "blocks n block v' p' = (if n \<le> length p' then loop v' p' else (v', p'))"
    using loop_blocks [of p' v'] blocks_short [of p' v'] by simp
  ultimately show ?thesis using blocks_append [OF assms(1)] by simp
qed

end

lemma get_le32_prefix: "4 \<le> length p \<Longrightarrow> get_unaligned_le32 (p @ q) = get_unaligned_le32 p"
  by (simp add: get_unaligned_le32_def)

lemma get_le64_prefix: "8 \<le> length p \<Longrightarrow> get_unaligned_le64 (p @ q) = get_unaligned_le64 p"
  by (simp add: get_unaligned_le64_def)

interpretation x32: block_hash 16 xxh32_block xxh32_loop
proof
  fix p q :: "u8 list" and v :: lanes32 assume "16 \<le> length p"
  then show "xxh32_block v (p @ q) = xxh32_block v p" by (cases v) (simp add: get_le32_prefix)
qed (simp_all add: xxh32_loop.simps Let_def)

interpretation x64: block_hash 32 xxh64_block xxh64_loop
proof
  fix p q :: "u8 list" and v :: lanes64 assume "32 \<le> length p"
  then show "xxh64_block v (p @ q) = xxh64_block v p" by (cases v) (simp add: get_le64_prefix)
qed (simp_all add: xxh64_loop.simps Let_def)

section \<open>The streaming interface hashes what it was given\<close>

lemma mem_put_take: "i \<le> length mem \<Longrightarrow> take (i + length xs) (mem_put mem i xs) = take i mem @ xs"
  by (simp add: mem_put_def)

lemma length_mem_put [simp]: "i + length xs \<le> length mem \<Longrightarrow> length (mem_put mem i xs) = length mem"
  by (simp add: mem_put_def)

lemma mem_put_full: "i \<le> length mem \<Longrightarrow> i + length xs = length mem \<Longrightarrow> mem_put mem i xs = take i mem @ xs"
  by (simp add: mem_put_def)

lemma unat_small32: "n < 32 \<Longrightarrow> unat (of_nat n :: u32) = n"
  by (simp add: unat_of_nat)

text \<open>A state after \<open>reset\<close> with \<open>seed\<close> and the bytes \<open>xs\<close>.\<close>

definition xxh64_has :: "u64 \<Rightarrow> u8 list \<Rightarrow> xxh64_state \<Rightarrow> bool" where
  "xxh64_has seed xs st \<longleftrightarrow>
     total_len st = of_nat (length xs) \<and> length (mem64 st) = 32 \<and> unat (memsize64 st) < 32 \<and>
     blocks 32 xxh64_block (v64 (xxh64_reset seed)) xs = (v64 st, take (unat (memsize64 st)) (mem64 st))"

definition xxh32_has :: "u32 \<Rightarrow> u8 list \<Rightarrow> xxh32_state \<Rightarrow> bool" where
  "xxh32_has seed xs st \<longleftrightarrow>
     total_len_32 st = of_nat (length xs) \<and> large_len st = (16 \<le> length xs) \<and> length (mem32 st) = 16 \<and> unat (memsize32 st) < 16 \<and>
     blocks 16 xxh32_block (v32 (xxh32_reset seed)) xs = (v32 st, take (unat (memsize32 st)) (mem32 st))"

lemma xxh64_reset_has: "xxh64_has seed [] (xxh64_reset seed)"
  by (simp add: xxh64_has_def xxh64_reset_def x64.blocks_short)

lemma xxh32_reset_has: "xxh32_has seed [] (xxh32_reset seed)"
  by (simp add: xxh32_has_def xxh32_reset_def x32.blocks_short)

lemma xxh64_update_has:
  assumes "xxh64_has seed xs st"
  shows "\<exists>st'. xxh64_update st (Some p) = (0, st') \<and> xxh64_has seed (xs @ p) st'"
proof -
  define m where "m = unat (memsize64 st)"
  define buf where "buf = take m (mem64 st)"
  have len: "length (mem64 st) = 32" "m < 32" "length buf = m" and b: "blocks 32 xxh64_block (v64 (xxh64_reset seed)) xs = (v64 st, buf)"
    using assms by (simp_all add: xxh64_has_def m_def buf_def)
  have t: "total_len st = of_nat (length xs)" using assms by (simp add: xxh64_has_def)
  show ?thesis
  proof (cases "m + length p < 32")
    case True
    have s: "unat (memsize64 st + of_nat (length p)) = m + length p"
      using True unat_small32 [of "length p"] by (simp add: unat_word_ariths m_def)
    have "blocks 32 xxh64_block (v64 (xxh64_reset seed)) (xs @ p) = (v64 st, buf @ p)"
      using x64.blocks_append [OF b, of p] True len(3) by (simp add: x64.blocks_short)
    then show ?thesis using True s len mem_put_take [of m "mem64 st" p] t
      by (simp add: xxh64_update_def xxh64_has_def Let_def m_def [symmetric] buf_def)
  next
    case False
    define q where "q = (if buf \<noteq> [] then (xxh64_block (v64 st) (buf @ take (32 - m) p), drop (32 - m) p) else (v64 st, p))"
    define mem where "mem = (if buf \<noteq> [] then buf @ take (32 - m) p else mem64 st)"
    obtain v' r where v': "(v', r) = (if 32 \<le> length (snd q) then xxh64_loop (fst q) (snd q) else q)" by (metis surj_pair)
    have q: "(fst q, snd q) = (if buf \<noteq> [] then (xxh64_block (v64 st) (buf @ take (32 - length buf) p), drop (32 - length buf) p) else (v64 st, p))"
      by (simp add: q_def len(3))
    have bl: "blocks 32 xxh64_block (v64 (xxh64_reset seed)) (xs @ p) = (v', r)"
      using x64.buffer_step [OF b _ q] False v' len(3) by simp
    have r: "length r < 32" using x64.blocks_rest [OF bl] .
    have m0: "memsize64 st = 0 \<longleftrightarrow> buf = []" using len by (auto simp: m_def unat_eq_0)
    have "xxh64_update st (Some p) = (0, st\<lparr>total_len := total_len st + of_nat (length p), v64 := v',
        mem64 := (if 0 < length r then mem_put mem 0 r else mem), memsize64 := of_nat (length r)\<rparr>)"
    proof (cases "buf = []")
      case True
      then have "m = 0" "memsize64 st = 0" using len m0 by simp_all
      moreover from this have "xxh64_loop (v64 st) p = (v', r)" using False v' True by (simp add: q_def)
      ultimately show ?thesis using False True
        by (cases st; cases "r = []") (simp_all add: xxh64_update_def mem_def Let_def)
    next
      case buf: False
      have "mem_put (mem64 st) m (take (32 - m) p) = mem"
        using mem_put_full [of m "mem64 st" "take (32 - m) p"] len False buf by (simp add: mem_def buf_def)
      moreover have "q = (xxh64_block (v64 st) mem, drop (32 - m) p)" using buf by (simp add: q_def mem_def)
      ultimately show ?thesis using False v' [symmetric] buf m0 r
        by (cases "32 \<le> length (drop (32 - m) p)"; cases "r = []") (simp_all add: xxh64_update_def m_def [symmetric] Let_def)
    qed
    moreover have "length mem = 32" using len False by (simp add: mem_def)
    ultimately show ?thesis
      using bl r t unat_small32 [OF r] mem_put_take [of 0 mem r] by (auto simp: xxh64_has_def)
  qed
qed

lemma xxh32_update_has:
  assumes "xxh32_has seed xs st"
  shows "\<exists>st'. xxh32_update st (Some p) = (0, st') \<and> xxh32_has seed (xs @ p) st'"
proof -
  define m where "m = unat (memsize32 st)"
  define buf where "buf = take m (mem32 st)"
  have len: "length (mem32 st) = 16" "m < 16" "length buf = m" and b: "blocks 16 xxh32_block (v32 (xxh32_reset seed)) xs = (v32 st, buf)"
    using assms by (simp_all add: xxh32_has_def m_def buf_def)
  have t: "total_len_32 st = of_nat (length xs)" using assms by (simp add: xxh32_has_def)
  have large: "(large_len st \<or> 16 \<le> length p \<or> (16 :: u32) \<le> of_nat (length xs) + of_nat (length p)) = (16 \<le> length xs + length p)"
  proof (cases "length xs + length p < 32")
    case True
    then show ?thesis using assms unat_small32 [OF True] by (auto simp: xxh32_has_def word_le_nat_alt)
  next
    case False
    then show ?thesis using assms by (auto simp: xxh32_has_def)
  qed
  show ?thesis
  proof (cases "m + length p < 16")
    case True
    have s: "unat (memsize32 st + of_nat (length p)) = m + length p"
      using True unat_small32 [of "length p"] by (simp add: unat_word_ariths m_def)
    have "blocks 16 xxh32_block (v32 (xxh32_reset seed)) (xs @ p) = (v32 st, buf @ p)"
      using x32.blocks_append [OF b, of p] True len(3) by (simp add: x32.blocks_short)
    then show ?thesis using True s len mem_put_take [of m "mem32 st" p] t large
      by (simp add: xxh32_update_def xxh32_has_def Let_def m_def [symmetric] buf_def)
  next
    case False
    define q where "q = (if buf \<noteq> [] then (xxh32_block (v32 st) (buf @ take (16 - m) p), drop (16 - m) p) else (v32 st, p))"
    define mem where "mem = (if buf \<noteq> [] then buf @ take (16 - m) p else mem32 st)"
    obtain v' r where v': "(v', r) = (if 16 \<le> length (snd q) then xxh32_loop (fst q) (snd q) else q)" by (metis surj_pair)
    have q: "(fst q, snd q) = (if buf \<noteq> [] then (xxh32_block (v32 st) (buf @ take (16 - length buf) p), drop (16 - length buf) p) else (v32 st, p))"
      by (simp add: q_def len(3))
    have bl: "blocks 16 xxh32_block (v32 (xxh32_reset seed)) (xs @ p) = (v', r)"
      using x32.buffer_step [OF b _ q] False v' len(3) by simp
    have r: "length r < 16" using x32.blocks_rest [OF bl] .
    have m0: "memsize32 st = 0 \<longleftrightarrow> buf = []" using len by (auto simp: m_def unat_eq_0)
    have "xxh32_update st (Some p) = (0, st\<lparr>total_len_32 := total_len_32 st + of_nat (length p), large_len := 16 \<le> length xs + length p, v32 := v',
        mem32 := (if 0 < length r then mem_put mem 0 r else mem), memsize32 := of_nat (length r)\<rparr>)"
    proof (cases "buf = []")
      case True
      then have "m = 0" "memsize32 st = 0" using len m0 by simp_all
      moreover from this have "xxh32_loop (v32 st) p = (v', r)" using False v' True by (simp add: q_def)
      ultimately show ?thesis using False True large [unfolded t [symmetric]]
        by (cases st; cases "r = []") (simp_all add: xxh32_update_def mem_def Let_def)
    next
      case buf: False
      have "mem_put (mem32 st) m (take (16 - m) p) = mem"
        using mem_put_full [of m "mem32 st" "take (16 - m) p"] len False buf by (simp add: mem_def buf_def)
      moreover have "q = (xxh32_block (v32 st) mem, drop (16 - m) p)" using buf by (simp add: q_def mem_def)
      ultimately show ?thesis using False v' [symmetric] buf m0 r large [unfolded t [symmetric]]
        by (cases "16 \<le> length (drop (16 - m) p)"; cases "r = []") (simp_all add: xxh32_update_def m_def [symmetric] Let_def)
    qed
    moreover have "length mem = 16" using len False by (simp add: mem_def)
    ultimately show ?thesis
      using bl r t unat_small32 [of "length r"] mem_put_take [of 0 mem r] by (auto simp: xxh32_has_def)
  qed
qed

lemma xxh64_digest_has:
  assumes "xxh64_has seed xs st" "length xs < 2 ^ 64"
  shows "xxh64_digest st = xxh64 xs seed"
proof -
  have "(32 :: u64) \<le> of_nat (length xs) \<longleftrightarrow> 32 \<le> length xs" using assms(2) by (simp add: word_le_nat_alt unat_of_nat)
  then show ?thesis
    using assms(1) x64.loop_blocks [of xs "v64 (xxh64_reset seed)"] x64.blocks_short [of xs "v64 (xxh64_reset seed)"]
    by (cases "32 \<le> length xs") (auto simp: xxh64_digest_def xxh64_def xxh64_has_def xxh64_reset_def Let_def)
qed

lemma xxh32_digest_has:
  assumes "xxh32_has seed xs st"
  shows "xxh32_digest st = xxh32 xs seed"
  using assms x32.loop_blocks [of xs "v32 (xxh32_reset seed)"] x32.blocks_short [of xs "v32 (xxh32_reset seed)"]
  by (cases "16 \<le> length xs") (auto simp: xxh32_digest_def xxh32_def xxh32_has_def xxh32_reset_def Let_def)

lemma xxh64_stream_has:
  "xxh64_has seed xs st \<Longrightarrow> xxh64_has seed (xs @ concat ps) (foldl (\<lambda>st p. snd (xxh64_update st (Some p))) st ps)"
proof (induction ps arbitrary: xs st)
  case (Cons p ps)
  then show ?case using xxh64_update_has [OF Cons.prems, of p] Cons.IH [of "xs @ p"] by auto
qed simp

lemma xxh32_stream_has:
  "xxh32_has seed xs st \<Longrightarrow> xxh32_has seed (xs @ concat ps) (foldl (\<lambda>st p. snd (xxh32_update st (Some p))) st ps)"
proof (induction ps arbitrary: xs st)
  case (Cons p ps)
  then show ?case using xxh32_update_has [OF Cons.prems, of p] Cons.IH [of "xs @ p"] by auto
qed simp

section \<open>Property\<close>

text \<open>C14: feeding data to the streaming interfaces in any number of pieces of any lengths, the empty one included, and asking for the digest
  gives the hash of all the data at once. For \<open>xxh64\<close> this holds up to the length its counter can hold; the 32 bit counter of
  \<open>xxh32\<close> may wrap.\<close>

theorem xxhash_streaming:
  "(length (concat ps) < 2 ^ 64 \<longrightarrow>
     xxh64_digest (foldl (\<lambda>state p. snd (xxh64_update state (Some p))) (xxh64_reset seed) ps) = xxh64 (concat ps) seed) \<and>
   xxh32_digest (foldl (\<lambda>state p. snd (xxh32_update state (Some p))) (xxh32_reset seed') ps) = xxh32 (concat ps) seed'"
  using xxh64_digest_has [OF xxh64_stream_has [OF xxh64_reset_has]] xxh32_digest_has [OF xxh32_stream_has [OF xxh32_reset_has]]
  by simp

theorem xxhash_streaming_witness:
  "xxh64_digest (foldl (\<lambda>state p. snd (xxh64_update state (Some p))) (xxh64_reset 1) [replicate 20 7, [], replicate 70 9]) =
   xxh64 (concat [replicate 20 7, [], replicate 70 9]) 1"
  using xxhash_streaming [of "[replicate 20 7, [], replicate 70 9]" 1 0] by simp

end
