(* ===== verification/Checksum.thy ===== *)
theory Checksum
  imports Crc_Tables Xxhash Extent_Crc
begin

text \<open>
  Checksums of data (\<^verbatim>\<open>libbcachefs/checksum.c\<close>) with the cyclic redundancy checks they use
  (\<^verbatim>\<open>linux/crc64.c\<close>, and the portable \<open>crc32c_default\<close> of \<^verbatim>\<open>c_src/tools-util.c\<close>), and merging
  the checksums of two adjacent pieces of data without reading the data.

  Data is a list of bytes. \<open>None\<close> stands for \<open>BUG()\<close> and for the checksum types that are not modelled:
  the two encrypting types. The locale \<open>linear_checksum\<close> is what merging relies on.
\<close>

section \<open>Cyclic redundancy checks\<close>

definition crc64_step :: "u64 \<Rightarrow> u8 \<Rightarrow> u64" where
  "crc64_step crc p = crc64table ! unat ((drop_bit 56 crc XOR ucast p) AND 0xff) XOR push_bit 8 crc"

definition crc64_be :: "u64 \<Rightarrow> u8 list \<Rightarrow> u64" where
  "crc64_be crc p = foldl crc64_step crc p"

definition crc32c_step :: "u32 \<Rightarrow> u8 \<Rightarrow> u32" where
  "crc32c_step crc p = crc32c_tab ! unat ((crc XOR ucast p) AND 0xff) XOR drop_bit 8 crc"

definition crc32c_default :: "u32 \<Rightarrow> u8 list \<Rightarrow> u32" where
  "crc32c_default crc p = foldl crc32c_step crc p"

section \<open>Checksum state\<close>

text \<open>The members of the union are two fields, of which the type says which one is in use.\<close>

record checksum_state =
  cst_seed :: u64
  cst_h64state :: xxh64_state
  cst_type :: u8

definition bch2_checksum_init :: "checksum_state \<Rightarrow> checksum_state option" where
  "bch2_checksum_init state =
     (let t = cst_type state in
      if t = 0 \<or> t = 5 \<or> t = 6 then Some (state\<lparr>cst_seed := 0\<rparr>)
      else if t = 1 then Some (state\<lparr>cst_seed := 0xffffffff\<rparr>)
      else if t = 2 then Some (state\<lparr>cst_seed := - 1\<rparr>)
      else if t = 7 then Some (state\<lparr>cst_h64state := xxh64_reset 0\<rparr>)
      else None)"

definition bch2_checksum_final :: "checksum_state \<Rightarrow> u64 option" where
  "bch2_checksum_final state =
     (let t = cst_type state in
      if t = 0 \<or> t = 5 \<or> t = 6 then Some (cst_seed state)
      else if t = 1 then Some (cst_seed state XOR 0xffffffff)
      else if t = 2 then Some (cst_seed state XOR - 1)
      else if t = 7 then Some (xxh64_digest (cst_h64state state))
      else None)"

definition bch2_checksum_update :: "checksum_state \<Rightarrow> u8 list \<Rightarrow> checksum_state option" where
  "bch2_checksum_update state data =
     (let t = cst_type state in
      if t = 0 then Some state
      else if t = 1 \<or> t = 5 then Some (state\<lparr>cst_seed := ucast (crc32c_default (ucast (cst_seed state)) data)\<rparr>)
      else if t = 2 \<or> t = 6 then Some (state\<lparr>cst_seed := crc64_be (cst_seed state) data\<rparr>)
      else if t = 7 then Some (state\<lparr>cst_h64state := snd (xxh64_update (cst_h64state state) (Some data))\<rparr>)
      else None)"

text \<open>A state on the stack of which only the type has been set; what else it holds is not read.\<close>

definition state_of_type :: "u8 \<Rightarrow> checksum_state" where
  "state_of_type t = \<lparr>cst_seed = 0, cst_h64state = xxh64_reset 0, cst_type = t\<rparr>"

definition bch2_checksum :: "u8 \<Rightarrow> u8 list \<Rightarrow> bch_csum option" where
  "bch2_checksum t data =
     (case bch2_checksum_init (state_of_type t) of
        None \<Rightarrow> None
      | Some state \<Rightarrow>
          (case bch2_checksum_update state data of
             None \<Rightarrow> None
           | Some state \<Rightarrow> map_option (\<lambda>lo. \<lparr>cs_lo = lo, cs_hi = 0\<rparr>) (bch2_checksum_final state)))"

definition PAGE_SIZE :: nat where "PAGE_SIZE = 4096"

text \<open>The loop of \<open>bch2_checksum_merge\<close>: the checksum of \<open>b_len\<close> zero bytes, a page at a time.\<close>

function merge_zeros :: "checksum_state \<Rightarrow> nat \<Rightarrow> checksum_state option" where
  "merge_zeros state b_len =
     (if b_len = 0 then Some state
      else let page_len = min b_len PAGE_SIZE in
        case bch2_checksum_update state (replicate page_len 0) of
          None \<Rightarrow> None
        | Some state \<Rightarrow> merge_zeros state (b_len - page_len))"
  by pat_completeness auto
termination by (relation "measure snd") (auto simp: PAGE_SIZE_def)

declare merge_zeros.simps [simp del]

definition bch2_checksum_merge :: "u8 \<Rightarrow> bch_csum \<Rightarrow> bch_csum \<Rightarrow> nat \<Rightarrow> bch_csum option" where
  "bch2_checksum_merge t a b b_len =
     (case bch2_checksum_init (state_of_type t) of
        None \<Rightarrow> None
      | Some state \<Rightarrow>
          if \<not> bch2_checksum_mergeable t then None
          else case merge_zeros (state\<lparr>cst_seed := cs_lo a\<rparr>) b_len of
            None \<Rightarrow> None
          | Some state \<Rightarrow>
              map_option (\<lambda>lo. \<lparr>cs_lo = lo XOR cs_lo b, cs_hi = cs_hi a XOR cs_hi b\<rparr>) (bch2_checksum_final state))"

section \<open>Linear checksums\<close>

text \<open>A checksum that goes over the bytes and is linear in the running value and the byte.\<close>

locale linear_checksum =
  fixes step :: "'a::len word \<Rightarrow> u8 \<Rightarrow> 'a word"
  assumes step_xor: "step (s XOR t) (a XOR b) = step s a XOR step t b"
begin

lemma run_xor: "length xs = length ys \<Longrightarrow> foldl step (s XOR t) (map2 (XOR) xs ys) = foldl step s xs XOR foldl step t ys"
  by (induction xs ys arbitrary: s t rule: list_induct2) (simp_all add: step_xor)

lemma run_merge: "foldl step (foldl step 0 xs) (replicate (length ys) 0) XOR foldl step 0 ys = foldl step 0 (xs @ ys)"
proof -
  have "map2 (XOR) (replicate (length ys) 0) ys = ys" by (rule nth_equalityI) simp_all
  then show ?thesis using run_xor [of "replicate (length ys) 0" ys "foldl step 0 xs" 0] by simp
qed

end

lemma low_byte: "(x :: 'a::len word) AND 0xff = take_bit 8 x"
  by (simp add: take_bit_eq_mask mask_eq_exp_minus_1)

lemma low_byte_ucast: "8 \<le> LENGTH('a) \<Longrightarrow> unat ((x XOR ucast p) AND 0xff) = unat (ucast (x :: 'a::len word) XOR p :: u8)"
proof -
  assume "8 \<le> LENGTH('a)"
  moreover have "take_bit 8 (unat p) = unat p" using take_bit_nat_eq_self [of "unat p" 8] unsigned_less [of p, where ?'a = nat] by simp
  ultimately show ?thesis
    by (simp add: low_byte unsigned_xor_eq unsigned_take_bit_eq unsigned_ucast_eq take_bit_xor unat_ucast_up)
qed

lemma crc64_step_entry: "crc64_step crc p = crc64_entry (ucast (drop_bit 56 crc) XOR p) XOR push_bit 8 crc"
  by (simp add: crc64_step_def low_byte_ucast crc64table_entry)

lemma crc32c_step_entry: "crc32c_step crc p = crc32c_entry (ucast crc XOR p) XOR drop_bit 8 crc"
  by (simp add: crc32c_step_def low_byte_ucast crc32c_tab_entry)

interpretation crc64: linear_checksum crc64_step
proof
  fix s t :: u64 and a b
  have "ucast (drop_bit 56 (s XOR t)) XOR (a XOR b) = (ucast (drop_bit 56 s) XOR a) XOR (ucast (drop_bit 56 t) XOR b :: u8)"
    by (simp add: drop_bit_xor unsigned_xor_eq xor.assoc xor.left_commute)
  then show "crc64_step (s XOR t) (a XOR b) = crc64_step s a XOR crc64_step t b"
    by (simp add: crc64_step_entry crc64_entry_xor push_bit_xor xor.assoc xor.left_commute xor.commute)
qed

interpretation crc32c: linear_checksum crc32c_step
proof
  fix s t :: u32 and a b
  have "ucast (s XOR t) XOR (a XOR b) = (ucast s XOR a) XOR (ucast t XOR b :: u8)"
    by (simp add: unsigned_xor_eq xor.assoc xor.left_commute)
  then show "crc32c_step (s XOR t) (a XOR b) = crc32c_step s a XOR crc32c_step t b"
    by (simp add: crc32c_step_entry crc32c_entry_xor drop_bit_xor xor.assoc xor.left_commute xor.commute)
qed

section \<open>Merging\<close>

lemma crc32c_seed_ucast [simp]: "ucast (ucast (x :: u32) :: u64) = x"
proof (rule ucast_ucast_small)
  have "unat x < 2 ^ 32" using unsigned_less [of x, where ?'a = nat] by simp
  also have "\<dots> \<le> 2 ^ LENGTH(64)" by simp
  finally show "unat x < 2 ^ LENGTH(64)" .
qed

text \<open>The running value of a 32 bit checksum has 32 bits.\<close>

definition seed_ok :: "checksum_state \<Rightarrow> bool" where
  "seed_ok st \<longleftrightarrow> (cst_type st = 5 \<longrightarrow> ucast (ucast (cst_seed st) :: u32) = cst_seed st)"

lemma update_append:
  "cst_type st \<noteq> 7 \<Longrightarrow> bch2_checksum_update st xs = Some st' \<Longrightarrow> bch2_checksum_update st (xs @ ys) = bch2_checksum_update st' ys"
  by (auto simp: bch2_checksum_update_def Let_def crc32c_default_def crc64_be_def split: if_splits)

lemma update_seed_ok: "seed_ok st \<Longrightarrow> bch2_checksum_update st xs = Some st' \<Longrightarrow> seed_ok st' \<and> cst_type st' = cst_type st"
  by (auto simp: seed_ok_def bch2_checksum_update_def Let_def split: if_splits)

lemma merge_zeros_update:
  "bch2_checksum_mergeable (cst_type st) \<Longrightarrow> seed_ok st \<Longrightarrow> merge_zeros st n = bch2_checksum_update st (replicate n 0)"
proof (induction st n rule: merge_zeros.induct)
  case (1 st n)
  show ?case
  proof (cases "n = 0")
    case True
    then show ?thesis using 1(2,3)
      by (auto simp: merge_zeros.simps bch2_checksum_update_def bch2_checksum_mergeable_def crc32c_default_def crc64_be_def seed_ok_def Let_def)
  next
    case False
    obtain st' where st': "bch2_checksum_update st (replicate (min n PAGE_SIZE) 0) = Some st'"
      using 1(2) by (auto simp: bch2_checksum_update_def bch2_checksum_mergeable_def)
    have "replicate n (0 :: u8) = replicate (min n PAGE_SIZE) 0 @ replicate (n - min n PAGE_SIZE) 0"
      by (simp flip: replicate_add)
    then have "bch2_checksum_update st (replicate n 0) = bch2_checksum_update st' (replicate (n - min n PAGE_SIZE) 0)"
      using update_append [OF _ st'] 1(2) by (auto simp: bch2_checksum_mergeable_def)
    then show ?thesis using 1(1) [OF False refl st'] update_seed_ok [OF 1(3) st'] 1(2) False st'
      by (simp add: merge_zeros.simps [of st n] Let_def)
  qed
qed

lemma checksum_merge:
  assumes "bch2_checksum_mergeable t" "bch2_checksum t xs = Some a" "bch2_checksum t ys = Some b"
  shows "bch2_checksum_merge t a b (length ys) = bch2_checksum t (xs @ ys)"
proof -
  have seed: "seed_ok (state_of_type t\<lparr>cst_seed := cs_lo a\<rparr>)"
    using assms(1,2) by (auto simp: seed_ok_def bch2_checksum_def bch2_checksum_init_def state_of_type_def Let_def bch2_checksum_update_def bch2_checksum_final_def)
  then have "merge_zeros (state_of_type t\<lparr>cst_seed := cs_lo a\<rparr>) (length ys) =
      bch2_checksum_update (state_of_type t\<lparr>cst_seed := cs_lo a\<rparr>) (replicate (length ys) 0)"
    using merge_zeros_update [OF _ seed] assms(1) by (simp add: state_of_type_def)
  then show ?thesis
    using assms crc64.run_merge [of xs ys] arg_cong [OF crc32c.run_merge [of xs ys], of "ucast :: u32 \<Rightarrow> u64"]
    by (auto simp: bch2_checksum_merge_def bch2_checksum_def bch2_checksum_mergeable_def bch2_checksum_init_def state_of_type_def Let_def
      bch2_checksum_update_def bch2_checksum_final_def crc32c_default_def crc64_be_def unsigned_xor_eq)
qed

lemma checksum_mergeable_defined: "bch2_checksum_mergeable t \<Longrightarrow> \<exists>c. bch2_checksum t xs = Some c"
  by (auto simp: bch2_checksum_mergeable_def bch2_checksum_def bch2_checksum_init_def state_of_type_def Let_def bch2_checksum_update_def bch2_checksum_final_def)

lemma checksum_xxhash:
  assumes "length data < 2 ^ 64"
  shows "bch2_checksum 7 data = Some \<lparr>cs_lo = xxh64 data 0, cs_hi = 0\<rparr>"
proof -
  obtain h where "xxh64_update (xxh64_reset 0) (Some data) = (0, h)" "xxh64_has 0 data h"
    using xxh64_update_has [OF xxh64_reset_has, of 0 data] by auto
  then show ?thesis using xxh64_digest_has [of 0 data h] assms
    by (simp add: bch2_checksum_def bch2_checksum_init_def bch2_checksum_update_def bch2_checksum_final_def state_of_type_def Let_def)
qed

section \<open>Property\<close>



end
