(* ===== verification/Extent_Merge.thy ===== *)
theory Extent_Merge
  imports Extent_Cut Checksum
begin

text \<open>
  Merging two adjacent extents into one (\<open>bch2_extent_merge\<close> and \<open>bch2_reservation_merge\<close> of
  \<^verbatim>\<open>libbcachefs/extents.c\<close>, \<open>bch2_bkey_merge\<close> of \<^verbatim>\<open>bkey_methods.c\<close>). The device table of the file
  system is a map from device numbers to bucket sizes, in sectors. \<open>None\<close> as the result stands for the
  code's \<open>false\<close>, in which case nothing has been changed; the calls to \<open>BUG()\<close> below it cannot be
  reached and keep the entry.
\<close>

type_synonym devs = "u8 \<Rightarrow> u64 option"

section \<open>The checks\<close>

text \<open>The first loop: both values have entries of the same types.\<close>

fun merge_types_ok :: "extent_entry list \<Rightarrow> extent_entry list \<Rightarrow> bool" where
  "merge_types_ok (l # ls) (r # rs) = (extent_entry_type l = extent_entry_type r \<and> merge_types_ok ls rs)"
| "merge_types_ok [] [] = True"
| "merge_types_ok _ _ = False"

definition PTR_BUCKET_NR :: "u64 \<Rightarrow> bch_extent_ptr \<Rightarrow> u64" where
  "PTR_BUCKET_NR bucket_size ptr = ucast (p_offset ptr) div bucket_size"

definition same_bucket :: "devs \<Rightarrow> bch_extent_ptr \<Rightarrow> bch_extent_ptr \<Rightarrow> bool" where
  "same_bucket devs l r =
     (case devs (p_dev l) of None \<Rightarrow> False | Some bucket_size \<Rightarrow> PTR_BUCKET_NR bucket_size l = PTR_BUCKET_NR bucket_size r)"

text \<open>
  Which checksum entry the merged extent uses: the left one when it covers both parts, the right one when
  it does, else both merged.
\<close>

definition use_left_crc :: "crc_unpacked \<Rightarrow> crc_unpacked \<Rightarrow> bool" where
  "use_left_crc l r = (ucast (u_offset l) + u_live_size l + u_live_size r \<le> u_uncompressed_size l)"

definition use_right_crc :: "crc_unpacked \<Rightarrow> crc_unpacked \<Rightarrow> bool" where
  "use_right_crc l r = (u_live_size l \<le> ucast (u_offset r))"

text \<open>The body of the second loop, for one pointer of each extent.\<close>

definition merge_ptr_ok :: "devs \<Rightarrow> u32 \<Rightarrow> extent_ptr_decoded \<Rightarrow> extent_ptr_decoded \<Rightarrow> bool" where
  "merge_ptr_ok devs encoded_extent_max lp rp =
     (let l = d_crc lp; r = d_crc rp in
      (ucast (p_offset (d_ptr lp)) + ucast (u_offset l) + ucast (u_live_size l) :: u64) =
        ucast (p_offset (d_ptr rp)) + ucast (u_offset r) \<and>
      p_dev (d_ptr lp) = p_dev (d_ptr rp) \<and>
      p_gen (d_ptr lp) = p_gen (d_ptr rp) \<and>
      p_unwritten (d_ptr lp) = p_unwritten (d_ptr rp) \<and>
      d_has_ec lp = d_has_ec rp \<and>
      same_bucket devs (d_ptr lp) (d_ptr rp) \<and>
      (d_has_ec lp \<longrightarrow>
        s_block (d_ec lp) = s_block (d_ec rp) \<and> s_redundancy (d_ec lp) = s_redundancy (d_ec rp) \<and> s_idx (d_ec lp) = s_idx (d_ec rp)) \<and>
      u_compression_type l = u_compression_type r \<and> u_nonce l = u_nonce r \<and>
      (use_left_crc l r \<or> use_right_crc l r \<or>
       u_csum_type l = u_csum_type r \<and> \<not> crc_is_compressed l \<and> bch2_checksum_mergeable (u_csum_type l) \<and>
       ucast (u_offset l) + u_live_size l = u_compressed_size l \<and> u_offset r = 0 \<and>
       (u_csum_type l \<noteq> 0 \<longrightarrow> u_uncompressed_size l + u_uncompressed_size r \<le> drop_bit 9 encoded_extent_max)))"

text \<open>The third loop: merged sizes fit the fields of the entry.\<close>

fun merge_sizes_ok :: "bkey \<Rightarrow> bkey \<Rightarrow> extent_entry list \<Rightarrow> extent_entry list \<Rightarrow> bool" where
  "merge_sizes_ok kl kr (l # ls) (r # rs) =
     ((extent_entry_is_crc l \<longrightarrow>
        u_uncompressed_size (bch2_extent_crc_unpack kl l) + u_uncompressed_size (bch2_extent_crc_unpack kr r)
          \<le> bch2_crc_field_size_max (extent_entry_type l)) \<and>
      merge_sizes_ok kl kr ls rs)"
| "merge_sizes_ok kl kr _ _ = True"

section \<open>The merged value\<close>

definition pack_or_keep :: "extent_entry \<Rightarrow> crc_unpacked \<Rightarrow> extent_entry" where
  "pack_or_keep e crc = (case bch2_extent_crc_pack crc (extent_entry_type e) of Some e' \<Rightarrow> e' | None \<Rightarrow> e)"

definition merge_crc :: "bkey \<Rightarrow> bkey \<Rightarrow> extent_entry \<Rightarrow> extent_entry \<Rightarrow> extent_entry \<times> bool" where
  "merge_crc kl kr en_l en_r =
     (let crc_l = bch2_extent_crc_unpack kl en_l; crc_r = bch2_extent_crc_unpack kr en_r in
      if use_left_crc crc_l crc_r then (en_l, False)
      else if use_right_crc crc_l crc_r
      then (pack_or_keep en_l (crc_r\<lparr>u_offset := u_offset crc_r - ucast (u_live_size crc_l)\<rparr>), True)
      else
        let csum = (case bch2_checksum_merge (u_csum_type crc_l) (u_csum crc_l) (u_csum crc_r) (unat (push_bit 9 (u_uncompressed_size crc_r))) of
                      Some csum \<Rightarrow> csum | None \<Rightarrow> u_csum crc_l)
        in (pack_or_keep en_l (crc_l\<lparr>u_csum := csum,
              u_uncompressed_size := u_uncompressed_size crc_l + u_uncompressed_size crc_r,
              u_compressed_size := u_compressed_size crc_l + u_compressed_size crc_r\<rparr>), False))"

fun merge_entries :: "bkey \<Rightarrow> bkey \<Rightarrow> bool \<Rightarrow> extent_entry list \<Rightarrow> extent_entry list \<Rightarrow> extent_entry list" where
  "merge_entries kl kr use_right_ptr (l # ls) (r # rs) =
     (if extent_entry_is_ptr l then (if use_right_ptr then r else l) # merge_entries kl kr use_right_ptr ls rs
      else if extent_entry_is_crc l
      then (case merge_crc kl kr l r of (e, use_right_ptr) \<Rightarrow> e # merge_entries kl kr use_right_ptr ls rs)
      else l # merge_entries kl kr use_right_ptr ls rs)"
| "merge_entries kl kr use_right_ptr _ _ = []"

definition bch2_extent_merge :: "devs \<Rightarrow> u32 \<Rightarrow> extent_ptr_decoded \<Rightarrow> bkey_s \<Rightarrow> bkey_s \<Rightarrow> bkey_s option" where
  "bch2_extent_merge devs encoded_extent_max p0 l r =
     (if merge_types_ok (bs_ptrs l) (bs_ptrs r) \<and>
         list_all (\<lambda>((lp, _), (rp, _)). merge_ptr_ok devs encoded_extent_max lp rp)
           (zip (bkey_for_each_ptr_decode (bs_k l) p0 (bs_ptrs l)) (bkey_for_each_ptr_decode (bs_k r) p0 (bs_ptrs r))) \<and>
         merge_sizes_ok (bs_k l) (bs_k r) (bs_ptrs l) (bs_ptrs r)
      then Some (l\<lparr>bs_ptrs := merge_entries (bs_k l) (bs_k r) False (bs_ptrs l) (bs_ptrs r),
                   bs_k := bch2_key_resize (bs_k l) (k_size (bs_k l) + k_size (bs_k r))\<rparr>)
      else None)"

text \<open>The generation and the number of replicas are the first five bytes of a reservation.\<close>

definition bch2_reservation_merge :: "bkey_s \<Rightarrow> bkey_s \<Rightarrow> bkey_s option" where
  "bch2_reservation_merge l r =
     (case (bs_hdr l, bs_hdr r) of
        (lw # _, rw # _) \<Rightarrow>
          if take_bit 40 lw \<noteq> take_bit 40 rw then None
          else Some (l\<lparr>bs_k := bch2_key_resize (bs_k l) (k_size (bs_k l) + k_size (bs_k r))\<rparr>)
      | _ \<Rightarrow> None)"

definition bch2_bkey_maybe_mergable :: "bkey \<Rightarrow> bkey \<Rightarrow> bool" where
  "bch2_bkey_maybe_mergable l r =
     (k_type l = k_type r \<and> bversion_cmp (k_bversion l) (k_bversion r) = 0 \<and> bpos_eq (k_p l) (bkey_start_pos r))"

definition key_type_set_merge :: "bkey_s \<Rightarrow> bkey_s \<Rightarrow> bkey_s option" where
  "key_type_set_merge l r = Some (l\<lparr>bs_k := bch2_key_resize (bs_k l) (k_size (bs_k l) + k_size (bs_k r))\<rparr>)"

abbreviation (input) KEY_TYPE_set :: u8 where "KEY_TYPE_set \<equiv> 25"

text \<open>
  The types with a merge operation; that of \<open>KEY_TYPE_reflink_p\<close> always refuses. Merging can be disabled by a
  module parameter.
\<close>

definition bch2_bkey_merge :: "bool \<Rightarrow> devs \<Rightarrow> u32 \<Rightarrow> extent_ptr_decoded \<Rightarrow> bkey_s \<Rightarrow> bkey_s \<Rightarrow> bkey_s option" where
  "bch2_bkey_merge merging_disabled devs encoded_extent_max p0 l r =
     (if bch2_bkey_maybe_mergable (bs_k l) (bs_k r) \<and>
         (ucast (k_size (bs_k l)) + ucast (k_size (bs_k r)) :: u64) \<le> 0xFFFFFFFF \<and> \<not> merging_disabled
      then if k_type (bs_k l) = KEY_TYPE_extent then bch2_extent_merge devs encoded_extent_max p0 l r
           else if k_type (bs_k l) = KEY_TYPE_reservation then bch2_reservation_merge l r
           else if k_type (bs_k l) = KEY_TYPE_set then key_type_set_merge l r
           else None
      else None)"

section \<open>Merged checksum entries\<close>

definition offset_bits :: "nat \<Rightarrow> nat" where
  "offset_bits t = (if t = 1 then 7 else if t = 2 then 9 else 13)"

lemma unpack_field_bounds:
  "extent_entry_is_crc e \<Longrightarrow> unat (u_offset (bch2_extent_crc_unpack k e)) < 2 ^ offset_bits (extent_entry_type e) \<and>
    unat (u_compression_type (bch2_extent_crc_unpack k e)) < 2 ^ 4"
  using unsigned_less [of "c32_offset c" for c, where ?'a = nat] unsigned_less [of "c64_offset c" for c, where ?'a = nat]
    unsigned_less [of "c128_offset c" for c, where ?'a = nat] unsigned_less [of "x :: 4 word" for x, where ?'a = nat]
  by (cases e) (simp_all add: bch2_extent_crc_unpack.simps offset_bits_def unat_ucast_up del: unsigned_less)

lemma pack_or_keep_unpack:
  assumes "extent_entry_is_crc e" "unat (u_offset u) < 2 ^ offset_bits (extent_entry_type e)" "unat (u_compression_type u) < 2 ^ 4"
  shows "extent_entry_is_crc (pack_or_keep e u) \<and> u_offset (bch2_extent_crc_unpack k (pack_or_keep e u)) = u_offset u \<and>
    u_compression_type (bch2_extent_crc_unpack k (pack_or_keep e u)) = u_compression_type u"
  using assms
  by (cases e) (simp_all add: pack_or_keep_def bch2_extent_crc_pack_def bch2_extent_crc_unpack.simps offset_bits_def ucast_ucast_small)

text \<open>The state of the second pass: which of the two extents the current checksum entry, and so the pointers, are taken from.\<close>

definition merge_state :: "bool \<Rightarrow> crc_unpacked \<Rightarrow> crc_unpacked \<Rightarrow> crc_unpacked \<Rightarrow> bool" where
  "merge_state use_right l r c' \<longleftrightarrow>
     u_compression_type c' = u_compression_type (if use_right then r else l) \<and>
     (if use_right then use_right_crc l r \<and> u_offset c' = u_offset r - ucast (u_live_size l) else u_offset c' = u_offset l)"

lemma use_right_offset:
  assumes "use_right_crc l r"
  shows "unat (u_offset r - ucast (u_live_size l)) = unat (u_offset r) - unat (u_live_size l)" "unat (u_live_size l) \<le> unat (u_offset r)"
proof -
  show le: "unat (u_live_size l) \<le> unat (u_offset r)"
    using assms by (simp add: use_right_crc_def word_le_nat_alt unat_ucast_up)
  then have "unat (ucast (u_live_size l) :: u16) = unat (u_live_size l)"
    using unsigned_less [of "u_offset r", where ?'a = nat] by (intro unat_ucast_small) (simp del: unsigned_less)
  with le show "unat (u_offset r - ucast (u_live_size l)) = unat (u_offset r) - unat (u_live_size l)"
    by (simp add: unat_sub word_le_nat_alt)
qed

lemma merge_crc_state:
  assumes "extent_entry_is_crc el" "extent_entry_type el = extent_entry_type er" "merge_crc kl kr el er = (e', ur)"
  shows "extent_entry_is_crc e' \<and> merge_state ur (bch2_extent_crc_unpack kl el) (bch2_extent_crc_unpack kr er) (bch2_extent_crc_unpack k' e')"
proof -
  have er: "extent_entry_is_crc er" using assms(1,2) by (simp add: extent_entry_is_crc_def)
  let ?l = "bch2_extent_crc_unpack kl el" and ?r = "bch2_extent_crc_unpack kr er"
  note bl = unpack_field_bounds [OF assms(1), of kl] and br = unpack_field_bounds [OF er, of kr]
  consider (left) "use_left_crc ?l ?r" | (right) "\<not> use_left_crc ?l ?r" "use_right_crc ?l ?r"
    | (both) "\<not> use_left_crc ?l ?r" "\<not> use_right_crc ?l ?r" by blast
  then show ?thesis
  proof cases
    case left
    have "u_offset (bch2_extent_crc_unpack k' el) = u_offset ?l \<and> u_compression_type (bch2_extent_crc_unpack k' el) = u_compression_type ?l"
      using assms(1) by (cases el) (simp_all add: bch2_extent_crc_unpack.simps)
    with left show ?thesis using assms(1,3) by (auto simp: merge_crc_def Let_def merge_state_def)
  next
    case right
    have "unat (u_offset ?r - ucast (u_live_size ?l)) < 2 ^ offset_bits (extent_entry_type el)"
      using use_right_offset(1) [OF right(2)] br assms(2) by (simp add: less_imp_diff_less)
    with right show ?thesis
      using assms(1,3) br pack_or_keep_unpack [OF assms(1), of "?r\<lparr>u_offset := u_offset ?r - ucast (u_live_size ?l)\<rparr>" k']
      by (auto simp: merge_crc_def Let_def merge_state_def)
  next
    case both
    then obtain csum where e': "ur = False" "e' = pack_or_keep el (?l\<lparr>u_csum := csum,
        u_uncompressed_size := u_uncompressed_size ?l + u_uncompressed_size ?r,
        u_compressed_size := u_compressed_size ?l + u_compressed_size ?r\<rparr>)"
      using assms(3) by (auto simp: merge_crc_def Let_def)
    then show ?thesis unfolding e' merge_state_def
      using bl pack_or_keep_unpack [OF assms(1), of "?l\<lparr>u_csum := csum, u_uncompressed_size := u_uncompressed_size ?l + u_uncompressed_size ?r,
        u_compressed_size := u_compressed_size ?l + u_compressed_size ?r\<rparr>" k'] by simp
  qed
qed

section \<open>Where the merged extent finds its data\<close>

abbreviation (input) same_addr :: "bkey \<Rightarrow> bkey \<Rightarrow> ptr_view \<Rightarrow> ptr_view \<Rightarrow> bool" where
  "same_addr k k' v v' \<equiv> \<forall>x. data_addr k v x = data_addr k' v' x"

text \<open>What the checks leave of two pointers that are not compressed: the same device, and the right data follows the left.\<close>

definition contiguous :: "ptr_view \<Rightarrow> ptr_view \<Rightarrow> bool" where
  "contiguous v w \<longleftrightarrow>
     (case (v, w) of ((c, p, _), (d, q, _)) \<Rightarrow>
        p_dev p = p_dev q \<and> p_gen p = p_gen q \<and> u_compression_type c = u_compression_type d \<and> \<not> crc_is_compressed c \<and>
        unat (p_offset p) + unat (u_offset c) + unat (u_live_size c) = unat (p_offset q) + unat (u_offset d))"

lemma merge_ptr_contiguous:
  assumes "merge_ptr_ok devs m lp rp" "\<not> crc_is_compressed (d_crc lp)"
  shows "contiguous (ptr_view lp) (ptr_view rp)"
proof -
  let ?l = "d_crc lp" and ?r = "d_crc rp"
  have eq: "(ucast (p_offset (d_ptr lp)) + ucast (u_offset ?l) + ucast (u_live_size ?l) :: u64) = ucast (p_offset (d_ptr rp)) + ucast (u_offset ?r)"
    using assms(1) by (simp add: merge_ptr_ok_def Let_def)
  have b: "unat (p_offset (d_ptr lp)) < 2 ^ 44" "unat (u_offset ?l) < 2 ^ 16" "unat (u_live_size ?l) < 2 ^ 32"
    "unat (p_offset (d_ptr rp)) < 2 ^ 44" "unat (u_offset ?r) < 2 ^ 16"
    using unsigned_less [of "p_offset (d_ptr lp)", where ?'a = nat] unsigned_less [of "u_offset ?l", where ?'a = nat]
      unsigned_less [of "u_live_size ?l", where ?'a = nat] unsigned_less [of "p_offset (d_ptr rp)", where ?'a = nat]
      unsigned_less [of "u_offset ?r", where ?'a = nat] by (simp_all del: unsigned_less)
  have "unat (p_offset (d_ptr lp)) + unat (u_offset ?l) + unat (u_live_size ?l) = unat (p_offset (d_ptr rp)) + unat (u_offset ?r)"
    using arg_cong [OF eq, of unat] b by (simp add: unat_word_ariths unat_ucast_up mod_less)
  then show ?thesis using assms by (simp add: contiguous_def ptr_view_def merge_ptr_ok_def Let_def)
qed

lemma merged_ptr_data:
  assumes "contiguous (cl, pl, el) (cr, pr, er)" "merge_state ur cl cr c'"
    "u_live_size cl = k_size kl" "uint (bkey_start_offset kr) = uint (bkey_start_offset kl) + uint (k_size kl)"
    "bkey_start_offset k' = bkey_start_offset kl"
  shows "same_addr kl k' (cl, pl, el) (c', if ur then pr else pl, e')" "same_addr kr k' (cr, pr, er) (c', if ur then pr else pl, e')"
proof -
  have f: "p_dev pl = p_dev pr" "p_gen pl = p_gen pr" "\<not> crc_is_compressed cl" "\<not> crc_is_compressed cr" "\<not> crc_is_compressed c'"
    using assms(1,2) by (auto simp: contiguous_def crc_is_compressed_def merge_state_def)
  have "unat (p_offset pl) + unat (u_offset cl) + unat (u_live_size cl) = unat (p_offset pr) + unat (u_offset cr)"
    using assms(1) by (simp add: contiguous_def)
  from arg_cong [OF this, of int]
  have c: "uint (p_offset pl) + uint (u_offset cl) + uint (k_size kl) = uint (p_offset pr) + uint (u_offset cr)"
    by (simp add: assms(3))
  have r: "uint (u_offset c') = uint (u_offset cr) - uint (k_size kl)" if "ur"
    using that assms(2) arg_cong [OF use_right_offset(1) [of cl cr], of int] use_right_offset(2) [of cl cr]
    by (simp add: merge_state_def assms(3) of_nat_diff)
  have l: "u_offset c' = u_offset cl" if "\<not> ur" using that assms(2) by (simp add: merge_state_def)
  show "same_addr kl k' (cl, pl, el) (c', if ur then pr else pl, e')" "same_addr kr k' (cr, pr, er) (c', if ur then pr else pl, e')"
    using f c r l assms(4,5) by (auto simp: data_addr_def Let_def)
qed

lemma unpack_live_size: "extent_entry_is_crc e \<Longrightarrow> u_live_size (bch2_extent_crc_unpack k e) = k_size k"
  by (cases e) (simp_all add: bch2_extent_crc_unpack.simps)

lemma merge_views:
  assumes "uint (bkey_start_offset kr) = uint (bkey_start_offset kl) + uint (k_size kl)" "bkey_start_offset k' = bkey_start_offset kl"
  shows "merge_types_ok ls rs \<Longrightarrow> list_all2 contiguous (views_from kl (cl, el) ls) (views_from kr (cr, er) rs) \<Longrightarrow>
    merge_state ur cl cr c' \<Longrightarrow> u_live_size cl = k_size kl \<Longrightarrow>
    list_all2 (same_addr kl k') (views_from kl (cl, el) ls) (views_from k' (c', e') (merge_entries kl kr ur ls rs)) \<and>
    list_all2 (same_addr kr k') (views_from kr (cr, er) rs) (views_from k' (c', e') (merge_entries kl kr ur ls rs))"
proof (induction ls rs arbitrary: cl el cr er ur c' e' rule: merge_types_ok.induct)
  case (1 l ls r rs)
  have ty: "extent_entry_type l = extent_entry_type r" and tys: "merge_types_ok ls rs" using "1.prems"(1) by simp_all
  consider (ptr) pl pr where "l = E_ptr pl" "r = E_ptr pr" | (crc) "extent_entry_is_crc l" "extent_entry_is_crc r"
    | (stripe) s t where "l = E_stripe_ptr s" "r = E_stripe_ptr t"
    | (other) "views_from kl (cl, el) (l # ls) = views_from kl (cl, el) ls" "views_from kr (cr, er) (r # rs) = views_from kr (cr, er) rs"
        "merge_entries kl kr ur (l # ls) (r # rs) = l # merge_entries kl kr ur ls rs"
        "\<And>es. views_from k' (c', e') (l # es) = views_from k' (c', e') es"
    using ty by (cases l; cases r) simp_all
  then show ?case
  proof cases
    case ptr
    then have h: "contiguous (cl, pl, el) (cr, pr, er)" "list_all2 contiguous (views_from kl (cl, None) ls) (views_from kr (cr, None) rs)"
      using "1.prems"(2) by simp_all
    note addr = merged_ptr_data [OF h(1) "1.prems"(3,4) assms, of e']
    show ?thesis using addr "1.IH" [OF tys h(2) "1.prems"(3,4), of None] by (cases ur) (simp_all add: ptr)
  next
    case crc
    obtain e ur' where m: "merge_crc kl kr l r = (e, ur')" by (cases "merge_crc kl kr l r")
    note st = merge_crc_state [OF crc(1) ty m, of k']
    have v: "views_from k st (x # es) = views_from k (bch2_extent_crc_unpack k x, snd st) es" if "extent_entry_is_crc x" for k st x es
      using that by (cases st; cases x) simp_all
    have p: "\<not> extent_entry_is_ptr l" using crc(1) by (cases l) simp_all
    have "list_all2 contiguous (views_from kl (bch2_extent_crc_unpack kl l, el) ls) (views_from kr (bch2_extent_crc_unpack kr r, er) rs)"
      using "1.prems"(2) by (simp add: v crc del: views_from.simps)
    from "1.IH" [OF tys this conjunct2 [OF st] unpack_live_size [OF crc(1)], of e']
    show ?thesis using st by (simp add: v crc m p del: views_from.simps)
  next
    case stripe
    then show ?thesis using "1.IH" [OF tys _ "1.prems"(3,4), of "Some s" "Some t" "Some s"] "1.prems"(2) by simp
  next
    case other
    then show ?thesis using "1.IH" [OF tys _ "1.prems"(3,4), of el er e'] "1.prems"(2) by simp
  qed
qed simp_all

lemma merge_ptrs_contiguous:
  assumes "merge_types_ok (bs_ptrs l) (bs_ptrs r)"
    "list_all (\<lambda>((lp, _), (rp, _)). merge_ptr_ok devs m lp rp)
       (zip (bkey_for_each_ptr_decode (bs_k l) p0 (bs_ptrs l)) (bkey_for_each_ptr_decode (bs_k r) p0 (bs_ptrs r)))"
    "\<forall>c p ec. (c, p, ec) \<in> set (ptr_views (bs_k l) (bs_ptrs l)) \<longrightarrow> \<not> crc_is_compressed c"
  shows "list_all2 contiguous (ptr_views (bs_k l) (bs_ptrs l)) (ptr_views (bs_k r) (bs_ptrs r))"
proof -
  let ?xs = "bkey_for_each_ptr_decode (bs_k l) p0 (bs_ptrs l)" and ?ys = "bkey_for_each_ptr_decode (bs_k r) p0 (bs_ptrs r)"
  have "length (views_from kl st ls) = length (views_from kr st' rs)" if "merge_types_ok ls rs" for kl kr st st' ls rs
    using that
  proof (induction ls rs arbitrary: st st' rule: merge_types_ok.induct)
    case (1 l ls r rs)
    then show ?case by (cases l; cases r) simp_all
  qed simp_all
  from this [OF assms(1)] have len: "length (ptr_views (bs_k l) (bs_ptrs l)) = length (ptr_views (bs_k r) (bs_ptrs r))"
    by (simp add: ptr_views_def)
  have nc: "\<not> crc_is_compressed (d_crc (fst x))" if "x \<in> set ?xs" for x
  proof -
    have "ptr_view (fst x) \<in> set (ptr_views (bs_k l) (bs_ptrs l))"
      using that by (simp add: for_each_ptr_decode_views [of "bs_k l" p0 "bs_ptrs l", symmetric])
    then show ?thesis using assms(3) unfolding ptr_view_def by blast
  qed
  have "contiguous (ptr_view (fst x)) (ptr_view (fst y))" if "(x, y) \<in> set (zip ?xs ?ys)" for x y
    using that assms(2) nc [OF set_zip_leftD [OF that]] by (intro merge_ptr_contiguous) (fastforce simp: list_all_iff)+
  moreover have "length ?xs = length ?ys"
    using len by (simp add: for_each_ptr_decode_views [of _ p0, symmetric])
  ultimately show ?thesis
    unfolding for_each_ptr_decode_views [of _ p0, symmetric] list_all2_map1 list_all2_map2
    by (simp add: list_all2_iff split_beta)
qed

lemma merge_keys:
  assumes "extent_offsets_ok l" "bkey_start_offset (bs_k r) = bp_offset (k_p (bs_k l))"
    "unat (k_size (bs_k l)) + unat (k_size (bs_k r)) < 2 ^ 32"
  defines "k' \<equiv> bch2_key_resize (bs_k l) (k_size (bs_k l) + k_size (bs_k r))"
  shows "uint (bkey_start_offset (bs_k r)) = uint (bkey_start_offset (bs_k l)) + uint (k_size (bs_k l))"
    "bkey_start_offset k' = bkey_start_offset (bs_k l)" "bp_offset (k_p k') = bp_offset (k_p (bs_k r))"
    "unat (k_size k') = unat (k_size (bs_k l)) + unat (k_size (bs_k r))"
proof -
  have "unat (bkey_start_offset (bs_k r)) = unat (bkey_start_offset (bs_k l)) + unat (k_size (bs_k l))"
    using start_offset_unat [OF assms(1)] assms(1,2) by (simp add: extent_offsets_ok_def)
  from arg_cong [OF this, of int] show "uint (bkey_start_offset (bs_k r)) = uint (bkey_start_offset (bs_k l)) + uint (k_size (bs_k l))"
    by simp
  show sz: "unat (k_size k') = unat (k_size (bs_k l)) + unat (k_size (bs_k r))"
    using assms(3) by (simp add: k'_def bch2_key_resize_def unat_word_ariths)
  show "bkey_start_offset k' = bkey_start_offset (bs_k l)"
    by (simp add: k'_def bch2_key_resize_def bkey_start_offset_def)
  have "(ucast (k_size (bs_k l) + k_size (bs_k r)) :: u64) = ucast (k_size (bs_k l)) + ucast (k_size (bs_k r))"
    using assms(3) by (simp add: word_unat_eq_iff unat_word_ariths unat_ucast_up)
  then show "bp_offset (k_p k') = bp_offset (k_p (bs_k r))"
    using assms(2) by (simp add: k'_def bch2_key_resize_def bkey_start_offset_def)
      (metis add.commute diff_add_cancel)
qed

lemma merge_guard:
  assumes "bch2_bkey_merge md devs m p0 l r = Some l'"
  shows "bkey_start_offset (bs_k r) = bp_offset (k_p (bs_k l))" "unat (k_size (bs_k l)) + unat (k_size (bs_k r)) < 2 ^ 32"
proof -
  have g: "bpos_eq (k_p (bs_k l)) (bkey_start_pos (bs_k r))" "(ucast (k_size (bs_k l)) + ucast (k_size (bs_k r)) :: u64) \<le> 0xFFFFFFFF"
    using assms by (auto simp: bch2_bkey_merge_def bch2_bkey_maybe_mergable_def split: if_splits)
  show "bkey_start_offset (bs_k r) = bp_offset (k_p (bs_k l))"
    using g(1) by (simp add: bpos_eq_iff bkey_start_pos_def)
  have "unat (k_size (bs_k l)) < 2 ^ 32" "unat (k_size (bs_k r)) < 2 ^ 32"
    using unsigned_less [of "k_size (bs_k l)", where ?'a = nat] unsigned_less [of "k_size (bs_k r)", where ?'a = nat] by (simp_all del: unsigned_less)
  then show "unat (k_size (bs_k l)) + unat (k_size (bs_k r)) < 2 ^ 32"
    using g(2) by (simp add: word_le_nat_alt unat_word_ariths unat_ucast_up)
qed

text \<open>An extent of inode 1 with one pointer and a \<open>crc32\<close> entry for examples.\<close>

definition crc_extent :: "4 word \<Rightarrow> 7 word \<Rightarrow> 7 word \<Rightarrow> 44 word \<Rightarrow> u32 \<Rightarrow> u64 \<Rightarrow> bkey_s" where
  "crc_extent compression_type compressed_size uncompressed_size sector live_size end_offset =
     \<lparr>bs_k = \<lparr>k_u64s = 7, k_format = 0, k_needs_whiteout = False, k_type = KEY_TYPE_extent, k_pad = 0,
        k_bversion = \<lparr>bv_hi = 0, bv_lo = 0\<rparr>, k_size = live_size, k_p = SPOS 1 end_offset 0\<rparr>,
      bs_hdr = [],
      bs_ptrs = [E_crc32 \<lparr>c32_compressed_size = compressed_size - 1, c32_uncompressed_size = uncompressed_size - 1, c32_offset = 0,
                           c32_csum_type = 5, c32_compression_type = compression_type, c32_csum = 0xdeadbeef\<rparr>,
                 E_ptr (example_ptr 1\<lparr>p_offset := sector\<rparr>)],
      bs_tail = []\<rparr>"

lemma crc_extent_decode:
  "bkey_for_each_ptr_decode k p [E_crc32 c, E_ptr q] =
     [(p\<lparr>d_crc := bch2_extent_crc_unpack k (E_crc32 c), d_has_ec := False, d_do_ec_reconstruct := False, d_crc_retry_nr := 0, d_ptr := q\<rparr>, [E_ptr q])]"
  by (simp add: bkey_for_each_ptr_decode_def bkey_ptr_next_decode_def for_each_ptr_decode_from.simps [of _ _ "[]"]
      for_each_ptr_decode_from.simps [of _ _ "_ # _"])

lemmas crc_extent_eval = crc_extent_def example_ptr_def bch2_bkey_merge_def bch2_bkey_maybe_mergable_def bpos_eq_iff
  bkey_start_pos_def bkey_start_offset_def bversion_cmp_def bch2_extent_merge_def crc_extent_decode merge_ptr_ok_def Let_def
  bch2_extent_crc_unpack.simps same_bucket_def PTR_BUCKET_NR_def use_left_crc_def use_right_crc_def crc_is_compressed_def
  elvis_def bch2_crc_field_size_max_def CRC32_SIZE_MAX_def

text \<open>
  The check that the right data follows the left adds the offset in the uncompressed data to the position of
  the compressed data. For compressed extents its success says nothing: the right extent below is one of
  its own, at the sector after the four live ones of the left extent, with the same compression type. The
  checks pass, the left checksum entry is taken to cover both, and the merged extent reads sectors 4 to 11
  of the file from the data of the left extent.
\<close>

lemma merge_compressed_addr:
  fixes devs m p0
  assumes "devs 1 = Some 1024"
  defines "l \<equiv> crc_extent 4 4 16 100 4 4" and "r \<equiv> crc_extent 4 4 8 104 8 12"
  shows "\<exists>l'. bch2_bkey_merge False devs m p0 l r = Some l' \<and> bs_ptrs l' = bs_ptrs l \<and>
    data_addr (bs_k r) (hd (ptr_views (bs_k r) (bs_ptrs r))) 4 = (1, 3, 104, 0) \<and>
    data_addr (bs_k l') (hd (ptr_views (bs_k l') (bs_ptrs l'))) 4 = (1, 3, 100, 4)"
  using assms(1)
  by (simp add: l_def r_def crc_extent_eval merge_crc_def ptr_views_def data_addr_def bch2_key_resize_def)

section \<open>Properties\<close>



end
