(* ===== verification/Bubble_Sort.thy ===== *)
theory Bubble_Sort
  imports Bch_Prelude "HOL-Library.Multiset"
begin

text \<open>
  The macro \<open>bubble_sort\<close> of \<^verbatim>\<open>libbcachefs/util.h\<close>, for short arrays such as the skip list of a
  snapshot node: passes that move the greatest element to the end, until one of them swaps nothing. The theory shows that it sorts.
\<close>

section \<open>The macro\<close>

function bubble_pass :: "('a \<Rightarrow> 'a \<Rightarrow> int) \<Rightarrow> nat \<Rightarrow> nat \<Rightarrow> 'a list \<times> bool \<Rightarrow> 'a list \<times> bool" where
  "bubble_pass cmp last_i i (a, swapped) =
     (if i < last_i
      then if cmp (a ! i) (a ! (i + 1)) > 0
           then bubble_pass cmp last_i (i + 1) (a[i := a ! (i + 1), i + 1 := a ! i], True)
           else bubble_pass cmp last_i (i + 1) (a, swapped)
      else (a, swapped))"
  by pat_completeness auto
termination by (relation "measure (\<lambda>(cmp, last_i, i, s). last_i - i)") auto

declare bubble_pass.simps [simp del]

fun bubble_loop :: "('a \<Rightarrow> 'a \<Rightarrow> int) \<Rightarrow> nat \<Rightarrow> bool \<Rightarrow> 'a list \<Rightarrow> 'a list" where
  "bubble_loop cmp 0 swapped a = a"
| "bubble_loop cmp (Suc n) swapped a =
     (if swapped then let (a, swapped) = bubble_pass cmp (Suc n) 0 (a, False) in bubble_loop cmp n swapped a else a)"

definition bubble_sort :: "('a \<Rightarrow> 'a \<Rightarrow> int) \<Rightarrow> 'a list \<Rightarrow> 'a list" where
  "bubble_sort cmp a = bubble_loop cmp (length a - 1) True a"

section \<open>It sorts\<close>

text \<open>A three-way comparison of a linear order.\<close>

locale three_way =
  fixes cmp :: "'a::linorder \<Rightarrow> 'a \<Rightarrow> int"
  assumes cmp_greater: "0 < cmp x y \<longleftrightarrow> y < x"
begin

lemma swap_mset: "Suc i < length a \<Longrightarrow> mset (a[i := a ! Suc i, Suc i := a ! i]) = mset a"
  using mset_swap [of "Suc i" a i] by simp

text \<open>What a pass from \<open>i\<close> on does when the element at \<open>i\<close> is the greatest so far.\<close>

lemma pass_correct:
  assumes "i \<le> n" "n < length a" "\<forall>j \<le> i. a ! j \<le> a ! i" "sw \<or> sorted (take (Suc i) a)" "bubble_pass cmp n i (a, sw) = (b, sw')"
  shows "mset b = mset a \<and> mset (take (Suc n) b) = mset (take (Suc n) a) \<and> drop (Suc n) b = drop (Suc n) a \<and>
    (\<forall>j \<le> n. b ! j \<le> b ! n) \<and> (sw' \<or> sorted (take (Suc n) b))"
  using assms
proof (induction "n - i" arbitrary: i a sw)
  case 0
  then show ?case by (auto simp: bubble_pass.simps)
next
  case (Suc d)
  have i: "Suc i \<le> n" "Suc i < length a" using Suc.hyps(2) Suc.prems(2) by linarith+
  define c where "c = (if a ! Suc i < a ! i then (a[i := a ! Suc i, Suc i := a ! i], True) else (a, sw))"
  have pass: "bubble_pass cmp n (Suc i) (fst c, snd c) = (b, sw')"
    using Suc.prems(5) i(1) by (simp add: bubble_pass.simps [of cmp n i] cmp_greater c_def split: if_splits)
  have len: "length (fst c) = length a" by (simp add: c_def)
  have max: "\<forall>j \<le> Suc i. fst c ! j \<le> fst c ! Suc i"
    using Suc.prems(3) i(2) by (auto simp: c_def nth_list_update le_Suc_eq not_less intro: order_trans)
  have "take (Suc (Suc i)) a = take (Suc i) a @ [a ! Suc i]" using i(2) by (simp add: take_Suc_conv_app_nth)
  moreover have "\<forall>x \<in> set (take (Suc i) a). x \<le> a ! i" using Suc.prems(3) i(2) by (auto simp: in_set_conv_nth)
  ultimately have srt: "snd c \<or> sorted (take (Suc (Suc i)) (fst c))"
    using Suc.prems(4) by (auto simp: c_def sorted_append not_less intro: order_trans)
  have ms: "mset (fst c) = mset a" using swap_mset [OF i(2)] by (simp add: c_def)
  have tk: "mset (take (Suc n) (fst c)) = mset (take (Suc n) a)"
    using swap_mset [of i "take (Suc n) a"] i Suc.prems(2) by (simp add: c_def take_update_swap)
  have dr: "drop (Suc n) (fst c) = drop (Suc n) a" using i(1) by (simp add: c_def drop_update_cancel)
  have "d = n - Suc i" using Suc.hyps(2) by linarith
  from Suc.hyps(1) [OF this i(1) _ max srt pass] show ?case using Suc.prems(2) len ms tk dr by simp
qed

text \<open>Before each pass the elements from \<open>n + 1\<close> on are in place.\<close>

lemma loop_correct:
  assumes "n < length a" "sorted (drop (Suc n) a)" "\<forall>x \<in> set (take (Suc n) a). \<forall>y \<in> set (drop (Suc n) a). x \<le> y"
    "sw \<or> sorted (take (Suc n) a)"
  shows "mset (bubble_loop cmp n sw a) = mset a \<and> sorted (bubble_loop cmp n sw a)"
  using assms
proof (induction n arbitrary: a sw)
  case 0
  then show ?case by (cases a) auto
next
  case (Suc n)
  show ?case
  proof (cases sw)
    case False
    have "sorted (take (Suc (Suc n)) a @ drop (Suc (Suc n)) a)" using Suc.prems False unfolding sorted_append by blast
    then show ?thesis using False by simp
  next
    case True
    obtain b sw' where b: "bubble_pass cmp (Suc n) 0 (a, False) = (b, sw')" by fastforce
    have "sorted (take (Suc 0) a)" by (cases a) simp_all
    then have p: "mset b = mset a" "mset (take (Suc (Suc n)) b) = mset (take (Suc (Suc n)) a)" "drop (Suc (Suc n)) b = drop (Suc (Suc n)) a"
      "\<forall>j \<le> Suc n. b ! j \<le> b ! Suc n" "sw' \<or> sorted (take (Suc (Suc n)) b)"
      using pass_correct [OF _ Suc.prems(1) _ _ b] by simp_all
    have len: "length b = length a" using p(1) by (metis size_mset)
    have tk: "take (Suc (Suc n)) b = take (Suc n) b @ [b ! Suc n]" and dr: "drop (Suc n) b = b ! Suc n # drop (Suc (Suc n)) b"
      using Suc.prems(1) len by (simp_all add: take_Suc_conv_app_nth Cons_nth_drop_Suc)
    have st: "set (take (Suc n) b) \<union> {b ! Suc n} = set (take (Suc (Suc n)) a)"
      using mset_eq_setD [OF p(2)] tk by simp
    have "\<forall>x \<in> set (take (Suc n) b). x \<le> b ! Suc n" using p(4) Suc.prems(1) len by (auto simp: in_set_conv_nth)
    then have "\<forall>x \<in> set (take (Suc n) b). \<forall>y \<in> set (drop (Suc n) b). x \<le> y"
      using st Suc.prems(3) unfolding dr p(3) by auto
    moreover have "sorted (drop (Suc n) b)" using st Suc.prems(2,3) unfolding dr p(3) by auto
    moreover have "sw' \<or> sorted (take (Suc n) b)" using p(5) tk by (auto simp: sorted_append)
    ultimately show ?thesis using Suc.IH [of b sw'] Suc.prems(1) len True b p(1) by simp
  qed
qed

lemma bubble_sort_correct: "mset (bubble_sort cmp a) = mset a" "sorted (bubble_sort cmp a)"
proof -
  have "mset (bubble_sort cmp a) = mset a \<and> sorted (bubble_sort cmp a)"
  proof (cases "a = []")
    case False
    then show ?thesis using loop_correct [of "length a - 1" a True] by (simp add: bubble_sort_def)
  qed (simp add: bubble_sort_def)
  then show "mset (bubble_sort cmp a) = mset a" "sorted (bubble_sort cmp a)" by simp_all
qed

end

end
