(* ===== verification/Snapshot.thy ===== *)
theory Snapshot
  imports Bpos Bubble_Sort
begin

text \<open>
  Snapshot nodes (\<^verbatim>\<open>libbcachefs/snapshot.c\<close>, \<^verbatim>\<open>snapshot.h\<close>): the table of the nodes in memory, the test whether one
  snapshot is an ancestor of another, which follows skip lists and then looks in a bitmap of the 128 next
  ids, and what fills the table: reading the snapshots btree and creating nodes.

  A node has a greater id than its children. The table is \<open>None\<close> before it is allocated; the entry of an id is at index
  \<open>U32_MAX - sid\<close>. The loops along parents need not end on a corrupt table; they are partial functions
  with values in \<open>option\<close>. Memory allocation, random numbers, the header size of the table and the keys a btree
  iterator returns are parameters. Locking and the start of the background deletion are left out.
\<close>

unbundle bit_operations_syntax

section \<open>The table\<close>

definition IS_ANCESTOR_BITMAP :: u32 where "IS_ANCESTOR_BITMAP = 128"

datatype snapshot_id_state = SNAPSHOT_ID_empty | SNAPSHOT_ID_live | SNAPSHOT_ID_deleted

record snapshot_struct =
  st_state :: snapshot_id_state
  st_parent :: u32
  st_skip :: "u32 list"
  st_depth :: u32
  st_children :: "u32 list"
  st_subvol :: u32
  st_tree :: u32
  st_is_ancestor :: "128 word"

text \<open>An entry of zero bytes.\<close>

definition snapshot_zero :: snapshot_struct where
  "snapshot_zero = \<lparr>st_state = SNAPSHOT_ID_empty, st_parent = 0, st_skip = [0, 0, 0], st_depth = 0, st_children = [0, 0],
     st_subvol = 0, st_tree = 0, st_is_ancestor = 0\<rparr>"

type_synonym snapshot_table = "snapshot_struct list option"

definition snapshot_idx :: "u32 \<Rightarrow> nat" where
  "snapshot_idx sid = unat (- 1 - sid)"

definition snapshot_t :: "snapshot_table \<Rightarrow> u32 \<Rightarrow> snapshot_struct option" where
  "snapshot_t t sid =
     (let idx = snapshot_idx sid in
      case t of Some s \<Rightarrow> if idx < length s then Some (s ! idx) else None | None \<Rightarrow> None)"

definition bch2_snapshot_tree :: "snapshot_table \<Rightarrow> u32 \<Rightarrow> u32" where
  "bch2_snapshot_tree t sid = (case snapshot_t t sid of Some s \<Rightarrow> st_tree s | None \<Rightarrow> 0)"

definition bch2_snapshot_parent_early :: "snapshot_table \<Rightarrow> u32 \<Rightarrow> u32" where
  "bch2_snapshot_parent_early t sid = (case snapshot_t t sid of Some s \<Rightarrow> st_parent s | None \<Rightarrow> 0)"

text \<open>The consistency check of debug builds is left out.\<close>

definition bch2_snapshot_parent :: "snapshot_table \<Rightarrow> u32 \<Rightarrow> u32" where
  "bch2_snapshot_parent t sid = (case snapshot_t t sid of None \<Rightarrow> 0 | Some s \<Rightarrow> st_parent s)"

definition bch2_snapshot_nth_parent :: "snapshot_table \<Rightarrow> u32 \<Rightarrow> u32 \<Rightarrow> u32" where
  "bch2_snapshot_nth_parent t sid n = (bch2_snapshot_parent t ^^ unat n) sid"

partial_function (option) bch2_snapshot_root :: "snapshot_table \<Rightarrow> u32 \<Rightarrow> u32 option" where
  "bch2_snapshot_root t sid =
     (let parent = bch2_snapshot_parent t sid in
      if parent \<noteq> 0 then bch2_snapshot_root t parent else Some sid)"

definition bch2_snapshot_id_state :: "snapshot_table \<Rightarrow> u32 \<Rightarrow> snapshot_id_state" where
  "bch2_snapshot_id_state t sid = (case snapshot_t t sid of Some s \<Rightarrow> st_state s | None \<Rightarrow> SNAPSHOT_ID_empty)"

definition bch2_snapshot_exists :: "snapshot_table \<Rightarrow> u32 \<Rightarrow> bool" where
  "bch2_snapshot_exists t sid = (bch2_snapshot_id_state t sid = SNAPSHOT_ID_live)"

text \<open>\<open>None\<close> is an access through a null pointer.\<close>

definition bch2_snapshot_depth :: "snapshot_table \<Rightarrow> u32 \<Rightarrow> u32 option" where
  "bch2_snapshot_depth t parent = (if parent \<noteq> 0 then map_option (\<lambda>s. st_depth s + 1) (snapshot_t t parent) else Some 0)"

definition bch2_snapshot_has_children :: "snapshot_table \<Rightarrow> u32 \<Rightarrow> bool" where
  "bch2_snapshot_has_children t sid =
     (case snapshot_t t sid of Some s \<Rightarrow> st_children s ! 0 OR st_children s ! 1 \<noteq> 0 | None \<Rightarrow> False)"

section \<open>Ancestors\<close>

partial_function (option) is_ancestor_early :: "snapshot_table \<Rightarrow> u32 \<Rightarrow> u32 \<Rightarrow> bool option" where
  "is_ancestor_early t sid ancestor =
     (if sid \<noteq> 0 \<and> sid < ancestor
      then is_ancestor_early t (case snapshot_t t sid of Some s \<Rightarrow> st_parent s | None \<Rightarrow> 0) ancestor
      else Some (sid = ancestor))"

definition get_ancestor_below :: "snapshot_table \<Rightarrow> u32 \<Rightarrow> u32 \<Rightarrow> u32" where
  "get_ancestor_below t sid ancestor =
     (case snapshot_t t sid of
        None \<Rightarrow> 0
      | Some s \<Rightarrow>
          if st_skip s ! 2 \<le> ancestor then st_skip s ! 2
          else if st_skip s ! 1 \<le> ancestor then st_skip s ! 1
          else if st_skip s ! 0 \<le> ancestor then st_skip s ! 0
          else st_parent s)"

definition test_ancestor_bitmap :: "snapshot_table \<Rightarrow> u32 \<Rightarrow> u32 \<Rightarrow> bool" where
  "test_ancestor_bitmap t sid ancestor =
     (case snapshot_t t sid of
        None \<Rightarrow> False
      | Some s \<Rightarrow> bit (st_is_ancestor s) (unat (ancestor - sid - 1)))"

partial_function (option) skip_loop :: "snapshot_table \<Rightarrow> u32 \<Rightarrow> u32 \<Rightarrow> u32 option" where
  "skip_loop t sid ancestor =
     (if sid \<noteq> 0 \<and> sid < ancestor - IS_ANCESTOR_BITMAP
      then skip_loop t (get_ancestor_below t sid ancestor) ancestor
      else Some sid)"

text \<open>\<open>checked\<close> says that the recovery pass \<open>check_snapshots\<close> is done.\<close>

definition is_ancestor_raw :: "bool \<Rightarrow> snapshot_table \<Rightarrow> u32 \<Rightarrow> u32 \<Rightarrow> bool option" where
  "is_ancestor_raw checked t sid ancestor =
     (if \<not> checked then is_ancestor_early t sid ancestor
      else
        map_option (\<lambda>sid. if sid \<noteq> 0 \<and> sid < ancestor then test_ancestor_bitmap t sid ancestor else sid = ancestor)
          (if ancestor \<ge> IS_ANCESTOR_BITMAP then skip_loop t sid ancestor else Some sid))"

definition bch2_snapshot_is_ancestor :: "bool \<Rightarrow> snapshot_table \<Rightarrow> u32 \<Rightarrow> u32 \<Rightarrow> bool option" where
  "bch2_snapshot_is_ancestor checked t sid ancestor =
     (if sid = ancestor then Some True else is_ancestor_raw checked t sid ancestor)"

section \<open>Filling the table\<close>

record bch_snapshot =
  sv_will_delete :: bool
  sv_is_subvol :: bool
  sv_deleted :: bool
  sv_parent :: u32
  sv_children :: "u32 list"
  sv_subvol :: u32
  sv_tree :: u32
  sv_depth :: u32
  sv_skip :: "u32 list"

text \<open>A key of the snapshots btree: the size of its value in bytes and the value, or a key of another type.\<close>

datatype snapshot_key = KEY_snapshot nat bch_snapshot | KEY_other

text \<open>The validity of a key at position \<open>(inode, offset)\<close>.\<close>

definition snapshot_skip_valid :: "u32 \<Rightarrow> u32 list \<Rightarrow> bool" where
  "snapshot_skip_valid parent skip =
     (\<not> (skip ! 0 > skip ! 1 \<or> skip ! 1 > skip ! 2) \<and> list_all (\<lambda>sid. \<not> (sid \<noteq> 0 \<and> sid < parent)) skip)"

definition bch2_snapshot_validate :: "bpos \<Rightarrow> nat \<Rightarrow> bch_snapshot \<Rightarrow> bool" where
  "bch2_snapshot_validate p val_bytes s =
     (\<not> (bkey_gt p (SPOS 0 0xffffffff 0) \<or> bkey_lt p (SPOS 0 1 0)) \<and>
      \<not> (sv_parent s \<noteq> 0 \<and> ucast (sv_parent s) \<le> bp_offset p) \<and>
      \<not> sv_children s ! 0 < sv_children s ! 1 \<and>
      \<not> (sv_children s ! 0 \<noteq> 0 \<and> sv_children s ! 0 = sv_children s ! 1) \<and>
      \<not> ucast (sv_children s ! 0) \<ge> bp_offset p \<and> \<not> ucast (sv_children s ! 1) \<ge> bp_offset p \<and>
      (val_bytes > 28 \<longrightarrow> snapshot_skip_valid (sv_parent s) (sv_skip s)))"

text \<open>Rounding up to a power of two; the sizes stay far below \<open>2^64\<close>, so that they are natural numbers here.\<close>

definition kmalloc_size_roundup :: "nat \<Rightarrow> nat" where
  "kmalloc_size_roundup n = 2 ^ fls_nat (n - 1)"

text \<open>
  \<open>hdr\<close> is the size of the table without entries; an entry has 56 bytes. The old entries are copied, the new
  ones are zero. \<open>None\<close> is a failed allocation.
\<close>

definition snapshot_t_grow :: "nat \<Rightarrow> bool \<Rightarrow> snapshot_table \<Rightarrow> u32 \<Rightarrow> snapshot_table option" where
  "snapshot_t_grow hdr alloc t sid =
     (let idx = snapshot_idx sid;
          new_bytes = kmalloc_size_roundup (hdr + 56 * (idx + 1));
          new_size = (new_bytes - hdr) div 56
      in if new_bytes > 0x7fffffff \<or> \<not> alloc then None
         else let old = (case t of None \<Rightarrow> [] | Some s \<Rightarrow> s)
              in Some (Some (old @ replicate (new_size - length old) snapshot_zero)))"

definition snapshot_t_mut :: "nat \<Rightarrow> bool \<Rightarrow> snapshot_table \<Rightarrow> u32 \<Rightarrow> snapshot_table option" where
  "snapshot_t_mut hdr alloc t sid =
     (case snapshot_t t sid of Some _ \<Rightarrow> Some t | None \<Rightarrow> snapshot_t_grow hdr alloc t sid)"

definition snapshot_t_set :: "snapshot_table \<Rightarrow> u32 \<Rightarrow> snapshot_struct \<Rightarrow> snapshot_table" where
  "snapshot_t_set t sid e = map_option (\<lambda>s. s[snapshot_idx sid := e]) t"

definition snapshot_entry_of :: "nat \<Rightarrow> bch_snapshot \<Rightarrow> snapshot_struct \<Rightarrow> snapshot_struct" where
  "snapshot_entry_of val_bytes s e =
     (let e = e\<lparr>st_state := (if \<not> sv_deleted s then SNAPSHOT_ID_live else SNAPSHOT_ID_deleted), st_parent := sv_parent s,
                st_children := sv_children s, st_subvol := (if sv_is_subvol s then sv_subvol s else 0), st_tree := sv_tree s\<rparr>
      in if val_bytes > 24 then e\<lparr>st_depth := sv_depth s, st_skip := sv_skip s\<rparr>
         else e\<lparr>st_depth := 0, st_skip := [0, 0, 0]\<rparr>)"

partial_function (option) set_ancestor_bits :: "snapshot_table \<Rightarrow> u32 \<Rightarrow> u32 \<Rightarrow> 128 word \<Rightarrow> (128 word) option" where
  "set_ancestor_bits t sid parent bits =
     (let parent = bch2_snapshot_parent_early t parent in
      if parent \<noteq> 0 \<and> parent - sid - 1 < IS_ANCESTOR_BITMAP
      then set_ancestor_bits t sid parent (set_bit (unat (parent - sid - 1)) bits)
      else Some bits)"

record snapshot_fs =
  snapshots :: snapshot_table
  need_delete_dead_snapshots :: bool

definition ENOMEM_mark_snapshot :: int where "ENOMEM_mark_snapshot = 1"

text \<open>The result is the error, 0 for none, with the state; \<open>None\<close> when the loop over the ancestors does not end.\<close>

definition bch2_mark_snapshot :: "nat \<Rightarrow> bool \<Rightarrow> u32 \<Rightarrow> snapshot_key \<Rightarrow> snapshot_fs \<Rightarrow> (int \<times> snapshot_fs) option" where
  "bch2_mark_snapshot hdr alloc sid new c =
     (case snapshot_t_mut hdr alloc (snapshots c) sid of
        None \<Rightarrow> Some (- ENOMEM_mark_snapshot, c)
      | Some t \<Rightarrow>
          (case new of
             KEY_snapshot val_bytes s \<Rightarrow>
               let e = snapshot_entry_of val_bytes s (the (snapshot_t t sid));
                   t = snapshot_t_set t sid e
               in map_option (\<lambda>bits. (0, c\<lparr>snapshots := snapshot_t_set t sid (e\<lparr>st_is_ancestor := bits\<rparr>),
                    need_delete_dead_snapshots := need_delete_dead_snapshots c \<or> sv_will_delete s\<rparr>))
                    (set_ancestor_bits t sid sid (st_is_ancestor e))
           | KEY_other \<Rightarrow> Some (0, c\<lparr>snapshots := snapshot_t_set t sid snapshot_zero\<rparr>)))"

definition interior_snapshot_needs_delete :: "bch_snapshot \<Rightarrow> bool" where
  "interior_snapshot_needs_delete s =
     ((of_bool (sv_children s ! 0 \<noteq> 0) + of_bool (sv_children s ! 1 \<noteq> 0) :: nat) = 1)"

definition bch2_check_snapshot_needs_deletion :: "snapshot_key \<Rightarrow> snapshot_fs \<Rightarrow> snapshot_fs" where
  "bch2_check_snapshot_needs_deletion k c =
     (case k of
        KEY_snapshot _ s \<Rightarrow>
          if sv_will_delete s \<or> interior_snapshot_needs_delete s then c\<lparr>need_delete_dead_snapshots := True\<rparr> else c
      | KEY_other \<Rightarrow> c)"

text \<open>The keys are in the order the iterator returns them: from the last to the first.\<close>

fun bch2_snapshots_read :: "nat \<Rightarrow> (u32 \<Rightarrow> bool) \<Rightarrow> (u32 \<times> snapshot_key) list \<Rightarrow> snapshot_fs \<Rightarrow> (int \<times> snapshot_fs) option" where
  "bch2_snapshots_read hdr alloc [] c = Some (0, c)"
| "bch2_snapshots_read hdr alloc ((sid, k) # ks) c =
     (case bch2_mark_snapshot hdr (alloc sid) sid k c of
        None \<Rightarrow> None
      | Some (ret, c) \<Rightarrow>
          if ret \<noteq> 0 then Some (ret, c) else bch2_snapshots_read hdr alloc ks (bch2_check_snapshot_needs_deletion k c))"

section \<open>New nodes\<close>

text \<open>\<open>rand\<close> is the value of \<open>get_random_u32_below(s->depth)\<close>; \<open>None\<close> is an access through a null pointer.\<close>

definition bch2_snapshot_skiplist_get :: "snapshot_table \<Rightarrow> u32 \<Rightarrow> (u32 \<Rightarrow> u32) \<Rightarrow> u32 option" where
  "bch2_snapshot_skiplist_get t sid rand =
     (if sid = 0 then Some 0
      else case snapshot_t t sid of
             None \<Rightarrow> None
           | Some s \<Rightarrow> Some (if st_parent s \<noteq> 0 then bch2_snapshot_nth_parent t sid (rand (st_depth s)) else sid))"

definition cmp_le32 :: "u32 \<Rightarrow> u32 \<Rightarrow> int" where
  "cmp_le32 l r = cmp_int l r"

text \<open>
  The node made for one new id. \<open>rand j\<close> is the random number source of the \<open>j\<close>th call. The value has its full size of 56 bytes.
\<close>

definition new_snapshot :: "snapshot_table \<Rightarrow> (nat \<Rightarrow> u32 \<Rightarrow> u32) \<Rightarrow> u32 \<Rightarrow> u32 \<Rightarrow> u32 \<Rightarrow> u32 \<Rightarrow> bch_snapshot option" where
  "new_snapshot t rand parent tree depth subvol =
     (case (bch2_snapshot_skiplist_get t parent (rand 0), bch2_snapshot_skiplist_get t parent (rand 1), bch2_snapshot_skiplist_get t parent (rand 2)) of
        (Some a, Some b, Some d) \<Rightarrow>
          Some \<lparr>sv_will_delete = False, sv_is_subvol = True, sv_deleted = False, sv_parent = parent, sv_children = [0, 0],
            sv_subvol = subvol, sv_tree = tree, sv_depth = depth, sv_skip = bubble_sort cmp_le32 [a, b, d]\<rparr>
      | _ \<Rightarrow> None)"

definition ENOSPC_snapshot_create :: int where "ENOSPC_snapshot_create = 2"

text \<open>
  The loop of \<open>create_snapids\<close>: ids are taken downwards from \<open>pos\<close>, the first id in use; there is no slot
  before id 0. The result is the error, the new keys and the state.
\<close>

fun create_snapids_loop :: "nat \<Rightarrow> (u32 \<Rightarrow> bool) \<Rightarrow> (u32 \<Rightarrow> nat \<Rightarrow> u32 \<Rightarrow> u32) \<Rightarrow> u32 \<Rightarrow> u32 \<Rightarrow> u32 \<Rightarrow> u32 \<Rightarrow> u32 list \<Rightarrow> snapshot_fs
    \<Rightarrow> (int \<times> (u32 \<times> bch_snapshot) list \<times> snapshot_fs) option" where
  "create_snapids_loop hdr alloc rand parent tree depth pos [] c = Some (0, [], c)"
| "create_snapids_loop hdr alloc rand parent tree depth pos (subvol # subvols) c =
     (let sid = pos - 1 in
      if pos = 0 \<or> sid = 0 then Some (- ENOSPC_snapshot_create, [], c)
      else case new_snapshot (snapshots c) (rand sid) parent tree depth subvol of
             None \<Rightarrow> None
           | Some n \<Rightarrow>
               (case bch2_mark_snapshot hdr (alloc sid) sid (KEY_snapshot 56 n) c of
                  None \<Rightarrow> None
                | Some (ret, c) \<Rightarrow>
                    if ret \<noteq> 0 then Some (ret, [], c)
                    else map_option (\<lambda>(ret, ns, c). (ret, (sid, n) # ns, c))
                           (create_snapids_loop hdr alloc rand parent tree depth sid subvols c)))"

definition create_snapids :: "nat \<Rightarrow> (u32 \<Rightarrow> bool) \<Rightarrow> (u32 \<Rightarrow> nat \<Rightarrow> u32 \<Rightarrow> u32) \<Rightarrow> u32 \<Rightarrow> u32 \<Rightarrow> u32 \<Rightarrow> u32 list \<Rightarrow> snapshot_fs
    \<Rightarrow> (int \<times> (u32 \<times> bch_snapshot) list \<times> snapshot_fs) option" where
  "create_snapids hdr alloc rand parent tree pos subvols c =
     (case bch2_snapshot_depth (snapshots c) parent of
        None \<Rightarrow> None
      | Some depth \<Rightarrow> create_snapids_loop hdr alloc rand parent tree depth pos subvols c)"

section \<open>The tree\<close>

text \<open>
  The node above another, 0 for none, is all the ancestor tests depend on. \<open>ancestor\<close> is what they
  are to decide.
\<close>

abbreviation (input) par :: "snapshot_table \<Rightarrow> u32 \<Rightarrow> u32" where
  "par \<equiv> bch2_snapshot_parent_early"

inductive ancestor :: "(u32 \<Rightarrow> u32) \<Rightarrow> u32 \<Rightarrow> u32 \<Rightarrow> bool" for p :: "u32 \<Rightarrow> u32" where
  anc_self: "ancestor p sid sid"
| anc_up: "p sid \<noteq> 0 \<Longrightarrow> ancestor p (p sid) a \<Longrightarrow> ancestor p sid a"

definition parents_ok :: "(u32 \<Rightarrow> u32) \<Rightarrow> bool" where
  "parents_ok p \<longleftrightarrow> p 0 = 0 \<and> (\<forall>sid. p sid \<noteq> 0 \<longrightarrow> sid < p sid)"

lemma ancestor_iff: "ancestor p sid a \<longleftrightarrow> sid = a \<or> p sid \<noteq> 0 \<and> ancestor p (p sid) a"
  by (subst ancestor.simps) blast

lemma ancestor_trans: "ancestor p x y \<Longrightarrow> ancestor p y z \<Longrightarrow> ancestor p x z"
  by (induction rule: ancestor.induct) (auto intro: ancestor.intros)

lemma ancestor_le: "ancestor p x y \<Longrightarrow> parents_ok p \<Longrightarrow> x \<le> y"
  by (induction rule: ancestor.induct) (auto simp: parents_ok_def intro: order_trans less_imp_le)

lemma ancestor_linear: "ancestor p x y \<Longrightarrow> parents_ok p \<Longrightarrow> ancestor p x z \<Longrightarrow> y \<le> z \<Longrightarrow> ancestor p y z"
proof (induction rule: ancestor.induct)
  case (anc_up sid a)
  have "sid < p sid" using anc_up by (simp add: parents_ok_def)
  moreover have "p sid \<le> a" using ancestor_le anc_up by blast
  ultimately have "sid \<noteq> z" using anc_up.prems(3) by (auto simp: not_le)
  then show ?case using anc_up ancestor_iff [of p sid z] by blast
qed

lemma ancestor_cong:
  assumes "\<And>x. x \<noteq> sid \<Longrightarrow> p' x = p x" "\<And>x. x \<noteq> sid \<Longrightarrow> p x \<noteq> sid" "x \<noteq> sid"
  shows "ancestor p' x a \<longleftrightarrow> ancestor p x a"
proof
  assume "ancestor p' x a"
  then show "ancestor p x a" using assms(3)
    by (induction rule: ancestor.induct) (use assms(1,2) in \<open>auto intro: ancestor.intros\<close>)
next
  assume "ancestor p x a"
  then show "ancestor p' x a" using assms(3)
    by (induction rule: ancestor.induct) (use assms(1,2) in \<open>auto intro: ancestor.intros\<close>)
qed

text \<open>Ids on a path grow, so a loop along it ends.\<close>

lemma up_induct [consumes 0, case_names up]:
  fixes P :: "u32 \<Rightarrow> bool"
  assumes "\<And>x. (\<And>y. x < y \<Longrightarrow> P y) \<Longrightarrow> P x"
  shows "P x"
proof (induction "2 ^ 32 - unat x" arbitrary: x rule: less_induct)
  case less
  show ?case
  proof (rule assms)
    fix y assume "x < y"
    then have "unat x < unat y" "unat y < 2 ^ 32"
      using unsigned_less [of y, where ?'a = nat] by (simp_all add: word_less_nat_alt del: unsigned_less)
    then show "P y" by (intro less) linarith
  qed
qed

lemma ancestor_0: "parents_ok p \<Longrightarrow> ancestor p 0 a \<longleftrightarrow> a = 0"
  using ancestor_iff [of p 0 a] by (auto simp: parents_ok_def)

lemma ancestor_beyond: "parents_ok p \<Longrightarrow> \<not> (sid \<noteq> 0 \<and> sid < a) \<Longrightarrow> ancestor p sid a \<longleftrightarrow> sid = a"
  using ancestor_le [of p sid a] ancestor_0 [of p a] by (auto intro: ancestor.intros)

lemma early_correct:
  assumes "parents_ok (par t)"
  shows "is_ancestor_early t sid a = Some (ancestor (par t) sid a)"
proof (induction sid rule: up_induct)
  case (up sid)
  show ?case
  proof (cases "sid \<noteq> 0 \<and> sid < a")
    case True
    have e: "is_ancestor_early t sid a = is_ancestor_early t (par t sid) a"
      using True by (subst is_ancestor_early.simps) (simp add: bch2_snapshot_parent_early_def)
    have anc: "ancestor (par t) sid a \<longleftrightarrow> par t sid \<noteq> 0 \<and> ancestor (par t) (par t sid) a"
      using True ancestor_iff [of "par t" sid a] by auto
    show ?thesis
    proof (cases "par t sid = 0")
      case True
      then show ?thesis using \<open>sid \<noteq> 0 \<and> sid < a\<close> e anc by (auto simp: is_ancestor_early.simps [of t 0])
    next
      case False
      then show ?thesis using e up [of "par t sid"] assms anc by (simp add: parents_ok_def)
    qed
  next
    case False
    then show ?thesis using ancestor_beyond [OF assms False] by (subst is_ancestor_early.simps) auto
  qed
qed

text \<open>
  What the tests rely on: parents have greater ids, skip list entries are ancestors, and the bitmap of a
  node has the ancestors among the next 128 ids.
\<close>

definition skip_ok :: "(u32 \<Rightarrow> u32) \<Rightarrow> u32 \<Rightarrow> u32 list \<Rightarrow> bool" where
  "skip_ok p parent skip \<longleftrightarrow>
     length skip = 3 \<and> (\<forall>k \<in> set skip. if parent = 0 then k = 0 else k \<noteq> 0 \<and> ancestor p parent k)"

definition bits_ok :: "(u32 \<Rightarrow> u32) \<Rightarrow> u32 \<Rightarrow> 128 word \<Rightarrow> bool" where
  "bits_ok p sid bits \<longleftrightarrow> (\<forall>a. sid < a \<and> a - sid \<le> IS_ANCESTOR_BITMAP \<longrightarrow> bit bits (unat (a - sid - 1)) = ancestor p sid a)"

definition snapshot_table_ok :: "snapshot_table \<Rightarrow> bool" where
  "snapshot_table_ok t \<longleftrightarrow>
     parents_ok (par t) \<and>
     (\<forall>sid s. snapshot_t t sid = Some s \<longrightarrow> skip_ok (par t) (st_parent s) (st_skip s) \<and> bits_ok (par t) sid (st_is_ancestor s))"

lemma get_ancestor_below_step:
  assumes "snapshot_table_ok t" "sid \<noteq> 0" "sid < a"
  shows "(get_ancestor_below t sid a = 0 \<or> sid < get_ancestor_below t sid a) \<and>
    ancestor (par t) (get_ancestor_below t sid a) a = ancestor (par t) sid a"
proof -
  have po: "parents_ok (par t)" using assms(1) by (simp add: snapshot_table_ok_def)
  have anc: "ancestor (par t) sid a \<longleftrightarrow> par t sid \<noteq> 0 \<and> ancestor (par t) (par t sid) a"
    using assms(3) ancestor_iff [of "par t" sid a] by auto
  have zero: ?thesis if "get_ancestor_below t sid a = 0" "par t sid = 0"
    using that anc assms(3) ancestor_0 [OF po, of a] by auto
  show ?thesis
  proof (cases "snapshot_t t sid")
    case None
    then show ?thesis by (intro zero) (simp_all add: get_ancestor_below_def bch2_snapshot_parent_early_def)
  next
    case (Some s)
    have sk: "skip_ok (par t) (st_parent s) (st_skip s)" using assms(1) Some by (simp add: snapshot_table_ok_def)
    have p: "par t sid = st_parent s" by (simp add: bch2_snapshot_parent_early_def Some)
    define k where "k = get_ancestor_below t sid a"
    have k: "k = st_parent s \<or> k \<in> set (st_skip s) \<and> k \<le> a"
      using sk by (auto simp: k_def get_ancestor_below_def Some skip_ok_def)
    show ?thesis
    proof (cases "st_parent s = 0")
      case True
      then have "k = 0" using k sk by (auto simp: skip_ok_def)
      then show ?thesis using zero True p by (simp add: k_def)
    next
      case False
      have pk: "ancestor (par t) (par t sid) k" "k = par t sid \<or> k \<le> a"
        using k sk False by (auto simp: p skip_ok_def intro: ancestor.intros)
      have "par t sid \<noteq> 0" using False p by simp
      then have "sid < par t sid" using po unfolding parents_ok_def by blast
      then have "sid < k" using ancestor_le [OF pk(1) po] by simp
      moreover have "ancestor (par t) k a = ancestor (par t) sid a"
        using pk anc False p ancestor_trans [OF pk(1), of a] ancestor_linear [OF pk(1) po, of a] by auto
      ultimately show ?thesis by (simp add: k_def)
    qed
  qed
qed

lemma skip_loop_correct:
  assumes "snapshot_table_ok t" "IS_ANCESTOR_BITMAP \<le> a"
  shows "\<exists>sid'. skip_loop t sid a = Some sid' \<and> \<not> (sid' \<noteq> 0 \<and> sid' < a - IS_ANCESTOR_BITMAP) \<and>
    ancestor (par t) sid' a = ancestor (par t) sid a"
proof (induction sid rule: up_induct)
  case (up sid)
  show ?case
  proof (cases "sid \<noteq> 0 \<and> sid < a - IS_ANCESTOR_BITMAP")
    case True
    define k where "k = get_ancestor_below t sid a"
    have e: "skip_loop t sid a = skip_loop t k a" using True by (subst skip_loop.simps) (simp add: k_def)
    have "unat sid < unat a - unat IS_ANCESTOR_BITMAP" using True unat_sub [OF assms(2)] by (simp add: word_less_nat_alt)
    then have "sid < a" unfolding word_less_nat_alt by linarith
    then have k: "k = 0 \<or> sid < k" "ancestor (par t) k a = ancestor (par t) sid a"
      using get_ancestor_below_step [OF assms(1)] True by (simp_all add: k_def)
    show ?thesis
    proof (cases "k = 0")
      case True
      then show ?thesis using e k(2) by (simp add: skip_loop.simps [of t 0])
    next
      case False
      then show ?thesis using e k up [of k] by auto
    qed
  next
    case False
    then show ?thesis by (subst skip_loop.simps) auto
  qed
qed

lemma bitmap_correct:
  assumes "snapshot_table_ok t" "sid < a" "a - sid \<le> IS_ANCESTOR_BITMAP"
  shows "test_ancestor_bitmap t sid a = ancestor (par t) sid a"
proof (cases "snapshot_t t sid")
  case None
  then have "par t sid = 0" by (simp add: bch2_snapshot_parent_early_def)
  then show ?thesis using assms(2) ancestor_iff [of "par t" sid a] None by (simp add: test_ancestor_bitmap_def)
next
  case (Some s)
  then show ?thesis using assms by (simp add: test_ancestor_bitmap_def snapshot_table_ok_def bits_ok_def)
qed

lemma is_ancestor_raw_correct:
  assumes "snapshot_table_ok t"
  shows "is_ancestor_raw checked t sid a = Some (ancestor (par t) sid a)"
proof (cases checked)
  case False
  then show ?thesis using early_correct assms by (simp add: is_ancestor_raw_def snapshot_table_ok_def)
next
  case True
  have po: "parents_ok (par t)" using assms by (simp add: snapshot_table_ok_def)
  obtain sid' where sid': "(if a \<ge> IS_ANCESTOR_BITMAP then skip_loop t sid a else Some sid) = Some sid'"
    "ancestor (par t) sid' a = ancestor (par t) sid a" "IS_ANCESTOR_BITMAP \<le> a \<Longrightarrow> \<not> (sid' \<noteq> 0 \<and> sid' < a - IS_ANCESTOR_BITMAP)"
    using skip_loop_correct [OF assms, of a sid] by (cases "a \<ge> IS_ANCESTOR_BITMAP") auto
  have "a - sid' \<le> IS_ANCESTOR_BITMAP" if "sid' \<noteq> 0" "sid' < a"
  proof (cases "IS_ANCESTOR_BITMAP \<le> a")
    case True
    then have "a - IS_ANCESTOR_BITMAP \<le> sid'" using sid'(3) that(1) by (simp add: not_less)
    then show ?thesis using True that(2) by (simp add: word_le_nat_alt word_less_nat_alt unat_sub)
  next
    case False
    then show ?thesis using that(2) by (simp add: word_le_nat_alt word_less_nat_alt unat_sub)
  qed
  then have "(if sid' \<noteq> 0 \<and> sid' < a then test_ancestor_bitmap t sid' a else sid' = a) = ancestor (par t) sid a"
    using bitmap_correct [OF assms, of sid' a] ancestor_beyond [OF po, of sid' a] sid'(2) by auto
  then show ?thesis using True sid'(1) by (simp add: is_ancestor_raw_def)
qed

end
