(* ===== verification/Snapshot_Table.thy ===== *)
theory Snapshot_Table
  imports Snapshot
begin

text \<open>
  The table of snapshot nodes stays right: what \<open>snapshot_table_ok\<close> of theory \<open>Snapshot\<close> asks for holds of the
  table after the nodes have been read from the btree, and after children of a node have been created.
\<close>

section \<open>Marking keeps the table right\<close>

lemma snapshot_idx_inj: "snapshot_idx x = snapshot_idx y \<longleftrightarrow> x = y"
proof -
  have "- 1 - x = - 1 - y \<longleftrightarrow> x = y" by simp
  then show ?thesis unfolding snapshot_idx_def word_unat_eq_iff [of "- 1 - x"] .
qed

lemma kmalloc_size_roundup_ge: "n \<le> kmalloc_size_roundup n"
  using fls_nat_less [of "n - 1"] by (simp add: kmalloc_size_roundup_def)

text \<open>Making room changes no entry; the new ones are zero.\<close>

lemma snapshot_t_mut_entries:
  assumes "snapshot_t_mut hdr alloc t sid = Some t'"
  shows "snapshot_t t' sid \<noteq> None" "snapshot_t t x = Some s \<Longrightarrow> snapshot_t t' x = Some s"
    "snapshot_t t' x = Some s \<Longrightarrow> snapshot_t t x = Some s \<or> snapshot_t t x = None \<and> s = snapshot_zero"
proof -
  have *: "snapshot_t t' sid \<noteq> None \<and> (snapshot_t t x = Some s \<longrightarrow> snapshot_t t' x = Some s) \<and>
    (snapshot_t t' x = Some s \<longrightarrow> snapshot_t t x = Some s \<or> snapshot_t t x = None \<and> s = snapshot_zero)" for x s
  proof (cases "snapshot_t t sid")
    case (Some e)
    then show ?thesis using assms by (auto simp: snapshot_t_mut_def)
  next
    case None
    define old where "old = (case t of None \<Rightarrow> [] | Some s \<Rightarrow> s)"
    define n where "n = (kmalloc_size_roundup (hdr + 56 * (snapshot_idx sid + 1)) - hdr) div 56"
    have t: "snapshot_t t y = (if snapshot_idx y < length old then Some (old ! snapshot_idx y) else None)" for y
      by (auto simp: snapshot_t_def old_def Let_def split: option.splits)
    have t': "t' = Some (old @ replicate (n - length old) snapshot_zero)"
      using assms None by (auto simp: snapshot_t_mut_def snapshot_t_grow_def Let_def old_def n_def split: if_splits)
    have "56 * (snapshot_idx sid + 1) \<le> kmalloc_size_roundup (hdr + 56 * (snapshot_idx sid + 1)) - hdr"
      using kmalloc_size_roundup_ge [of "hdr + 56 * (snapshot_idx sid + 1)"] by linarith
    then have "snapshot_idx sid < n" unfolding n_def using div_le_mono [of "56 * (snapshot_idx sid + 1)" _ 56] by (simp add: less_eq_Suc_le)
    then show ?thesis using t [of sid] t [of x] None
      by (auto simp: t' snapshot_t_def [of "Some _"] nth_append Let_def split: if_splits)
  qed
  show "snapshot_t t' sid \<noteq> None" "snapshot_t t x = Some s \<Longrightarrow> snapshot_t t' x = Some s"
    "snapshot_t t' x = Some s \<Longrightarrow> snapshot_t t x = Some s \<or> snapshot_t t x = None \<and> s = snapshot_zero"
    using * by blast+
qed

lemma snapshot_t_set_at:
  assumes "snapshot_t t sid \<noteq> None"
  shows "snapshot_t (snapshot_t_set t sid e) x = (if x = sid then Some e else snapshot_t t x)"
  using assms by (cases t) (auto simp: snapshot_t_def snapshot_t_set_def Let_def snapshot_idx_inj nth_list_update split: if_splits)

lemma ancestor_bit_index:
  assumes "sid < a" "a - sid \<le> IS_ANCESTOR_BITMAP"
  shows "unat (a - sid - 1) < 128"
proof -
  have "a - sid \<noteq> 0" using assms(1) by simp
  then show ?thesis using assms(2) by (simp add: IS_ANCESTOR_BITMAP_def word_le_nat_alt unat_minus_one)
qed

lemma ancestor_bit_inj: "unat (p - sid - 1 :: u32) = unat (a - sid - 1) \<longleftrightarrow> p = a"
proof -
  have "p - sid - 1 = a - sid - 1 \<longleftrightarrow> p = a" by simp
  then show ?thesis unfolding word_unat_eq_iff [of "p - sid - 1"] .
qed

lemma set_ancestor_bits_correct:
  assumes "parents_ok (par t)" "sid \<noteq> 0" "sid \<le> q"
  shows "\<exists>bits'. set_ancestor_bits t sid q bits = Some bits' \<and>
    (\<forall>a. sid < a \<and> a - sid \<le> IS_ANCESTOR_BITMAP \<longrightarrow>
      bit bits' (unat (a - sid - 1)) = (bit bits (unat (a - sid - 1)) \<or> q \<noteq> a \<and> ancestor (par t) q a))"
  using assms(3)
proof (induction q arbitrary: bits rule: up_induct)
  case (up q)
  define p where "p = par t q"
  have pq: "q < p" if "p \<noteq> 0" using assms(1) that by (simp add: p_def parents_ok_def)
  have anc: "(q \<noteq> a \<and> ancestor (par t) q a) = (p \<noteq> 0 \<and> ancestor (par t) p a)" for a
    using pq ancestor_iff [of "par t" q a] ancestor_le [OF _ assms(1), of p a] by (auto simp: p_def)
  show ?case
  proof (cases "p \<noteq> 0 \<and> p - sid - 1 < IS_ANCESTOR_BITMAP")
    case True
    define b where "b = set_bit (unat (p - sid - 1)) bits"
    have e: "set_ancestor_bits t sid q bits = set_ancestor_bits t sid p b"
      using True by (subst set_ancestor_bits.simps) (simp add: p_def [symmetric] b_def)
    obtain bits' where bits': "set_ancestor_bits t sid p b = Some bits'" "\<forall>a. sid < a \<and> a - sid \<le> IS_ANCESTOR_BITMAP \<longrightarrow>
        bit bits' (unat (a - sid - 1)) = (bit b (unat (a - sid - 1)) \<or> p \<noteq> a \<and> ancestor (par t) p a)"
      using up.IH [of p b] pq True order_trans [OF up.prems less_imp_le] by blast
    have "bit b (unat (a - sid - 1)) \<longleftrightarrow> bit bits (unat (a - sid - 1)) \<or> a = p" if "sid < a" "a - sid \<le> IS_ANCESTOR_BITMAP" for a
    proof -
      have "unat (a - sid - 1) < 128" using ancestor_bit_index [OF that] .
      then show ?thesis by (auto simp: b_def bit_set_bit_iff ancestor_bit_inj)
    qed
    then show ?thesis using e bits' anc True by (intro exI [of _ bits']) (auto intro: ancestor.intros)
  next
    case False
    have "\<not> ancestor (par t) p a" if "p \<noteq> 0" "sid < a" "a - sid \<le> IS_ANCESTOR_BITMAP" for a
    proof
      assume "ancestor (par t) p a"
      then have le: "p \<le> a" using ancestor_le assms(1) by blast
      have "sid < p" using pq that(1) up.prems by simp
      then have "p - sid \<noteq> 0" by simp
      from unat_minus_one [OF this] have "128 < unat (p - sid)"
        using False that(1) \<open>p - sid \<noteq> 0\<close> by (simp add: IS_ANCESTOR_BITMAP_def word_less_nat_alt)
      moreover have "p - sid \<le> a - sid"
        using le \<open>sid < p\<close> that(2) by (simp add: word_le_nat_alt word_less_nat_alt unat_sub)
      ultimately show False using that(3) by (simp add: IS_ANCESTOR_BITMAP_def word_le_nat_alt)
    qed
    then show ?thesis using False anc by (subst set_ancestor_bits.simps) (auto simp: p_def [symmetric])
  qed
qed

text \<open>An id without a node.\<close>

definition unused :: "snapshot_table \<Rightarrow> u32 \<Rightarrow> bool" where
  "unused t x \<longleftrightarrow> (\<forall>e. snapshot_t t x = Some e \<longrightarrow> e = snapshot_zero)"

lemma snapshot_t_mut_par:
  assumes "snapshot_t_mut hdr alloc t sid = Some t'"
  shows "par t' = par t" "unused t' x = unused t x"
proof -
  have "par t' x = par t x \<and> unused t' x = unused t x" for x
    using snapshot_t_mut_entries(2,3) [OF assms, of x]
    by (cases "snapshot_t t x"; cases "snapshot_t t' x") (auto simp: bch2_snapshot_parent_early_def unused_def snapshot_zero_def)
  then show "par t' = par t" "unused t' x = unused t x" by auto
qed

lemma unused_entry_ok: "p x = 0 \<Longrightarrow> skip_ok p 0 [0, 0, 0] \<and> bits_ok p x 0"
  using ancestor_iff [of p x] by (auto simp: skip_ok_def bits_ok_def)

lemma snapshot_t_mut_ok:
  assumes "snapshot_t_mut hdr alloc t sid = Some t'" "snapshot_table_ok t"
  shows "snapshot_table_ok t'"
  unfolding snapshot_table_ok_def snapshot_t_mut_par(1) [OF assms(1)]
proof (intro conjI allI impI)
  fix x s assume "snapshot_t t' x = Some s"
  note s = snapshot_t_mut_entries(3) [OF assms(1) this]
  have "skip_ok (par t) (st_parent s) (st_skip s) \<and> bits_ok (par t) x (st_is_ancestor s)"
  proof (cases "snapshot_t t x = None")
    case False
    then have "snapshot_t t x = Some s" using s by auto
    then show ?thesis using assms(2) unfolding snapshot_table_ok_def by blast
  next
    case True
    then have "par t x = 0" "s = snapshot_zero" using s by (simp_all add: bch2_snapshot_parent_early_def)
    from unused_entry_ok [of "par t" x, OF this(1)] this(2) show ?thesis by (simp add: snapshot_zero_def)
  qed
  then show "skip_ok (par t) (st_parent s) (st_skip s)" "bits_ok (par t) x (st_is_ancestor s)" by blast+
qed (use assms(2) in \<open>unfold snapshot_table_ok_def, blast\<close>)

lemma snapshot_set_ok:
  assumes "snapshot_table_ok t" "snapshot_t t sid \<noteq> None" "\<And>x. par t x \<noteq> sid" "sid \<noteq> 0"
    "st_parent e = 0 \<or> sid < st_parent e" "skip_ok (par t) (st_parent e) (st_skip e)"
    "bits_ok ((par t)(sid := st_parent e)) sid (st_is_ancestor e)"
  shows "snapshot_table_ok (snapshot_t_set t sid e)" "par (snapshot_t_set t sid e) = (par t)(sid := st_parent e)"
proof -
  let ?p = "(par t)(sid := st_parent e)"
  show p: "par (snapshot_t_set t sid e) = ?p"
    by (rule ext) (simp add: bch2_snapshot_parent_early_def snapshot_t_set_at [OF assms(2)])
  have anc: "ancestor ?p x a = ancestor (par t) x a" if "x \<noteq> sid" for x a
    using that assms(3) by (intro ancestor_cong [of sid]) simp_all
  have skip: "skip_ok ?p q k = skip_ok (par t) q k" if "q \<noteq> sid" for q k
    using anc [OF that] by (simp add: skip_ok_def)
  have bits: "bits_ok ?p x b = bits_ok (par t) x b" if "x \<noteq> sid" for x b
    using anc [OF that] by (simp add: bits_ok_def)
  have "parents_ok ?p" using assms(1,4,5) by (auto simp: snapshot_table_ok_def parents_ok_def)
  moreover have "st_parent s \<noteq> sid" if "snapshot_t t x = Some s" for x s
    using assms(3) [of x] that by (simp add: bch2_snapshot_parent_early_def)
  moreover have "st_parent e \<noteq> sid" using assms(4,5) by auto
  ultimately show "snapshot_table_ok (snapshot_t_set t sid e)"
    using assms(1,6,7) skip bits unfolding snapshot_table_ok_def p snapshot_t_set_at [OF assms(2)] by auto
qed

lemma mark_snapshot_fresh:
  assumes "snapshot_table_ok (snapshots c)" "sid \<noteq> 0" "\<And>x. par (snapshots c) x \<noteq> sid" "unused (snapshots c) sid"
    "sv_parent s = 0 \<or> sid < sv_parent s" "skip_ok (par (snapshots c)) (sv_parent s) (sv_skip s)" "24 < val_bytes"
    "snapshot_t_mut hdr alloc (snapshots c) sid \<noteq> None"
  shows "\<exists>c' e. bch2_mark_snapshot hdr alloc sid (KEY_snapshot val_bytes s) c = Some (0, c') \<and> snapshot_table_ok (snapshots c') \<and>
    par (snapshots c') = (par (snapshots c))(sid := sv_parent s) \<and> (\<forall>x. x \<noteq> sid \<longrightarrow> unused (snapshots c') x = unused (snapshots c) x) \<and>
    (\<forall>x s. x \<noteq> sid \<longrightarrow> snapshot_t (snapshots c) x = Some s \<longrightarrow> snapshot_t (snapshots c') x = Some s) \<and>
    snapshot_t (snapshots c') sid = Some e \<and> st_depth e = sv_depth s \<and> st_state e = (if sv_deleted s then SNAPSHOT_ID_deleted else SNAPSHOT_ID_live)"
proof -
  obtain t where t: "snapshot_t_mut hdr alloc (snapshots c) sid = Some t" using assms(8) by blast
  note ent = snapshot_t_mut_entries [OF t] and pt = snapshot_t_mut_par [OF t]
  define e where "e = snapshot_entry_of val_bytes s (the (snapshot_t t sid))"
  have e: "st_parent e = sv_parent s" "st_skip e = sv_skip s" "st_is_ancestor e = 0"
    "st_depth e = sv_depth s" "st_state e = (if sv_deleted s then SNAPSHOT_ID_deleted else SNAPSHOT_ID_live)"
    using assms(4,7) ent(1) pt(2) [of sid] by (auto simp: e_def snapshot_entry_of_def Let_def unused_def snapshot_zero_def)
  let ?p = "(par t)(sid := st_parent e)"
  have px: "par (snapshot_t_set t sid e) = ?p"
    by (rule ext) (simp add: bch2_snapshot_parent_early_def snapshot_t_set_at [OF ent(1)])
  have po: "parents_ok ?p"
    using assms(1,2,5) by (auto simp: snapshot_table_ok_def parents_ok_def pt e)
  obtain bits where bits: "set_ancestor_bits (snapshot_t_set t sid e) sid sid 0 = Some bits" "bits_ok ?p sid bits"
    using set_ancestor_bits_correct [of "snapshot_t_set t sid e" sid sid 0] po assms(2) unfolding px bits_ok_def by (auto simp: px)
  let ?t = "snapshot_t_set t sid (e\<lparr>st_is_ancestor := bits\<rparr>)"
  have set2: "snapshot_t_set (snapshot_t_set t sid e) sid f = snapshot_t_set t sid f" for f
    by (cases t) (simp_all add: snapshot_t_set_def)
  have ok: "snapshot_table_ok ?t" "par ?t = ?p"
    using snapshot_set_ok [OF snapshot_t_mut_ok [OF t assms(1)] ent(1), of "e\<lparr>st_is_ancestor := bits\<rparr>"] assms(2,3,5,6) bits(2)
    by (simp_all add: pt e)
  have m: "bch2_mark_snapshot hdr alloc sid (KEY_snapshot val_bytes s) c =
      Some (0, c\<lparr>snapshots := ?t, need_delete_dead_snapshots := need_delete_dead_snapshots c \<or> sv_will_delete s\<rparr>)"
    using bits(1) by (simp add: bch2_mark_snapshot_def t e_def [symmetric] Let_def e(3) set2)
  show ?thesis unfolding m
    using ok e pt(2) ent(2) by (auto simp: pt(1) unused_def snapshot_t_set_at [OF ent(1)])
qed

section \<open>Reading the nodes\<close>

interpretation le32: three_way cmp_le32
  by unfold_locales (auto simp: cmp_le32_def cmp_int_def)

lemma ancestor_cong_ge:
  assumes "parents_ok p" "\<forall>x. q \<le> x \<longrightarrow> p' x = p x"
  shows "ancestor p' q a \<longleftrightarrow> ancestor p q a"
proof -
  have "ancestor p' x a \<longleftrightarrow> ancestor p x a" if "q \<le> x" for x
    using that
  proof (induction x rule: up_induct)
    case (up x)
    have e: "p' x = p x" using assms(2) up.prems by blast
    have "ancestor p' (p x) a = ancestor p (p x) a" if "p x \<noteq> 0"
    proof -
      have "x < p x" using assms(1) that unfolding parents_ok_def by blast
      then show ?thesis using up.IH [of "p x"] up.prems by (meson less_imp_le order_trans)
    qed
    then show ?case using ancestor_iff [of p' x a] ancestor_iff [of p x a] unfolding e by blast
  qed
  then show ?thesis by blast
qed

lemma ancestor_cong_set:
  assumes "\<And>x. x \<notin> A \<Longrightarrow> p' x = p x" "\<And>x. x \<notin> A \<Longrightarrow> p x \<notin> A \<or> p x = 0" "x \<notin> A"
  shows "ancestor p' x a \<longleftrightarrow> ancestor p x a"
proof
  assume "ancestor p' x a"
  then show "ancestor p x a" using assms(3)
  proof (induction rule: ancestor.induct)
    case (anc_up y b)
    have "p' y = p y" "p y \<notin> A" using assms(1,2) [OF anc_up.prems] anc_up.hyps(1) by auto
    then show ?case using anc_up.hyps(1) anc_up.IH by (metis ancestor.anc_up)
  qed (rule ancestor.anc_self)
next
  assume "ancestor p x a"
  then show "ancestor p' x a" using assms(3)
  proof (induction rule: ancestor.induct)
    case (anc_up y b)
    have "p' y = p y" "p y \<notin> A" using assms(1,2) [OF anc_up.prems] anc_up.hyps(1) by auto
    then show ?case using anc_up.hyps(1) anc_up.IH by (metis ancestor.anc_up)
  qed (rule ancestor.anc_self)
qed

text \<open>The allocation for an id succeeds: there is memory, and the table stays below its size limit.\<close>

definition snapshot_room :: "nat \<Rightarrow> bool \<Rightarrow> u32 \<Rightarrow> bool" where
  "snapshot_room hdr alloc sid \<longleftrightarrow> alloc \<and> hdr + 56 * (snapshot_idx sid + 1) \<le> 2 ^ 30"

lemma snapshot_room_mut: "snapshot_room hdr alloc sid \<Longrightarrow> snapshot_t_mut hdr alloc t sid \<noteq> None"
proof -
  assume r: "snapshot_room hdr alloc sid"
  then have "fls_nat (hdr + 56 * (snapshot_idx sid + 1) - 1) \<le> 30" by (simp add: snapshot_room_def fls_nat_le_iff)
  then have "kmalloc_size_roundup (hdr + 56 * (snapshot_idx sid + 1)) \<le> 2 ^ 30"
    unfolding kmalloc_size_roundup_def by (intro power_increasing) simp_all
  then show ?thesis using r
    by (auto simp: snapshot_t_mut_def snapshot_t_grow_def snapshot_room_def Let_def split: option.split)
qed

text \<open>A key of node \<open>sid\<close> that fits the tree \<open>p\<close>.\<close>

definition key_fits :: "nat \<Rightarrow> (u32 \<Rightarrow> bool) \<Rightarrow> (u32 \<Rightarrow> u32) \<Rightarrow> u32 \<Rightarrow> snapshot_key \<Rightarrow> bool" where
  "key_fits hdr alloc p sid k \<longleftrightarrow> sid \<noteq> 0 \<and> snapshot_room hdr (alloc sid) sid \<and>
     (case k of KEY_snapshot val_bytes s \<Rightarrow> 24 < val_bytes \<and> sv_parent s = p sid \<and> skip_ok p (p sid) (sv_skip s) | KEY_other \<Rightarrow> False)"

abbreviation (input) snapids :: "(u32 \<times> snapshot_key) list \<Rightarrow> u32 set" where
  "snapids ks \<equiv> fst ` set ks"

text \<open>The nodes read so far are those of the tree without the ids still to come.\<close>

definition read_state :: "(u32 \<Rightarrow> u32) \<Rightarrow> u32 set \<Rightarrow> snapshot_table \<Rightarrow> bool" where
  "read_state p rest t \<longleftrightarrow> snapshot_table_ok t \<and> (\<forall>x. par t x = (if x \<in> rest then 0 else p x)) \<and> (\<forall>x \<in> rest. unused t x) \<and>
     (\<forall>x. p x \<noteq> 0 \<longrightarrow> x \<in> rest \<or> (\<forall>y \<in> rest. y < x))"

lemma needs_deletion_snapshots [simp]: "snapshots (bch2_check_snapshot_needs_deletion k c) = snapshots c"
  by (simp add: bch2_check_snapshot_needs_deletion_def split: snapshot_key.split)

lemma read_one:
  assumes "parents_ok p" "read_state p (insert sid rest) (snapshots c)" "\<forall>y \<in> rest. y < sid" "key_fits hdr alloc p sid (KEY_snapshot val_bytes s)"
  shows "\<exists>c' e. bch2_mark_snapshot hdr (alloc sid) sid (KEY_snapshot val_bytes s) c = Some (0, c') \<and> read_state p rest (snapshots c') \<and>
    (\<forall>x s. x \<noteq> sid \<longrightarrow> snapshot_t (snapshots c) x = Some s \<longrightarrow> snapshot_t (snapshots c') x = Some s) \<and>
    (\<forall>x. x \<noteq> sid \<longrightarrow> unused (snapshots c') x = unused (snapshots c) x) \<and>
    snapshot_t (snapshots c') sid = Some e \<and> st_depth e = sv_depth s"
proof -
  let ?q = "par (snapshots c)"
  have q: "?q x = (if x \<in> insert sid rest then 0 else p x)" for x using assms(2) unfolding read_state_def by blast
  have k: "sid \<noteq> 0" "24 < val_bytes" "sv_parent s = p sid" "skip_ok p (p sid) (sv_skip s)" "snapshot_room hdr (alloc sid) sid"
    using assms(4) by (simp_all add: key_fits_def)
  have up: "p x \<noteq> 0 \<Longrightarrow> x < p x" for x using assms(1) unfolding parents_ok_def by blast
  have others: "p x \<noteq> 0 \<Longrightarrow> x \<in> insert sid rest \<or> sid < x" for x using assms(2) unfolding read_state_def by blast
  have "?q x \<noteq> sid" for x
  proof
    assume "?q x = sid"
    then have "p x = sid" "x \<notin> insert sid rest" using q [of x] k(1) by (simp_all split: if_splits)
    then show False using up [of x] others [of x] k(1) by auto
  qed
  moreover have "?q x = p x" if "p sid \<le> x" "p sid \<noteq> 0" for x
    using that up [of sid] assms(3) q [of x] by (force simp: not_le)
  then have "skip_ok ?q (p sid) (sv_skip s)"
    using k(4) ancestor_cong_ge [OF assms(1), of "p sid" ?q] by (auto simp: skip_ok_def)
  moreover have "unused (snapshots c) sid" "snapshot_table_ok (snapshots c)" using assms(2) unfolding read_state_def by auto
  ultimately obtain c' e where m: "bch2_mark_snapshot hdr (alloc sid) sid (KEY_snapshot val_bytes s) c = Some (0, c')"
    "snapshot_table_ok (snapshots c')" "par (snapshots c') = ?q(sid := p sid)" "\<forall>x. x \<noteq> sid \<longrightarrow> unused (snapshots c') x = unused (snapshots c) x"
    "\<forall>x s. x \<noteq> sid \<longrightarrow> snapshot_t (snapshots c) x = Some s \<longrightarrow> snapshot_t (snapshots c') x = Some s"
    "snapshot_t (snapshots c') sid = Some e" "st_depth e = sv_depth s"
    using mark_snapshot_fresh [of c sid s val_bytes hdr "alloc sid"] k up [of sid] snapshot_room_mut [OF k(5)] by force
  have "sid \<notin> rest" using assms(3) by auto
  then have "read_state p rest (snapshots c')"
    using m(2-4) q assms(2,3) others unfolding read_state_def by (auto simp: m(3))
  then show ?thesis using m by blast
qed

lemma read_keys:
  assumes "parents_ok p"
  shows "read_state p (snapids ks) (snapshots c) \<Longrightarrow> sorted_wrt (\<lambda>k l. fst l < fst k) ks \<Longrightarrow>
    \<forall>sid k. (sid, k) \<in> set ks \<longrightarrow> key_fits hdr alloc p sid k \<Longrightarrow>
    \<exists>c'. bch2_snapshots_read hdr alloc ks c = Some (0, c') \<and> read_state p {} (snapshots c') \<and>
      (\<forall>x s. x \<notin> snapids ks \<longrightarrow> snapshot_t (snapshots c) x = Some s \<longrightarrow> snapshot_t (snapshots c') x = Some s) \<and>
      (\<forall>x. x \<notin> snapids ks \<longrightarrow> unused (snapshots c') x = unused (snapshots c) x) \<and>
      (\<forall>sid val_bytes s. (sid, KEY_snapshot val_bytes s) \<in> set ks \<longrightarrow> (\<exists>e. snapshot_t (snapshots c') sid = Some e \<and> st_depth e = sv_depth s))"
proof (induction ks arbitrary: c)
  case (Cons k ks)
  obtain sid vb s where k: "k = (sid, KEY_snapshot vb s)"
    using Cons.prems(3) by (cases k; cases "snd k") (auto simp: key_fits_def)
  have lt: "\<forall>y \<in> snapids ks. y < sid" using Cons.prems(2) by (auto simp: k)
  obtain c' e where c': "bch2_mark_snapshot hdr (alloc sid) sid (KEY_snapshot vb s) c = Some (0, c')" "read_state p (snapids ks) (snapshots c')"
    "\<forall>x s. x \<noteq> sid \<longrightarrow> snapshot_t (snapshots c) x = Some s \<longrightarrow> snapshot_t (snapshots c') x = Some s"
    "snapshot_t (snapshots c') sid = Some e" "st_depth e = sv_depth s" "\<forall>x. x \<noteq> sid \<longrightarrow> unused (snapshots c') x = unused (snapshots c) x"
    using read_one [OF assms, of sid "snapids ks" c hdr alloc vb s] Cons.prems(1,3) lt by (auto simp: k)
  let ?d = "bch2_check_snapshot_needs_deletion (KEY_snapshot vb s) c'"
  obtain d where d: "bch2_snapshots_read hdr alloc ks ?d = Some (0, d)" "read_state p {} (snapshots d)"
    "\<forall>x s. x \<notin> snapids ks \<longrightarrow> snapshot_t (snapshots c') x = Some s \<longrightarrow> snapshot_t (snapshots d) x = Some s"
    "\<forall>sid val_bytes s. (sid, KEY_snapshot val_bytes s) \<in> set ks \<longrightarrow> (\<exists>e. snapshot_t (snapshots d) sid = Some e \<and> st_depth e = sv_depth s)"
    "\<forall>x. x \<notin> snapids ks \<longrightarrow> unused (snapshots d) x = unused (snapshots c') x"
    using Cons.IH [of ?d] c'(2) Cons.prems(2,3) by auto
  have "sid \<notin> snapids ks" using lt by auto
  then have "snapshot_t (snapshots d) sid = Some e" using d(3) c'(4) by blast
  then show ?case using d c' by (intro exI [of _ d]) (auto simp: k)
qed simp

section \<open>Depths and new nodes\<close>

text \<open>The depth of a node is one more than that of its parent.\<close>

definition depths_ok :: "snapshot_table \<Rightarrow> bool" where
  "depths_ok t \<longleftrightarrow> (\<forall>x s. snapshot_t t x = Some s \<longrightarrow>
     (if st_parent s = 0 then st_depth s = 0
      else \<exists>s'. snapshot_t t (st_parent s) = Some s' \<and> unat (st_depth s) = Suc (unat (st_depth s'))))"

lemma nth_parent_ancestor:
  assumes "depths_ok t"
  shows "snapshot_t t x = Some s \<Longrightarrow> x \<noteq> 0 \<Longrightarrow> n \<le> unat (st_depth s) \<Longrightarrow>
    (bch2_snapshot_parent t ^^ n) x \<noteq> 0 \<and> ancestor (par t) x ((bch2_snapshot_parent t ^^ n) x)"
proof (induction n arbitrary: x s)
  case 0
  then show ?case by (simp add: ancestor.intros)
next
  case (Suc n)
  have p: "bch2_snapshot_parent t x = st_parent s" "par t x = st_parent s"
    using Suc.prems(1) by (simp_all add: bch2_snapshot_parent_def bch2_snapshot_parent_early_def)
  have nz: "st_parent s \<noteq> 0" using assms Suc.prems(1,3) unfolding depths_ok_def by (metis not_less_eq_eq unsigned_0 le0)
  then obtain s' where "snapshot_t t (st_parent s) = Some s'" "unat (st_depth s) = Suc (unat (st_depth s'))"
    using assms Suc.prems(1) unfolding depths_ok_def by metis
  then show ?case using Suc.IH [of "st_parent s" s'] nz p Suc.prems(3)
    by (auto simp: funpow_Suc_right simp del: funpow.simps intro: ancestor.anc_up)
qed

lemma skiplist_get_ancestor:
  assumes "depths_ok t" "parent = 0 \<or> snapshot_t t parent \<noteq> None" "\<forall>d. 0 < d \<longrightarrow> rand d < d"
  shows "\<exists>k. bch2_snapshot_skiplist_get t parent rand = Some k \<and> (if parent = 0 then k = 0 else k \<noteq> 0 \<and> ancestor (par t) parent k)"
proof (cases "parent = 0")
  case True
  then show ?thesis by (simp add: bch2_snapshot_skiplist_get_def)
next
  case False
  then obtain s where s: "snapshot_t t parent = Some s" using assms(2) by blast
  show ?thesis
  proof (cases "st_parent s = 0")
    case True
    then show ?thesis using False s by (simp add: bch2_snapshot_skiplist_get_def ancestor.intros)
  next
    case nz: False
    then have "unat (st_depth s) \<noteq> 0" using assms(1) s unfolding depths_ok_def by (metis nat.distinct(1))
    then have "rand (st_depth s) < st_depth s" using assms(3) by (simp add: word_greater_zero_iff unat_eq_0)
    then have "unat (rand (st_depth s)) \<le> unat (st_depth s)" by (simp add: word_less_nat_alt)
    from nth_parent_ancestor [OF assms(1) s False this] show ?thesis
      using False nz s by (simp add: bch2_snapshot_skiplist_get_def bch2_snapshot_nth_parent_def)
  qed
qed

lemma snapshot_pos_valid:
  assumes "sid \<noteq> 0"
  shows "\<not> bkey_gt (SPOS 0 (ucast sid) 0) (SPOS 0 0xffffffff 0)" "\<not> bkey_lt (SPOS 0 (ucast sid) 0) (SPOS 0 1 0)" "(ucast sid :: u64) \<noteq> 0"
    "(ucast (p :: u32) :: u64) \<le> ucast (sid :: u32) \<longleftrightarrow> p \<le> sid"
proof -
  have "unat sid < 2 ^ 32" "unat sid \<noteq> 0" using unsigned_less [of sid, where ?'a = nat] assms by (simp_all add: unat_eq_0 del: unsigned_less)
  then show "\<not> bkey_gt (SPOS 0 (ucast sid) 0) (SPOS 0 0xffffffff 0)" "\<not> bkey_lt (SPOS 0 (ucast sid) 0) (SPOS 0 1 0)" "(ucast sid :: u64) \<noteq> 0"
    "(ucast (p :: u32) :: u64) \<le> ucast (sid :: u32) \<longleftrightarrow> p \<le> sid"
    by (simp_all add: bkey_gt_def bkey_lt_def word_less_nat_alt word_le_nat_alt word_unat_eq_iff unat_ucast_up)
qed

lemma new_snapshot_ok:
  assumes "snapshot_table_ok t" "depths_ok t" "parent = 0 \<or> snapshot_t t parent \<noteq> None" "\<forall>j d. 0 < d \<longrightarrow> rand j d < d"
    "sid \<noteq> 0" "parent = 0 \<or> sid < parent"
  shows "\<exists>n. new_snapshot t rand parent tree depth subvol = Some n \<and> sv_parent n = parent \<and> sv_depth n = depth \<and> \<not> sv_deleted n \<and>
    skip_ok (par t) parent (sv_skip n) \<and> bch2_snapshot_validate (SPOS 0 (ucast sid) 0) 56 n"
proof -
  have "\<exists>k. bch2_snapshot_skiplist_get t parent (rand j) = Some k \<and> (if parent = 0 then k = 0 else k \<noteq> 0 \<and> ancestor (par t) parent k)" for j
    using skiplist_get_ancestor [OF assms(2,3), of "rand j"] assms(4) by blast
  then obtain k where k: "bch2_snapshot_skiplist_get t parent (rand j) = Some (k j)"
    "if parent = 0 then k j = 0 else k j \<noteq> 0 \<and> ancestor (par t) parent (k j)" for j by metis
  let ?sk = "bubble_sort cmp_le32 [k 0, k (Suc 0), k 2]"
  have st: "set ?sk = {k 0, k (Suc 0), k 2}" "length ?sk = 3"
    using mset_eq_setD [OF le32.bubble_sort_correct(1)] arg_cong [OF le32.bubble_sort_correct(1), of size, of "[k 0, k (Suc 0), k 2]"] by auto
  have ok: "skip_ok (par t) parent ?sk" using k(2) st by (auto simp: skip_ok_def)
  have po: "parents_ok (par t)" using assms(1) by (simp add: snapshot_table_ok_def)
  have srt: "?sk ! 0 \<le> ?sk ! 1" "?sk ! 1 \<le> ?sk ! 2"
    using le32.bubble_sort_correct(2) [of "[k 0, k (Suc 0), k 2]"] st(2) by (simp_all add: sorted_iff_nth_mono)
  have "k j = 0 \<or> parent \<le> k j" for j using k(2) [of j] ancestor_le [OF _ po, of parent "k j"] by (auto split: if_splits)
  then have ge: "\<forall>x \<in> set ?sk. x = 0 \<or> parent \<le> x" unfolding st(1) by blast
  have "snapshot_skip_valid parent ?sk" using srt ge by (auto simp: snapshot_skip_valid_def list_all_iff not_less)
  then show ?thesis using ok k(1) assms(5,6)
    by (auto simp: new_snapshot_def bch2_snapshot_validate_def snapshot_pos_valid)
qed

lemma depths_mark:
  assumes "depths_ok t" "\<And>x. x \<noteq> sid \<Longrightarrow> unused t' x = unused t x" "\<And>x s. x \<noteq> sid \<Longrightarrow> snapshot_t t x = Some s \<Longrightarrow> snapshot_t t' x = Some s"
    "snapshot_t t' sid = Some e" "par t' = (par t)(sid := parent)" "st_depth e = depth" "\<And>x. par t x \<noteq> sid" "parent \<noteq> sid"
    "if parent = 0 then depth = 0 else \<exists>s. snapshot_t t parent = Some s \<and> unat depth = Suc (unat (st_depth s))"
  shows "depths_ok t'"
  unfolding depths_ok_def
proof (intro allI impI)
  fix x s assume s: "snapshot_t t' x = Some s"
  show "if st_parent s = 0 then st_depth s = 0 else \<exists>s'. snapshot_t t' (st_parent s) = Some s' \<and> unat (st_depth s) = Suc (unat (st_depth s'))"
  proof (cases "x = sid")
    case True
    then have "s = e" "st_parent s = parent" using s assms(4) fun_cong [OF assms(5), of sid] by (simp_all add: bch2_snapshot_parent_early_def)
    then show ?thesis using assms(3) [of parent] assms(6,8,9) by (auto split: if_splits)
  next
    case x: False
    show ?thesis
    proof (cases "snapshot_t t x")
      case None
      then have "unused t' x" using assms(2) [OF x] by (simp add: unused_def)
      then show ?thesis using s by (simp add: unused_def snapshot_zero_def)
    next
      case (Some r)
      then have "r = s" using assms(3) [OF x Some] s by simp
      moreover from this have "st_parent s \<noteq> sid" using assms(7) [of x] Some by (simp add: bch2_snapshot_parent_early_def)
      ultimately show ?thesis using assms(1,3) Some unfolding depths_ok_def by metis
    qed
  qed
qed

text \<open>What holds between the steps of \<open>create_snapids\<close>: no id below \<open>pos\<close> is in use.\<close>

definition create_state :: "u32 \<Rightarrow> u32 \<Rightarrow> u32 \<Rightarrow> snapshot_table \<Rightarrow> bool" where
  "create_state parent depth pos t \<longleftrightarrow> snapshot_table_ok t \<and> depths_ok t \<and> (\<forall>x < pos. unused t x) \<and> (\<forall>x. par t x = 0 \<or> pos \<le> par t x) \<and>
     (if parent = 0 then depth = 0 else pos \<le> parent \<and> (\<exists>s. snapshot_t t parent = Some s \<and> unat depth = Suc (unat (st_depth s))))"

lemma create_one:
  assumes "create_state parent depth pos (snapshots c)" "pos - 1 \<noteq> 0" "pos \<noteq> 0" "snapshot_room hdr alloc (pos - 1)" "\<forall>j d. 0 < d \<longrightarrow> rand j d < d"
  shows "\<exists>n c'. new_snapshot (snapshots c) rand parent tree depth subvol = Some n \<and> bch2_mark_snapshot hdr alloc (pos - 1) (KEY_snapshot 56 n) c = Some (0, c') \<and>
    create_state parent depth (pos - 1) (snapshots c') \<and> par (snapshots c') = (par (snapshots c))(pos - 1 := parent) \<and>
    bch2_snapshot_validate (SPOS 0 (ucast (pos - 1)) 0) 56 n"
proof -
  let ?t = "snapshots c" and ?s = "pos - 1"
  have "unat pos \<noteq> 0" using assms(3) by (simp add: unat_eq_0)
  then have lt: "?s < pos" using assms(3) by (simp add: word_less_nat_alt unat_minus_one)
  have cs: "snapshot_table_ok ?t" "depths_ok ?t" "\<And>x. x < pos \<Longrightarrow> unused ?t x" "\<And>x. par ?t x = 0 \<or> pos \<le> par ?t x"
    "parent = 0 \<or> pos \<le> parent \<and> snapshot_t ?t parent \<noteq> None"
    using assms(1) unfolding create_state_def by (auto split: if_splits)
  have sp: "parent = 0 \<or> ?s < parent" using cs(5) lt by auto
  obtain n where n: "new_snapshot ?t rand parent tree depth subvol = Some n" "sv_parent n = parent" "sv_depth n = depth"
    "skip_ok (par ?t) parent (sv_skip n)" "bch2_snapshot_validate (SPOS 0 (ucast ?s) 0) 56 n"
    using new_snapshot_ok [OF cs(1,2) _ assms(5,2) sp, of tree depth subvol] cs(5) by blast
  have ns: "par ?t x \<noteq> ?s" for x using cs(4) [of x] lt assms(2) by auto
  obtain c' e where m: "bch2_mark_snapshot hdr alloc ?s (KEY_snapshot 56 n) c = Some (0, c')" "snapshot_table_ok (snapshots c')"
    "par (snapshots c') = (par ?t)(?s := parent)" "\<And>x. x \<noteq> ?s \<Longrightarrow> unused (snapshots c') x = unused ?t x"
    "\<And>x s. x \<noteq> ?s \<Longrightarrow> snapshot_t ?t x = Some s \<Longrightarrow> snapshot_t (snapshots c') x = Some s"
    "snapshot_t (snapshots c') ?s = Some e" "st_depth e = depth"
    using mark_snapshot_fresh [of c ?s n 56 hdr alloc, OF cs(1) assms(2) ns cs(3) [OF lt]] sp n snapshot_room_mut [OF assms(4)] by auto
  have par: "if parent = 0 then depth = 0 else \<exists>s. snapshot_t ?t parent = Some s \<and> unat depth = Suc (unat (st_depth s))"
    using assms(1) unfolding create_state_def by (simp split: if_splits)
  have "depths_ok (snapshots c')"
    by (rule depths_mark [OF cs(2) m(4,5,6,3,7) ns _ par]) (use sp assms(2) in auto)
  moreover have "\<forall>x < ?s. unused (snapshots c') x" using m(4) cs(3) lt by auto
  moreover have "par ?t x = 0 \<or> ?s \<le> par ?t x" for x using cs(4) [of x] lt by auto
  then have "\<forall>x. par (snapshots c') x = 0 \<or> ?s \<le> par (snapshots c') x" using sp unfolding m(3) by auto
  moreover have "if parent = 0 then depth = 0 else ?s \<le> parent \<and> (\<exists>s. snapshot_t (snapshots c') parent = Some s \<and> unat depth = Suc (unat (st_depth s)))"
    using par sp m(5) [of parent] by (auto split: if_splits)
  ultimately have "create_state parent depth ?s (snapshots c')" using m(2) unfolding create_state_def by blast
  then show ?thesis using n(1,5) m(1,3) by blast
qed

lemma create_loop:
  assumes "\<forall>s j d. 0 < d \<longrightarrow> rand s j d < d"
  shows "create_state parent depth pos (snapshots c) \<Longrightarrow> length subvols < unat pos \<Longrightarrow>
    \<forall>i < length subvols. snapshot_room hdr (alloc (pos - 1 - of_nat i)) (pos - 1 - of_nat i) \<Longrightarrow>
    \<exists>ns c'. create_snapids_loop hdr alloc rand parent tree depth pos subvols c = Some (0, ns, c') \<and>
      map fst ns = map (\<lambda>i. pos - 1 - of_nat i) [0..<length subvols] \<and>
      create_state parent depth (pos - of_nat (length subvols)) (snapshots c') \<and>
      par (snapshots c') = (\<lambda>x. if x \<in> fst ` set ns then parent else par (snapshots c) x) \<and>
      (\<forall>x n. (x, n) \<in> set ns \<longrightarrow> x < pos \<and> bch2_snapshot_validate (SPOS 0 (ucast x) 0) 56 n)"
proof (induction subvols arbitrary: pos c)
  case Nil
  then show ?case by simp
next
  case (Cons v vs)
  have len: "Suc (length vs) < unat pos" using Cons.prems(2) by simp
  then have pos: "pos \<noteq> 0" by auto
  have u: "unat (pos - 1) = unat pos - 1" using pos by (rule unat_minus_one)
  then have "unat (pos - 1) \<noteq> 0" using len by linarith
  then have nz: "pos - 1 \<noteq> 0" by (metis unsigned_0)
  have lt: "pos - 1 < pos" using u len by (simp add: word_less_nat_alt)
  obtain n c' where c': "new_snapshot (snapshots c) (rand (pos - 1)) parent tree depth v = Some n"
    "bch2_mark_snapshot hdr (alloc (pos - 1)) (pos - 1) (KEY_snapshot 56 n) c = Some (0, c')"
    "create_state parent depth (pos - 1) (snapshots c')" "par (snapshots c') = (par (snapshots c))(pos - 1 := parent)"
    "bch2_snapshot_validate (SPOS 0 (ucast (pos - 1)) 0) 56 n"
    using create_one [OF Cons.prems(1) nz pos, of hdr "alloc (pos - 1)" "rand (pos - 1)" tree v] Cons.prems(3) assms by force
  have lv: "length vs < unat (pos - 1)" using u len by linarith
  have room: "\<forall>i < length vs. snapshot_room hdr (alloc (pos - 1 - 1 - of_nat i)) (pos - 1 - 1 - of_nat i)"
  proof (intro allI impI)
    fix i assume "i < length vs"
    then show "snapshot_room hdr (alloc (pos - 1 - 1 - of_nat i)) (pos - 1 - 1 - of_nat i)"
      using Cons.prems(3) [rule_format, of "Suc i"] by (simp add: diff_diff_eq)
  qed
  obtain ns d where d: "create_snapids_loop hdr alloc rand parent tree depth (pos - 1) vs c' = Some (0, ns, d)"
    "map fst ns = map (\<lambda>i. pos - 1 - 1 - of_nat i) [0..<length vs]" "create_state parent depth (pos - 1 - of_nat (length vs)) (snapshots d)"
    "par (snapshots d) = (\<lambda>x. if x \<in> fst ` set ns then parent else par (snapshots c') x)"
    "\<forall>x n. (x, n) \<in> set ns \<longrightarrow> x < pos - 1 \<and> bch2_snapshot_validate (SPOS 0 (ucast x) 0) 56 n"
    using Cons.IH [OF c'(3) lv room] by blast
  have "map (\<lambda>i. pos - 1 - of_nat i) [0..<length (v # vs)] = (pos - 1) # map (\<lambda>i. pos - 1 - of_nat (Suc i)) [0..<length vs]"
    using map_upt_Suc [of "\<lambda>i. pos - 1 - of_nat i" "length vs"] by simp
  moreover have "pos - 1 - of_nat (Suc i) = pos - 1 - 1 - of_nat i" for i by (simp add: diff_diff_eq)
  ultimately have ids: "map fst ((pos - 1, n) # ns) = map (\<lambda>i. pos - 1 - of_nat i) [0..<length (v # vs)]" using d(2) by simp
  have st: "create_state parent depth (pos - of_nat (length (v # vs))) (snapshots d)" using d(3) by (simp add: diff_diff_eq)
  have "par (snapshots d) = (\<lambda>x. if x \<in> fst ` set ((pos - 1, n) # ns) then parent else par (snapshots c) x)"
    unfolding d(4) c'(4) by (rule ext) simp
  moreover have "\<forall>x m. (x, m) \<in> set ((pos - 1, n) # ns) \<longrightarrow> x < pos \<and> bch2_snapshot_validate (SPOS 0 (ucast x) 0) 56 m"
    using d(5) c'(5) lt less_trans [OF _ lt] by auto
  moreover have "create_snapids_loop hdr alloc rand parent tree depth pos (v # vs) c = Some (0, (pos - 1, n) # ns, d)"
    using c'(1,2) d(1) nz pos by (simp add: Let_def)
  ultimately show ?case using ids st by blast
qed

text \<open>
  Marking never clears a bit. When a node is marked again with another parent, because the node between was deleted, the bit of
  that node stays, and the test goes on to call it an ancestor.
\<close>

lemma set_ancestor_bits_mono:
  assumes ret: "set_ancestor_bits t sid q bits = Some bits'"
  shows "bit bits i \<longrightarrow> bit bits' i"
proof (rule set_ancestor_bits.raw_induct [where P = "\<lambda>t sid q bits bits'. bit bits i \<longrightarrow> bit bits' i", OF _ ret])
  fix f t sid q bits bits'
  assume IH: "\<And>t sid q bits bits'. f t sid q bits = Some bits' \<Longrightarrow> bit bits i \<longrightarrow> bit bits' i"
    and eq: "(let parent = bch2_snapshot_parent_early t q in
      if parent \<noteq> 0 \<and> parent - sid - 1 < IS_ANCESTOR_BITMAP
      then f t sid parent (set_bit (unat (parent - sid - 1)) bits) else Some bits) = Some bits'"
  show "bit bits i \<longrightarrow> bit bits' i"
  proof (cases "par t q \<noteq> 0 \<and> par t q - sid - 1 < IS_ANCESTOR_BITMAP")
    case True
    with eq have "f t sid (par t q) (set_bit (unat (par t q - sid - 1)) bits) = Some bits'" by (simp add: Let_def)
    from IH [OF this] show ?thesis using bit_imp_possible_bit [of bits i] by (auto simp: bit_set_bit_iff)
  next
    case False
    with eq show ?thesis by (auto simp: Let_def)
  qed
qed

lemma mark_keeps_bits:
  assumes "bch2_mark_snapshot hdr alloc sid (KEY_snapshot n s) c = Some (0, c')" "snapshot_t (snapshots c) sid = Some e" "bit (st_is_ancestor e) i"
  shows "\<exists>e'. snapshot_t (snapshots c') sid = Some e' \<and> st_parent e' = sv_parent s \<and> bit (st_is_ancestor e') i"
proof -
  let ?e = "snapshot_entry_of n s e"
  have anc: "st_is_ancestor ?e = st_is_ancestor e" "st_parent ?e = sv_parent s" by (simp_all add: snapshot_entry_of_def Let_def)
  obtain bits where bits: "set_ancestor_bits (snapshot_t_set (snapshots c) sid ?e) sid sid (st_is_ancestor e) = Some bits"
    "snapshots c' = snapshot_t_set (snapshot_t_set (snapshots c) sid ?e) sid (?e\<lparr>st_is_ancestor := bits\<rparr>)"
    using assms(1,2) by (auto simp: bch2_mark_snapshot_def snapshot_t_mut_def Let_def anc)
  have "bit bits i" using set_ancestor_bits_mono [OF bits(1)] assms(3) by blast
  then show ?thesis using assms(2) bits(2) anc by (simp add: snapshot_t_set_at)
qed

section \<open>Properties\<close>

text \<open>The tree of a list of keys, and what the recovery passes ensure of the keys: they are valid, their skip lists hold
  ancestors, and their depths are those of the tree.\<close>

definition key_parents :: "(u32 \<times> snapshot_key) list \<Rightarrow> u32 \<Rightarrow> u32" where
  "key_parents ks x = (case map_of ks x of Some (KEY_snapshot _ s) \<Rightarrow> sv_parent s | _ \<Rightarrow> 0)"

fun snapshot_key_ok :: "(u32 \<times> snapshot_key) list \<Rightarrow> u32 \<Rightarrow> snapshot_key \<Rightarrow> bool" where
  "snapshot_key_ok ks sid (KEY_snapshot val_bytes s) \<longleftrightarrow>
     28 < val_bytes \<and> bch2_snapshot_validate (SPOS 0 (ucast sid) 0) val_bytes s \<and> skip_ok (key_parents ks) (sv_parent s) (sv_skip s) \<and>
     (if sv_parent s = 0 then sv_depth s = 0
      else \<exists>n r. (sv_parent s, KEY_snapshot n r) \<in> set ks \<and> unat (sv_depth s) = Suc (unat (sv_depth r)))"
| "snapshot_key_ok ks sid KEY_other \<longleftrightarrow> False"

lemma snapshot_validate_parent:
  assumes "bch2_snapshot_validate (SPOS 0 (ucast (sid :: u32)) 0) n s"
  shows "sid \<noteq> 0" "sv_parent s = 0 \<or> sid < sv_parent s"
proof -
  show nz: "sid \<noteq> 0"
  proof
    assume "sid = 0"
    then show False using assms by (simp add: bch2_snapshot_validate_def bkey_lt_def)
  qed
  show "sv_parent s = 0 \<or> sid < sv_parent s"
    using assms snapshot_pos_valid(4) [OF nz, of "sv_parent s"] by (auto simp: bch2_snapshot_validate_def not_le)
qed

lemma key_parents_in:
  assumes "sorted_wrt (\<lambda>k l. fst l < fst k) ks" "(sid, KEY_snapshot n s) \<in> set ks"
  shows "key_parents ks sid = sv_parent s"
proof -
  have "distinct (map fst ks)" using assms(1) by (induction ks) auto
  then show ?thesis using assms(2) by (simp add: key_parents_def)
qed

lemma read_table:
  assumes "sorted_wrt (\<lambda>k l. fst l < fst k) ks" "\<forall>sid k. (sid, k) \<in> set ks \<longrightarrow> snapshot_key_ok ks sid k \<and> snapshot_room hdr (alloc sid) sid"
  shows "\<exists>c'. bch2_snapshots_read hdr alloc ks \<lparr>snapshots = None, need_delete_dead_snapshots = nd\<rparr> = Some (0, c') \<and>
    snapshot_table_ok (snapshots c') \<and> par (snapshots c') = key_parents ks \<and> depths_ok (snapshots c') \<and> (\<forall>x. x \<notin> snapids ks \<longrightarrow> unused (snapshots c') x)"
proof -
  let ?p = "key_parents ks" and ?c = "\<lparr>snapshots = None, need_delete_dead_snapshots = nd\<rparr>"
  have key: "\<exists>n s. k = KEY_snapshot n s \<and> sid \<noteq> 0 \<and> (sv_parent s = 0 \<or> sid < sv_parent s) \<and> ?p sid = sv_parent s" if "(sid, k) \<in> set ks" for sid k
  proof -
    have ok: "snapshot_key_ok ks sid k" using that assms(2) by blast
    then obtain n s where k: "k = KEY_snapshot n s" by (cases k) simp_all
    then have "bch2_snapshot_validate (SPOS 0 (ucast sid) 0) n s" using ok by simp
    from snapshot_validate_parent [OF this] show ?thesis using k key_parents_in [OF assms(1), of sid n s] that by blast
  qed
  have out: "?p x = 0" if "x \<notin> snapids ks" for x using that by (simp add: key_parents_def map_of_eq_None_iff [THEN iffD2])
  have "?p x = 0 \<or> x \<noteq> 0 \<and> x < ?p x" for x
  proof (cases "x \<in> snapids ks")
    case True
    then obtain k where "(x, k) \<in> set ks" by auto
    from key [OF this] show ?thesis by auto
  qed (simp add: out)
  then have po: "parents_ok ?p" by (auto simp: parents_ok_def)
  have "read_state ?p (snapids ks) None"
    using out unfolding read_state_def
    by (auto simp: snapshot_table_ok_def parents_ok_def bch2_snapshot_parent_early_def snapshot_t_def unused_def)
  moreover have "\<forall>sid k. (sid, k) \<in> set ks \<longrightarrow> key_fits hdr alloc ?p sid k"
  proof (intro allI impI)
    fix sid k assume k: "(sid, k) \<in> set ks"
    then obtain n s where "k = KEY_snapshot n s" "sid \<noteq> 0" "?p sid = sv_parent s" using key by blast
    moreover have "snapshot_key_ok ks sid k" "snapshot_room hdr (alloc sid) sid" using assms(2) k by blast+
    ultimately show "key_fits hdr alloc ?p sid k" by (simp add: key_fits_def)
  qed
  ultimately obtain c' where c': "bch2_snapshots_read hdr alloc ks ?c = Some (0, c')" "read_state ?p {} (snapshots c')"
    "\<forall>x. x \<notin> snapids ks \<longrightarrow> unused (snapshots c') x = unused None x"
    "\<forall>sid n s. (sid, KEY_snapshot n s) \<in> set ks \<longrightarrow> (\<exists>e. snapshot_t (snapshots c') sid = Some e \<and> st_depth e = sv_depth s)"
    using read_keys [OF po, of ks ?c hdr alloc] assms(1) unfolding snapshot_fs.select_convs by blast
  have pp: "par (snapshots c') = ?p" using c'(2) unfolding read_state_def by auto
  have un: "\<forall>x. x \<notin> snapids ks \<longrightarrow> unused (snapshots c') x" using c'(3) by (simp add: unused_def [of None] snapshot_t_def)
  have "depths_ok (snapshots c')" unfolding depths_ok_def
  proof (intro allI impI)
    fix x e assume e: "snapshot_t (snapshots c') x = Some e"
    have pe: "st_parent e = ?p x" using fun_cong [OF pp, of x] e by (simp add: bch2_snapshot_parent_early_def)
    show "if st_parent e = 0 then st_depth e = 0 else \<exists>s'. snapshot_t (snapshots c') (st_parent e) = Some s' \<and> unat (st_depth e) = Suc (unat (st_depth s'))"
    proof (cases "x \<in> snapids ks")
      case False
      then have "e = snapshot_zero" using un e unfolding unused_def by blast
      then show ?thesis by (simp add: snapshot_zero_def)
    next
      case True
      then obtain k where "(x, k) \<in> set ks" by auto
      then obtain n s where s: "(x, KEY_snapshot n s) \<in> set ks" "?p x = sv_parent s" using key by blast
      obtain f where "snapshot_t (snapshots c') x = Some f" "st_depth f = sv_depth s" using c'(4) s(1) by blast
      then have d: "st_depth e = sv_depth s" using e by simp
      have "snapshot_key_ok ks x (KEY_snapshot n s)" using assms(2) s(1) by blast
      then have "if sv_parent s = 0 then sv_depth s = 0
          else \<exists>n r. (sv_parent s, KEY_snapshot n r) \<in> set ks \<and> unat (sv_depth s) = Suc (unat (sv_depth r))" by simp
      then show ?thesis using c'(4) unfolding pe s(2) d by (metis (no_types, lifting))
    qed
  qed
  then show ?thesis using c'(1,2) pp un unfolding read_state_def by blast
qed

text \<open>C6: the ancestor test after mounting. Reading the keys of the snapshots btree, from the last to the first, fills the table so that for
  every two ids, whether or not the recovery passes are done yet, the test ends and says whether one is an ancestor
  of the other in the tree of the keys. The skip lists and the bitmap never lead astray.\<close>

theorem snapshots_read_correct:
  assumes "sorted_wrt (\<lambda>k l. fst l < fst k) ks" "\<forall>sid k. (sid, k) \<in> set ks \<longrightarrow> snapshot_key_ok ks sid k \<and> snapshot_room hdr (alloc sid) sid"
  shows "\<exists>c'. bch2_snapshots_read hdr alloc ks \<lparr>snapshots = None, need_delete_dead_snapshots = nd\<rparr> = Some (0, c') \<and>
    (\<forall>checked sid a. bch2_snapshot_is_ancestor checked (snapshots c') sid a = Some (ancestor (key_parents ks) sid a))"
proof -
  obtain c' where "bch2_snapshots_read hdr alloc ks \<lparr>snapshots = None, need_delete_dead_snapshots = nd\<rparr> = Some (0, c')"
    "snapshot_table_ok (snapshots c')" "par (snapshots c') = key_parents ks"
    using read_table [OF assms, of nd] by blast
  then show ?thesis using is_ancestor_raw_correct [of "snapshots c'"]
    by (intro exI [of _ c']) (auto simp: bch2_snapshot_is_ancestor_def ancestor.intros)
qed

definition example_snapshot :: "u32 \<Rightarrow> u32 \<Rightarrow> u32 list \<Rightarrow> snapshot_key" where
  "example_snapshot parent depth skip = KEY_snapshot 56 \<lparr>sv_will_delete = False, sv_is_subvol = True, sv_deleted = False, sv_parent = parent,
     sv_children = [0, 0], sv_subvol = 1, sv_tree = 1, sv_depth = depth, sv_skip = skip\<rparr>"

definition example_snapshots :: "(u32 \<times> snapshot_key) list" where
  "example_snapshots =
     [(0xffffffff, example_snapshot 0 0 [0, 0, 0]),
      (0xfffffffe, example_snapshot 0xffffffff 1 [0xffffffff, 0xffffffff, 0xffffffff]),
      (0xfffffffd, example_snapshot 0xfffffffe 2 [0xfffffffe, 0xfffffffe, 0xffffffff])]"

lemma example_set:
  "set example_snapshots =
     {(0xffffffff, KEY_snapshot 56 \<lparr>sv_will_delete = False, sv_is_subvol = True, sv_deleted = False, sv_parent = 0,
        sv_children = [0, 0], sv_subvol = 1, sv_tree = 1, sv_depth = 0, sv_skip = [0, 0, 0]\<rparr>),
      (0xfffffffe, KEY_snapshot 56 \<lparr>sv_will_delete = False, sv_is_subvol = True, sv_deleted = False, sv_parent = 0xffffffff,
        sv_children = [0, 0], sv_subvol = 1, sv_tree = 1, sv_depth = 1, sv_skip = [0xffffffff, 0xffffffff, 0xffffffff]\<rparr>),
      (0xfffffffd, KEY_snapshot 56 \<lparr>sv_will_delete = False, sv_is_subvol = True, sv_deleted = False, sv_parent = 0xfffffffe,
        sv_children = [0, 0], sv_subvol = 1, sv_tree = 1, sv_depth = 2, sv_skip = [0xfffffffe, 0xfffffffe, 0xffffffff]\<rparr>)}"
  by (simp add: example_snapshots_def example_snapshot_def)

lemma example_parents:
  "key_parents example_snapshots 0xffffffff = 0" "key_parents example_snapshots 0xfffffffe = 0xffffffff"
  "key_parents example_snapshots 0xfffffffd = 0xfffffffe"
  by (simp_all add: key_parents_def example_snapshots_def example_snapshot_def)

lemma example_ancestors:
  "ancestor (key_parents example_snapshots) 0xfffffffe 0xffffffff" "ancestor (key_parents example_snapshots) 0xfffffffd 0xffffffff"
  "\<not> ancestor (key_parents example_snapshots) 0xfffffffe 0xfffffffd"
  using ancestor_iff [of "key_parents example_snapshots" "0xfffffffe"] ancestor_iff [of "key_parents example_snapshots" "0xffffffff"]
    ancestor_iff [of "key_parents example_snapshots" "0xfffffffd"] by (simp_all add: example_parents)

theorem snapshots_read_correct_witness:
  "\<exists>c'. bch2_snapshots_read 24 (\<lambda>_. True) example_snapshots \<lparr>snapshots = None, need_delete_dead_snapshots = False\<rparr> = Some (0, c') \<and>
    bch2_snapshot_is_ancestor True (snapshots c') 0xfffffffd 0xffffffff = Some True \<and>
    bch2_snapshot_is_ancestor True (snapshots c') 0xfffffffe 0xfffffffd = Some False"
proof -
  have "sorted_wrt (\<lambda>k l. fst l < fst k) example_snapshots" by (simp add: example_snapshots_def)
  moreover have "\<forall>sid k. (sid, k) \<in> set example_snapshots \<longrightarrow> snapshot_key_ok example_snapshots sid k \<and> snapshot_room 24 True sid"
    by (auto simp: example_set example_ancestors ancestor.intros skip_ok_def snapshot_room_def snapshot_idx_def
      bch2_snapshot_validate_def bkey_gt_def bkey_lt_def snapshot_skip_valid_def)
  ultimately show ?thesis using snapshots_read_correct [of example_snapshots 24 "\<lambda>_. True" False] example_ancestors by auto
qed

text \<open>C10: creating children of a node. In a right table in which no id from \<open>pos\<close> down is in use, \<open>create_snapids\<close> makes nodes with the
  next ids downwards whose keys are valid, and leaves the table right: afterwards the ancestors of a new node are itself and
  those of its parent, those of the other nodes are as before, and the depths still fit.\<close>

theorem snapshot_create_correct:
  assumes "snapshot_table_ok (snapshots c)" "depths_ok (snapshots c)" "\<forall>x < pos. unused (snapshots c) x"
    "\<forall>x. bch2_snapshot_parent_early (snapshots c) x = 0 \<or> pos \<le> bch2_snapshot_parent_early (snapshots c) x"
    "parent \<noteq> 0" "pos \<le> parent" "snapshot_t (snapshots c) parent = Some s" "st_depth s \<noteq> - 1"
    "length subvols < unat pos" "\<forall>i < length subvols. snapshot_room hdr (alloc (pos - 1 - of_nat i)) (pos - 1 - of_nat i)"
    "\<forall>s j d. 0 < d \<longrightarrow> rand s j d < d"
  shows "\<exists>ns c'. create_snapids hdr alloc rand parent tree pos subvols c = Some (0, ns, c') \<and>
    map fst ns = map (\<lambda>i. pos - 1 - of_nat i) [0..<length subvols] \<and>
    (\<forall>x n. (x, n) \<in> set ns \<longrightarrow> bch2_snapshot_validate (SPOS 0 (ucast x) 0) 56 n) \<and>
    snapshot_table_ok (snapshots c') \<and> depths_ok (snapshots c') \<and>
    (\<forall>checked x a. bch2_snapshot_is_ancestor checked (snapshots c') x a =
      Some (if x \<in> fst ` set ns then a = x \<or> ancestor (bch2_snapshot_parent_early (snapshots c)) parent a
            else ancestor (bch2_snapshot_parent_early (snapshots c)) x a))"
proof -
  let ?p = "par (snapshots c)"
  have d: "bch2_snapshot_depth (snapshots c) parent = Some (st_depth s + 1)" using assms(5,7) by (simp add: bch2_snapshot_depth_def)
  have "unat (st_depth s + 1) = Suc (unat (st_depth s))"
    using assms(8) by (simp add: unatSuc add.commute eq_neg_iff_add_eq_0)
  then have "create_state parent (st_depth s + 1) pos (snapshots c)" using assms(1-7) by (simp add: create_state_def)
  from create_loop [OF assms(11) this assms(9,10), of tree] obtain ns c' where l:
    "create_snapids_loop hdr alloc rand parent tree (st_depth s + 1) pos subvols c = Some (0, ns, c')"
    "map fst ns = map (\<lambda>i. pos - 1 - of_nat i) [0..<length subvols]"
    "create_state parent (st_depth s + 1) (pos - of_nat (length subvols)) (snapshots c')"
    "par (snapshots c') = (\<lambda>x. if x \<in> fst ` set ns then parent else ?p x)"
    "\<forall>x n. (x, n) \<in> set ns \<longrightarrow> x < pos \<and> bch2_snapshot_validate (SPOS 0 (ucast x) 0) 56 n" by blast
  let ?q = "\<lambda>x. if x \<in> fst ` set ns then parent else ?p x"
  have new: "x < pos" if "x \<in> fst ` set ns" for x using l(5) that by auto
  have below: "?p x \<notin> fst ` set ns \<or> ?p x = 0" for x using assms(4) new [of "?p x"] by (meson not_less)
  have old: "ancestor ?q x a = ancestor ?p x a" if "x \<notin> fst ` set ns" for x a
    by (rule ancestor_cong_set [where A = "fst ` set ns"]) (use that below in auto)
  have "parent \<notin> fst ` set ns" using new [of parent] assms(6) by (meson not_less)
  from old [OF this] have "ancestor ?q x a = (if x \<in> fst ` set ns then a = x \<or> ancestor ?p parent a else ancestor ?p x a)" for x a
    using ancestor_iff [of ?q x a] old [of x a] assms(5) by (cases "x \<in> fst ` set ns") (auto simp only: if_True if_False)
  moreover have "snapshot_table_ok (snapshots c')" "depths_ok (snapshots c')" using l(3) by (simp_all add: create_state_def)
  moreover from this have "bch2_snapshot_is_ancestor checked (snapshots c') x a = Some (ancestor ?q x a)" for checked x a
    using is_ancestor_raw_correct [of "snapshots c'"] unfolding l(4) [symmetric] by (auto simp: bch2_snapshot_is_ancestor_def ancestor.intros)
  ultimately show ?thesis using l(1,2,5) d by (simp add: create_snapids_def)
qed

definition example_root :: snapshot_fs where
  "example_root = \<lparr>snapshots = Some [snapshot_zero\<lparr>st_state := SNAPSHOT_ID_live, st_subvol := 1, st_tree := 1\<rparr>],
     need_delete_dead_snapshots = False\<rparr>"

lemma example_root_at: "snapshot_t (snapshots example_root) x =
    (if x = 0xffffffff then Some (snapshot_zero\<lparr>st_state := SNAPSHOT_ID_live, st_subvol := 1, st_tree := 1\<rparr>) else None)"
proof -
  have "snapshot_idx 0xffffffff = 0" by (simp add: snapshot_idx_def)
  moreover from this have "snapshot_idx x = 0 \<longleftrightarrow> x = 0xffffffff" using snapshot_idx_inj [of x "0xffffffff"] by simp
  ultimately show ?thesis by (simp add: example_root_def snapshot_t_def Let_def)
qed

lemma example_root_par: "bch2_snapshot_parent_early (snapshots example_root) = (\<lambda>x. 0)"
  by (rule ext) (simp add: bch2_snapshot_parent_early_def example_root_at snapshot_zero_def)

theorem snapshot_create_correct_witness:
  "\<exists>ns c'. create_snapids 24 (\<lambda>_. True) (\<lambda>_ _ _. 0) 0xffffffff 1 0xffffffff [5, 6] example_root = Some (0, ns, c') \<and>
    map fst ns = [0xfffffffe, 0xfffffffd] \<and> snapshot_table_ok (snapshots c') \<and>
    bch2_snapshot_is_ancestor True (snapshots c') 0xfffffffd 0xffffffff = Some True \<and>
    bch2_snapshot_is_ancestor True (snapshots c') 0xfffffffd 0xfffffffe = Some False"
proof -
  let ?c = "snapshots example_root"
  have "snapshot_table_ok ?c" using ancestor_iff [of "\<lambda>x. 0"]
    by (auto simp: snapshot_table_ok_def example_root_par example_root_at parents_ok_def skip_ok_def bits_ok_def snapshot_zero_def)
  moreover have "depths_ok ?c" by (simp add: depths_ok_def example_root_at snapshot_zero_def)
  moreover have "\<forall>x < 0xffffffff. unused ?c x" by (simp add: unused_def example_root_at)
  moreover have "\<forall>i < length [5 :: u32, 6]. snapshot_room 24 True (0xffffffff - 1 - of_nat i)"
    by (simp add: less_Suc_eq snapshot_room_def snapshot_idx_def)
  ultimately show ?thesis
    using snapshot_create_correct [of example_root "0xffffffff" "0xffffffff" _ "[5, 6]" 24 "\<lambda>_. True" "\<lambda>_ _ _. 0" 1] ancestor_iff [of "\<lambda>x. 0"]
    by (auto simp: example_root_par example_root_at snapshot_zero_def upt_rec)
qed

end
