(* ===== verification/Spec2Isabelle.thy ===== *)
theory Spec2Isabelle
  imports Bkey_Lossy Six_Safety Nocow Buckets_Waiting Seq_Blacklist Extent_Merge Snapshot_Table
begin

text \<open>
  A verification library for bcachefs as it is built in user space by bcachefs-tools: the file system
  code under \<^verbatim>\<open>libbcachefs\<close>, the replacements of kernel facilities under \<^verbatim>\<open>linux\<close> and
  \<^verbatim>\<open>include/linux\<close>, and the commands under \<^verbatim>\<open>c_src\<close>. Paths below are relative to \<^verbatim>\<open>src\<close>, and a file
  name without a directory is in \<^verbatim>\<open>libbcachefs\<close>.

  \<^bold>\<open>The program and the part modelled here.\<close> Everything bcachefs stores is a key in a btree. A key has
  a position (inode, offset, snapshot) and a value; the nodes of a btree hold keys packed by a format of
  their own and are searched through eytzinger arrays, under six locks. The value of an extent key says
  where the data is and carries its checksums. Updates go through a journal, whose sequence numbers
  decide when a bucket may be used again and which entries are void after a crash. Snapshots are a tree of
  node ids, and every lookup in a snapshot asks whether one id is an ancestor of another. The library has these layers,
  from positions and packed keys up to the merging of extents; the engine that
  strings them together (iterators, transactions, node and journal I/O) is outside it, see below.

  \<^bold>\<open>Conventions.\<close> Integers have the width of the code, \<open>u8\<close> to \<open>u64\<close>, and wrap; where a value provably
  stays in range (sizes of lists, indices of a search loop) it is a \<open>nat\<close>. Structures are records, memory a
  list of bytes or words. State is passed and returned. A failed \<open>BUG_ON\<close>, an access out of bounds or through a null
  pointer and a loop that does not end are \<open>None\<close>; error codes are values. There is no fuel: loops with a
  bound that holds for all inputs are \<open>fun\<close> or \<open>function\<close> with a termination proof, the others are
  \<open>partial_function (option)\<close>, and the theorems say that the result is \<open>Some\<close>. What the code takes from
  outside (memory allocation, random numbers, room in the superblock, the keys an iterator returns, the
  table of devices) is a parameter. The build is the one for little-endian machines, without the debug checks.

  \<^bold>\<open>Foundations.\<close>
  \<^item> \<open>Bch_Prelude\<close>: word types, the bit scans of \<^verbatim>\<open>include/linux/bitops.h\<close>, error values, the collections \<open>word_nat\<close> and
    \<open>cmp_simps\<close>, the locale \<open>compare_fun\<close> of three-way comparisons.
  \<^item> \<open>Varint\<close> (\<^verbatim>\<open>varint.c\<close>): both encoders and both decoders. Round trip, agreement of the fast variants with the careful ones
    on every input, and minimal length.
  \<^item> \<open>Bch_Hash\<close> (\<^verbatim>\<open>include/linux/hash.h\<close>): the hash of the bucket tables.
  \<^item> \<open>Bubble_Sort\<close> (\<^verbatim>\<open>util.h\<close>): the macro \<open>bubble_sort\<close> sorts; its client uses it through the locale \<open>three_way\<close>.

  \<^bold>\<open>Positions and packed keys.\<close>
  \<^item> \<open>Bpos\<close> (\<^verbatim>\<open>bkey.h\<close>, \<^verbatim>\<open>bcachefs_format.h\<close>): comparisons, successor and predecessor are those of one 160 bit integer.
  \<^item> \<open>Bkey_Pack\<close>, \<open>Bkey_Codec\<close> (\<^verbatim>\<open>bkey.c\<close>, \<^verbatim>\<open>bkey.h\<close>): the word level routines that store and read the fields of a packed
    key, and what they do to the number its words form.
  \<^item> \<open>Bkey_Format\<close> (\<^verbatim>\<open>bkey.c\<close>): formats. Packing with a valid format succeeds exactly on the keys that fit and unpacking inverts it;
    the format made from a set of keys is valid and packs them all; transforming to another format is unpacking and packing.
  \<^item> \<open>Bkey_Cmp\<close> (\<^verbatim>\<open>bkey_cmp.h\<close>, \<^verbatim>\<open>bkey.c\<close>): comparing packed keys, portable and x86-64 assembly, agrees with comparing
    the positions; the greatest differing bit.
  \<^item> \<open>Bkey_Lossy\<close> (\<^verbatim>\<open>bkey.c\<close>): \<open>bch2_bkey_pack_pos_lossy\<close> gives the greatest representable position below its argument.

  \<^bold>\<open>Search structures.\<close>
  \<^item> \<open>Eytzinger\<close>, \<open>Eytzinger_Index\<close> (\<^verbatim>\<open>eytzinger.h\<close>): 32 bit index arithmetic, iteration and search, all against
    the in-order traversal; for fewer than \<open>2^31\<close> nodes, from where on the shifts of the code overflow.
  \<^item> \<open>Eytzinger_Sort\<close> (\<^verbatim>\<open>eytzinger.c\<close>): the heapsort ends and sorts. The exchange routines are instances of the locales
    \<open>chunk_loop\<close> and \<open>exchange\<close>, the sort is proved in \<open>element_sort\<close> and interpreted on elements compared by a key.
  \<^item> \<open>Fifo\<close> (\<^verbatim>\<open>fifo.h\<close>): the ring buffer refines a bounded double-ended queue (locale \<open>bounded_deque\<close>).

  \<^bold>\<open>Locks.\<close>
  \<^item> \<open>Six\<close>, \<open>Six_Word\<close>, \<open>Six_Conc\<close>, \<open>Six_Safety\<close> (\<^verbatim>\<open>six.c\<close>, \<^verbatim>\<open>six.h\<close>): the operations on the state word, their effect on its
    fields, the step relation \<open>six_step\<close> of any number of tasks with its invariant, and what users rely on: mutual exclusion,
    no lost wakeup, relocking by sequence number.
  \<^item> \<open>Two_State\<close> (\<^verbatim>\<open>two_state_shared_lock.h\<close>), \<open>Nocow\<close> (\<^verbatim>\<open>nocow_locking.c\<close>): both are instances of the locale \<open>two_state\<close>; the two
    states exclude each other, and a trylock fails only for the reasons given.

  \<^bold>\<open>Journal and buckets.\<close>
  \<^item> \<open>Buckets_Waiting\<close> (\<^verbatim>\<open>buckets_waiting_for_journal.c\<close>): the cuckoo table, with growth and the error path. The relation \<open>bw_reach\<close> is
    the life of a table. The random seeds are a list, and \<open>Pending\<close> says that it was too short.
  \<^item> \<open>Seq_Blacklist\<close> (\<^verbatim>\<open>journal_seq_blacklist.c\<close>): adding, looking up and collecting ranges of sequence numbers; uses the
    eytzinger sort and search through \<open>keyed_sort\<close>.

  \<^bold>\<open>Extents and checksums.\<close>
  \<^item> \<open>Extent_Entry\<close>, \<open>Extent_Crc\<close>, \<open>Extent_Ptrs\<close>, \<open>Extent_Update\<close> (\<^verbatim>\<open>extents.c\<close>, \<^verbatim>\<open>extents.h\<close>, \<^verbatim>\<open>extents_format.h\<close>): the bit layout of
    the entries of a value, packed checksum entries, decoding of pointers, and adding and dropping pointers, which changes the
    decoded pointers only where it should and keeps the key well formed.
  \<^item> \<open>Extent_Cut\<close>, \<open>Extent_Merge\<close> (\<^verbatim>\<open>extents.c\<close>, \<^verbatim>\<open>bkey_methods.c\<close>): trimming and merging keep the place of the data of every sector.
    For merging this needs that the extents are not compressed; \<open>merge_compressed_addr\<close> shows what goes wrong otherwise.
  \<^item> \<open>Crc_Tables\<close>, \<open>Xxhash\<close>, \<open>Checksum\<close> (\<^verbatim>\<open>linux/crc64.c\<close>, \<^verbatim>\<open>linux/xxhash.c\<close>, \<^verbatim>\<open>c_src/tools-util.c\<close>, \<^verbatim>\<open>checksum.c\<close>): the tables hold the remainders by
    the polynomials, hashing in pieces gives the hash of the whole (locale \<open>block_hash\<close>), and merged checksums are those of the
    concatenated data (locale \<open>linear_checksum\<close>).

  \<^bold>\<open>Snapshots.\<close>
  \<^item> \<open>Snapshot\<close>, \<open>Snapshot_Table\<close> (\<^verbatim>\<open>snapshot.c\<close>, \<^verbatim>\<open>snapshot.h\<close>): the table of nodes, the ancestor test by skip lists and bitmaps,
    reading the nodes at mount and creating children. The test ends and decides the relation \<open>ancestor\<close> of the tree after reading
    and after creating nodes. Marking a node never clears a bit of its bitmap (\<open>mark_keeps_bits\<close>), so the
    theorems are about nodes that are new in the table; a node marked again with another parent keeps the bits of the old one.

  \<^bold>\<open>Not modelled\<close>, with the reason:
  \<^item> The btree engine (\<^verbatim>\<open>btree_*.c\<close>, \<^verbatim>\<open>bset.c\<close>, \<^verbatim>\<open>bkey_sort.c\<close>), the journal (\<^verbatim>\<open>journal*.c\<close> but for the blacklist) and recovery: they are
    concurrent code over cached nodes, restarts of transactions and block I/O, and a faithful
    state would contain most of the file system. Its pure building blocks are the theories above.
  \<^item> Allocation, accounting, data movement, erasure coding, repair, inodes, directories, quotas and the rest of the operations on
    files: each of them reads and writes keys through btree transactions.
  \<^item> In modelled components: the choice of a device to read from, validation, normalisation and text of extents, which depend on
    devices, options and clocks; encrypting checksums, whose ciphers are in libsodium; deletion and repair of snapshots, which are
    transactions over all btrees; the generated x86-64 unpack code of \<^verbatim>\<open>bkey.c\<close>, which the build turns off; text dumps, lockdep
    and tracing.
  \<^item> The kernel replacements other than the helpers named above (\<^verbatim>\<open>linux\<close>, \<^verbatim>\<open>include\<close>), \<^verbatim>\<open>raid\<close> and \<^verbatim>\<open>ccan\<close>: bindings to
    pthreads, liburcu, libaio, zlib and other libraries, or imported code.
  \<^item> The commands (\<^verbatim>\<open>c_src\<close>): argument parsing, printing and system calls around the library.
\<close>

end
